(* ===== verification/Prelude.thy ===== *)
theory Prelude
  imports Complex_Main "HOL-Library.Word" "HOL-Library.Multiset"
begin

text \<open>
  Shared vocabulary of the development: the machine integers and durations of the Rust
  sources, the saturating and truncating operations of the standard library that the
  components use, list functions that mirror iterator adaptors (\<open>position\<close>, \<open>min_by_key\<close>,
  \<open>enumerate().filter()\<close>), rounding of floating-point results as a parameter, and two
  locales that every stateful component instantiates: systems with an invariant and systems
  that refine an abstract specification.
\<close>

section \<open>Fact collections\<close>

named_theorems dur_simps "arithmetic of durations"
named_theorems sat_simps "saturating machine arithmetic read as natural numbers"
named_theorems idx_simps "indices selected by a predicate"

section \<open>Machine integers\<close>

type_synonym u8 = "8 word"
type_synonym u16 = "16 word"
type_synonym u32 = "32 word"
type_synonym u64 = "64 word"
type_synonym i64 = "64 word"
type_synonym i32 = "32 word"
type_synonym usize = "64 word"

definition saturating_sub :: "'a::len word \<Rightarrow> 'a word \<Rightarrow> 'a word" where
  "saturating_sub a b = (if a < b then 0 else a - b)"

definition saturating_add :: "'a::len word \<Rightarrow> 'a word \<Rightarrow> 'a word" where
  "saturating_add a b = (if unat a + unat b < 2 ^ LENGTH('a) then a + b else - 1)"

lemma unat_saturating_sub [sat_simps]:
  "unat (saturating_sub a b) = unat a - unat b"
  by (auto simp: saturating_sub_def word_less_nat_alt unat_sub_if')

lemma unat_max_word: "unat (- 1 :: 'a::len word) = 2 ^ LENGTH('a) - 1"
  by (simp add: unsigned_minus_1_eq_mask mask_eq_exp_minus_1)

lemma unat_saturating_add [sat_simps]:
  "unat (saturating_add a b :: 'a::len word) = min (unat a + unat b) (2 ^ LENGTH('a) - 1)"
proof (cases "unat a + unat b < 2 ^ LENGTH('a)")
  case True
  then show ?thesis
    by (simp add: saturating_add_def unat_word_ariths)
next
  case False
  then show ?thesis
    by (simp add: saturating_add_def unat_max_word)
qed

lemma unat_Suc_no_wrap:
  assumes "unat (a :: 'a::len word) < unat (b :: 'a word)"
  shows "unat (a + 1) = Suc (unat a)"
proof -
  have "unat b < 2 ^ LENGTH('a)" by (rule unsigned_less)
  with assms have "unat a + 1 < 2 ^ LENGTH('a)" by linarith
  then show ?thesis by (simp add: unat_word_ariths)
qed

lemma unat_Suc_not_max:
  assumes "(a :: 'a::len word) \<noteq> - 1"
  shows "unat (a + 1) = Suc (unat a)"
proof -
  have "unat a \<noteq> unat (- 1 :: 'a word)"
    using assms unsigned_word_eqI [of a "- 1", where ?'a = nat] by blast
  moreover have "unat a < 2 ^ LENGTH('a)" by (rule unsigned_less)
  ultimately have "unat a + 1 < 2 ^ LENGTH('a)"
    unfolding unat_max_word by linarith
  then show ?thesis by (simp add: unat_word_ariths)
qed

lemma Suc_no_wrap_below:
  fixes a b :: "'a::len word"
  assumes "unat a < max 1 (unat b)" "1 < LENGTH('a)"
  shows "unat (a + 1) = Suc (unat a)"
proof (cases "unat a < unat b")
  case True
  then show ?thesis by (rule unat_Suc_no_wrap)
next
  case False
  with assms(1) have "unat a = 0" by simp
  then show ?thesis by (simp add: unat_eq_0)
qed

section \<open>Durations\<close>

text \<open>\<open>std::time::Duration\<close> is a whole number of nanoseconds.\<close>

type_synonym duration = nat

definition from_secs :: "u64 \<Rightarrow> duration" where
  "from_secs s = unat s * 1000000000"

definition from_millis :: "u64 \<Rightarrow> duration" where
  "from_millis s = unat s * 1000000"

definition as_millis :: "duration \<Rightarrow> nat" where
  "as_millis d = d div 1000000"

text \<open>\<open>d.as_millis() as u64\<close>: the cast keeps the low 64 bits.\<close>

definition as_millis_u64 :: "duration \<Rightarrow> u64" where
  "as_millis_u64 d = word_of_nat (as_millis d)"

lemma as_millis_from_millis [dur_simps]: "as_millis (from_millis s) = unat s"
  by (simp add: as_millis_def from_millis_def)

lemma as_millis_u64_from_millis [dur_simps]: "as_millis_u64 (from_millis s) = s"
  by (simp add: as_millis_u64_def as_millis_from_millis)

lemma int_less_power2: "n < 2 ^ k \<Longrightarrow> int n < 2 ^ k"
  by (metis of_nat_less_iff of_nat_numeral of_nat_power)

section \<open>Floating-point rounding\<close>

text \<open>
  Finite \<open>f32\<close> and \<open>f64\<close> results are the exact rational result followed by a rounding
  function. The definitions take the rounding function as an argument; the facts about
  round-to-nearest that the code relies on are that it is monotone and odd, and that it keeps
  the integers that the format represents exactly.
\<close>

lemma unsigned_nonneg [simp]: "0 \<le> (unsigned w :: rat)"
  using of_nat_0_le_iff [of "unat w", where ?'a = rat] by simp

definition ieee_rounding :: "(rat \<Rightarrow> rat) \<Rightarrow> bool" where
  "ieee_rounding rnd \<longleftrightarrow> mono rnd \<and> (\<forall>x. rnd (- x) = - rnd x)"

definition exact_below :: "(rat \<Rightarrow> rat) \<Rightarrow> nat \<Rightarrow> bool" where
  "exact_below rnd n \<longleftrightarrow> (\<forall>k\<le>n. rnd (rat_of_nat k) = rat_of_nat k)"

lemma ieee_rounding_id: "ieee_rounding (\<lambda>x. x)"
  by (simp add: ieee_rounding_def mono_def)

lemma exact_below_id: "exact_below (\<lambda>x. x) n"
  by (simp add: exact_below_def)

lemma rnd_mono: "ieee_rounding rnd \<Longrightarrow> x \<le> y \<Longrightarrow> rnd x \<le> rnd y"
  by (auto simp: ieee_rounding_def dest: monoD)

lemma rnd_minus: "ieee_rounding rnd \<Longrightarrow> rnd (- x) = - rnd x"
  by (simp add: ieee_rounding_def)

lemma rnd_zero: "ieee_rounding rnd \<Longrightarrow> rnd 0 = 0"
  using rnd_minus [of rnd 0] by simp

lemma rnd_nonneg: "ieee_rounding rnd \<Longrightarrow> 0 \<le> x \<Longrightarrow> 0 \<le> rnd x"
  using rnd_mono [of rnd 0 x] by (simp add: rnd_zero)

lemma exact_belowD: "exact_below rnd n \<Longrightarrow> k \<le> n \<Longrightarrow> rnd (rat_of_nat k) = rat_of_nat k"
  by (simp add: exact_below_def)

section \<open>Lists as iterators\<close>

text \<open>\<open>iter().position(p)\<close>: the least index whose element satisfies the predicate.\<close>

fun position :: "('a \<Rightarrow> bool) \<Rightarrow> 'a list \<Rightarrow> nat option" where
  "position p [] = None"
| "position p (x # xs) = (if p x then Some 0 else map_option Suc (position p xs))"

lemma position_SomeD:
  "position p xs = Some i \<Longrightarrow> i < length xs \<and> p (xs ! i) \<and> (\<forall>j<i. \<not> p (xs ! j))"
proof (induction xs arbitrary: i)
  case (Cons x xs)
  then show ?case
    by (auto split: if_splits simp: less_Suc_eq_0_disj)
qed simp

lemma position_None_iff: "position p xs = None \<longleftrightarrow> (\<forall>x\<in>set xs. \<not> p x)"
  by (induction xs) auto

lemma position_ex: "i < length xs \<Longrightarrow> p (xs ! i) \<Longrightarrow> \<exists>j. position p xs = Some j"
  using position_None_iff nth_mem by (metis not_None_eq)

text \<open>\<open>iter().enumerate().filter(p).map(idx)\<close>: the indices of the selected elements.\<close>

definition indices_where :: "('a \<Rightarrow> bool) \<Rightarrow> 'a list \<Rightarrow> nat list" where
  "indices_where p xs = filter (\<lambda>i. p (xs ! i)) [0..<length xs]"

lemma set_indices_where [idx_simps]:
  "set (indices_where p xs) = {i. i < length xs \<and> p (xs ! i)}"
  by (auto simp: indices_where_def)

lemma distinct_indices_where: "distinct (indices_where p xs)"
  by (simp add: indices_where_def)

lemma sorted_indices_where: "sorted (indices_where p xs)"
  unfolding indices_where_def by (intro sorted_wrt_filter) simp

lemma indices_where_Nil_iff [idx_simps]:
  "indices_where p xs = [] \<longleftrightarrow> (\<forall>x\<in>set xs. \<not> p x)"
  by (fastforce simp: indices_where_def filter_empty_conv in_set_conv_nth)

lemma indices_where_nth:
  "k < length (indices_where p xs) \<Longrightarrow>
     indices_where p xs ! k < length xs \<and> p (xs ! (indices_where p xs ! k))"
  using nth_mem [of k "indices_where p xs"] by (simp add: set_indices_where)

text \<open>\<open>iter().min_by_key(f)\<close>: the first element of least key.\<close>

fun min_by_key :: "('a \<Rightarrow> 'k::linorder) \<Rightarrow> 'a list \<Rightarrow> 'a option" where
  "min_by_key f [] = None"
| "min_by_key f (x # xs) =
     (case min_by_key f xs of None \<Rightarrow> Some x
      | Some y \<Rightarrow> if f x \<le> f y then Some x else Some y)"

lemma min_by_key_None_iff [simp]: "min_by_key f xs = None \<longleftrightarrow> xs = []"
  by (cases xs) (auto split: option.splits)

lemma min_by_key_SomeD:
  "min_by_key f xs = Some y \<Longrightarrow> y \<in> set xs \<and> (\<forall>x\<in>set xs. f y \<le> f x)"
proof (induction xs arbitrary: y)
  case (Cons x xs)
  show ?case
  proof (cases "min_by_key f xs")
    case None
    with Cons.prems show ?thesis by auto
  next
    case (Some z)
    from Cons.IH [OF Some] Cons.prems Some show ?thesis
      by (auto split: if_splits)
  qed
qed simp

lemma min_by_key_ex: "xs \<noteq> [] \<Longrightarrow> \<exists>y. min_by_key f xs = Some y"
  using min_by_key_None_iff by (metis not_None_eq)

text \<open>
  \<open>iter().max_by_key(f)\<close>: the last element of greatest key.
\<close>

fun max_by_key :: "('a \<Rightarrow> 'k::linorder) \<Rightarrow> 'a list \<Rightarrow> 'a option" where
  "max_by_key f [] = None"
| "max_by_key f (x # xs) =
     (case max_by_key f xs of None \<Rightarrow> Some x
      | Some y \<Rightarrow> if f x \<le> f y then Some y else Some x)"

lemma max_by_key_None_iff [simp]: "max_by_key f xs = None \<longleftrightarrow> xs = []"
  by (cases xs) (auto split: option.splits)

lemma max_by_key_SomeD:
  "max_by_key f xs = Some y \<Longrightarrow> y \<in> set xs \<and> (\<forall>x\<in>set xs. f x \<le> f y)"
proof (induction xs arbitrary: y)
  case (Cons x xs)
  show ?case
  proof (cases "max_by_key f xs")
    case None
    with Cons.prems show ?thesis by auto
  next
    case (Some z)
    from Cons.IH [OF Some] Cons.prems Some show ?thesis
      by (auto split: if_splits)
  qed
qed simp

section \<open>State-transforming systems\<close>

text \<open>
  An operation applied to a component is an event; a run is a left fold of the step
  function. An invariant that every step keeps holds after every run.
\<close>

locale invariant_system =
  fixes step :: "'s \<Rightarrow> 'e \<Rightarrow> 's" and inv :: "'s \<Rightarrow> bool"
  assumes inv_step: "inv s \<Longrightarrow> inv (step s e)"
begin

lemma inv_run: "inv s \<Longrightarrow> inv (foldl step s es)"
  by (induction es arbitrary: s) (auto intro: inv_step)

end

text \<open>
  A system that implements an abstract one: where the invariant holds, the abstraction of a
  concrete step is the abstract step. The refinement extends to runs.
\<close>

locale refinement_system = invariant_system step inv
  for step :: "'s \<Rightarrow> 'e \<Rightarrow> 's" and inv :: "'s \<Rightarrow> bool" +
  fixes astep :: "'a \<Rightarrow> 'e \<Rightarrow> 'a" and abs :: "'s \<Rightarrow> 'a"
  assumes abs_step: "inv s \<Longrightarrow> abs (step s e) = astep (abs s) e"
begin

lemma abs_run: "inv s \<Longrightarrow> abs (foldl step s es) = foldl astep (abs s) es"
proof (induction es arbitrary: s)
  case (Cons e es)
  from Cons.prems have "inv (step s e)" by (rule inv_step)
  from Cons.IH [OF this] show ?case using Cons.prems by (simp add: abs_step)
qed simp

end

end
