(* ===== verification/CircuitBreaker.thy ===== *)
theory CircuitBreaker
  imports Prelude
begin

text \<open>
  The circuit breaker of \<open>model_gateway/src/worker/circuit_breaker.rs\<close>. Its atomics are the
  fields of a record; counters keep their width and wrap as \<open>fetch_add\<close> does. Every call of
  \<open>now_ms()\<close> is an argument, in the order the code makes the calls. Calls of the metrics
  sink are appended to \<open>cb_metrics\<close>, newest first.

  The specification is a machine with three states that knows nothing of words or of the
  counters that play no role in the current state; the breaker refines it on every run.
\<close>

section \<open>Data\<close>

record circuit_breaker_config =
  failure_threshold :: u32
  success_threshold :: u32
  timeout_duration :: duration
  window_duration :: duration

definition default_circuit_breaker_config :: circuit_breaker_config where
  "default_circuit_breaker_config =
     \<lparr>failure_threshold = 5, success_threshold = 2,
      timeout_duration = from_secs 30, window_duration = from_secs 60\<rparr>"

definition STATE_CLOSED :: u8 where "STATE_CLOSED = 0"
definition STATE_OPEN :: u8 where "STATE_OPEN = 1"
definition STATE_HALF_OPEN :: u8 where "STATE_HALF_OPEN = 2"

lemmas state_consts = STATE_CLOSED_def STATE_OPEN_def STATE_HALF_OPEN_def

datatype circuit_state = Closed | Open | HalfOpen

fun cb_as_str :: "circuit_state \<Rightarrow> string" where
  "cb_as_str Closed = ''closed''"
| "cb_as_str Open = ''open''"
| "cb_as_str HalfOpen = ''half_open''"

fun as_int :: "circuit_state \<Rightarrow> u8" where
  "as_int Closed = STATE_CLOSED"
| "as_int Open = STATE_OPEN"
| "as_int HalfOpen = STATE_HALF_OPEN"

definition from_int :: "u8 \<Rightarrow> circuit_state" where
  "from_int v =
     (if v = STATE_CLOSED then Closed
      else if v = STATE_OPEN then Open
      else if v = STATE_HALF_OPEN then HalfOpen
      else Closed)"

text \<open>The calls of the metrics sink that the breaker makes.\<close>

datatype cb_metric =
    SetCbState u8
  | CbTransition string string
  | CbOutcome string
  | GaugeFailures u32
  | GaugeSuccesses u32

record circuit_breaker =
  cb_state :: u8
  consecutive_failures :: u32
  consecutive_successes :: u32
  total_failures :: u64
  total_successes :: u64
  last_failure_time_ms :: u64
  last_state_change_ms :: u64
  cb_config :: circuit_breaker_config
  metric_label :: string
  cb_metrics :: "cb_metric list"

section \<open>Operations\<close>

definition with_config_and_label ::
  "u64 \<Rightarrow> circuit_breaker_config \<Rightarrow> string \<Rightarrow> circuit_breaker" where
  "with_config_and_label now cfg label =
     \<lparr>cb_state = STATE_CLOSED, consecutive_failures = 0, consecutive_successes = 0,
      total_failures = 0, total_successes = 0, last_failure_time_ms = 0,
      last_state_change_ms = now, cb_config = cfg, metric_label = label,
      cb_metrics = [SetCbState (as_int Closed)]\<rparr>"

definition new_circuit_breaker :: "u64 \<Rightarrow> circuit_breaker" where
  "new_circuit_breaker now = with_config_and_label now default_circuit_breaker_config ''''"

definition emit :: "cb_metric \<Rightarrow> circuit_breaker \<Rightarrow> circuit_breaker" where
  "emit m cb = cb\<lparr>cb_metrics := m # cb_metrics cb\<rparr>"

definition publish_gauge_metrics :: "circuit_breaker \<Rightarrow> circuit_breaker" where
  "publish_gauge_metrics cb =
     emit (GaugeSuccesses (consecutive_successes cb))
       (emit (GaugeFailures (consecutive_failures cb)) cb)"

definition transition_to :: "u64 \<Rightarrow> circuit_state \<Rightarrow> circuit_breaker \<Rightarrow> circuit_breaker" where
  "transition_to now new_state cb =
     (let old_state = from_int (cb_state cb);
          cb1 = cb\<lparr>cb_state := as_int new_state\<rparr>
      in if old_state = new_state then cb1
         else
           (let cb2 = cb1\<lparr>last_state_change_ms := now\<rparr>;
                cb3 = (case new_state of
                    Closed \<Rightarrow> cb2\<lparr>consecutive_failures := 0, consecutive_successes := 0\<rparr>
                  | Open \<Rightarrow> cb2\<lparr>consecutive_successes := 0\<rparr>
                  | HalfOpen \<Rightarrow> cb2\<lparr>consecutive_failures := 0, consecutive_successes := 0\<rparr>)
            in publish_gauge_metrics
                 (emit (SetCbState (as_int new_state))
                   (emit (CbTransition (cb_as_str old_state) (cb_as_str new_state)) cb3))))"

text \<open>
  Executed by one thread the compare-and-swap succeeds whenever it is reached, because the
  state was read as open just before; the losing branch is in the concurrent model.
\<close>

definition check_and_update_state_returning ::
  "u64 \<Rightarrow> u64 \<Rightarrow> circuit_breaker \<Rightarrow> circuit_state \<times> circuit_breaker" where
  "check_and_update_state_returning now now' cb =
     (let current_state = from_int (cb_state cb)
      in if current_state = Open then
           (let elapsed_ms = saturating_sub now (last_state_change_ms cb);
                timeout_ms = as_millis_u64 (timeout_duration (cb_config cb))
            in if timeout_ms \<le> elapsed_ms then
                 (HalfOpen,
                  publish_gauge_metrics
                    (emit (SetCbState STATE_HALF_OPEN)
                      (emit (CbTransition ''open'' ''half_open'')
                        (cb\<lparr>cb_state := STATE_HALF_OPEN, last_state_change_ms := now',
                            consecutive_failures := 0, consecutive_successes := 0\<rparr>))))
               else (current_state, cb))
         else (current_state, cb))"

definition can_execute :: "u64 \<Rightarrow> u64 \<Rightarrow> circuit_breaker \<Rightarrow> bool \<times> circuit_breaker" where
  "can_execute now now' cb =
     (case check_and_update_state_returning now now' cb of
        (Closed, cb') \<Rightarrow> (True, cb')
      | (Open, cb') \<Rightarrow> (False, cb')
      | (HalfOpen, cb') \<Rightarrow> (True, cb'))"

definition record_success :: "u64 \<Rightarrow> circuit_breaker \<Rightarrow> circuit_breaker" where
  "record_success now cb =
     (let successes = consecutive_successes cb + 1;
          cb1 = cb\<lparr>total_successes := total_successes cb + 1, consecutive_failures := 0,
                   consecutive_successes := successes\<rparr>
      in case from_int (cb_state cb1) of
           HalfOpen \<Rightarrow>
             if success_threshold (cb_config cb1) \<le> successes then transition_to now Closed cb1
             else cb1
         | Closed \<Rightarrow> cb1
         | Open \<Rightarrow> cb1)"

definition record_failure :: "u64 \<Rightarrow> u64 \<Rightarrow> circuit_breaker \<Rightarrow> circuit_breaker" where
  "record_failure now now' cb =
     (let failures = consecutive_failures cb + 1;
          cb1 = cb\<lparr>total_failures := total_failures cb + 1, consecutive_successes := 0,
                   consecutive_failures := failures, last_failure_time_ms := now\<rparr>
      in case from_int (cb_state cb1) of
           Closed \<Rightarrow>
             if failure_threshold (cb_config cb1) \<le> failures then transition_to now' Open cb1
             else cb1
         | HalfOpen \<Rightarrow> transition_to now' Open cb1
         | Open \<Rightarrow> cb1)"

definition cb_record_outcome :: "u64 \<Rightarrow> u64 \<Rightarrow> bool \<Rightarrow> circuit_breaker \<Rightarrow> circuit_breaker" where
  "cb_record_outcome now now' success cb =
     (let cb1 = (if success then record_success now cb else record_failure now now' cb);
          outcome_str = (if success then ''success'' else ''failure'')
      in publish_gauge_metrics (emit (CbOutcome outcome_str) cb1))"

definition time_since_last_failure :: "u64 \<Rightarrow> circuit_breaker \<Rightarrow> duration option" where
  "time_since_last_failure now cb =
     (let last_ms = last_failure_time_ms cb
      in if last_ms = 0 then None else Some (from_millis (saturating_sub now last_ms)))"

definition time_since_last_state_change :: "u64 \<Rightarrow> circuit_breaker \<Rightarrow> duration" where
  "time_since_last_state_change now cb = from_millis (saturating_sub now (last_state_change_ms cb))"

definition is_half_open :: "u64 \<Rightarrow> u64 \<Rightarrow> circuit_breaker \<Rightarrow> bool \<times> circuit_breaker" where
  "is_half_open now now' cb =
     (case check_and_update_state_returning now now' cb of (s, cb') \<Rightarrow> (s = HalfOpen, cb'))"

definition record_test_success ::
  "u64 \<Rightarrow> u64 \<Rightarrow> u64 \<Rightarrow> circuit_breaker \<Rightarrow> circuit_breaker" where
  "record_test_success t1 t2 t3 cb =
     (case is_half_open t1 t2 cb of (h, cb') \<Rightarrow> if h then record_success t3 cb' else cb')"

definition record_test_failure ::
  "u64 \<Rightarrow> u64 \<Rightarrow> u64 \<Rightarrow> u64 \<Rightarrow> circuit_breaker \<Rightarrow> circuit_breaker" where
  "record_test_failure t1 t2 t3 t4 cb =
     (case is_half_open t1 t2 cb of (h, cb') \<Rightarrow> if h then record_failure t3 t4 cb' else cb')"

definition cb_reset :: "u64 \<Rightarrow> circuit_breaker \<Rightarrow> circuit_breaker" where
  "cb_reset now cb =
     publish_gauge_metrics
       ((transition_to now Closed cb)\<lparr>consecutive_failures := 0, consecutive_successes := 0\<rparr>)"

definition force_open :: "u64 \<Rightarrow> circuit_breaker \<Rightarrow> circuit_breaker" where
  "force_open now cb = transition_to now Open cb"

record circuit_breaker_stats =
  st_state :: circuit_state
  st_consecutive_failures :: u32
  st_consecutive_successes :: u32
  st_total_failures :: u64
  st_total_successes :: u64
  st_time_since_last_failure :: "duration option"
  st_time_since_last_state_change :: duration

definition stats ::
  "u64 \<Rightarrow> u64 \<Rightarrow> u64 \<Rightarrow> u64 \<Rightarrow> circuit_breaker \<Rightarrow> circuit_breaker_stats \<times> circuit_breaker" where
  "stats t1 t2 t3 t4 cb =
     (case check_and_update_state_returning t1 t2 cb of (s, cb') \<Rightarrow>
       (\<lparr>st_state = s, st_consecutive_failures = consecutive_failures cb',
         st_consecutive_successes = consecutive_successes cb',
         st_total_failures = total_failures cb', st_total_successes = total_successes cb',
         st_time_since_last_failure = time_since_last_failure t3 cb',
         st_time_since_last_state_change = time_since_last_state_change t4 cb'\<rparr>, cb'))"

section \<open>The public interface as events\<close>

datatype cb_event =
    CanExecute u64 u64
  | RecordOutcome u64 u64 bool
  | RecordSuccess u64
  | RecordFailure u64 u64
  | TestSuccess u64 u64 u64
  | TestFailure u64 u64 u64 u64
  | Reset u64
  | ForceOpen u64
  | Stats u64 u64 u64 u64

fun cb_step :: "circuit_breaker \<Rightarrow> cb_event \<Rightarrow> circuit_breaker" where
  "cb_step cb (CanExecute t t') = snd (can_execute t t' cb)"
| "cb_step cb (RecordOutcome t t' b) = cb_record_outcome t t' b cb"
| "cb_step cb (RecordSuccess t) = record_success t cb"
| "cb_step cb (RecordFailure t t') = record_failure t t' cb"
| "cb_step cb (TestSuccess t1 t2 t3) = record_test_success t1 t2 t3 cb"
| "cb_step cb (TestFailure t1 t2 t3 t4) = record_test_failure t1 t2 t3 t4 cb"
| "cb_step cb (Reset t) = cb_reset t cb"
| "cb_step cb (ForceOpen t) = force_open t cb"
| "cb_step cb (Stats t1 t2 t3 t4) = snd (stats t1 t2 t3 t4 cb)"

section \<open>Specification\<close>

text \<open>
  Closed knows the length of the current run of failures, open the time it was entered,
  half-open the length of the current run of successes.
\<close>

datatype breaker_spec = SClosed nat | SOpen u64 | SHalfOpen nat

fun spec_poll :: "circuit_breaker_config \<Rightarrow> u64 \<Rightarrow> breaker_spec \<Rightarrow> breaker_spec" where
  "spec_poll cfg now (SOpen since) =
     (if unat (as_millis_u64 (timeout_duration cfg)) \<le> unat now - unat since
      then SHalfOpen 0 else SOpen since)"
| "spec_poll cfg now s = s"

fun spec_success :: "circuit_breaker_config \<Rightarrow> breaker_spec \<Rightarrow> breaker_spec" where
  "spec_success cfg (SClosed _) = SClosed 0"
| "spec_success cfg (SOpen since) = SOpen since"
| "spec_success cfg (SHalfOpen n) =
     (if unat (success_threshold cfg) \<le> Suc n then SClosed 0 else SHalfOpen (Suc n))"

fun spec_failure :: "circuit_breaker_config \<Rightarrow> u64 \<Rightarrow> breaker_spec \<Rightarrow> breaker_spec" where
  "spec_failure cfg now (SClosed n) =
     (if unat (failure_threshold cfg) \<le> Suc n then SOpen now else SClosed (Suc n))"
| "spec_failure cfg now (SOpen since) = SOpen since"
| "spec_failure cfg now (SHalfOpen n) = SOpen now"

fun spec_is_half_open :: "breaker_spec \<Rightarrow> bool" where
  "spec_is_half_open (SHalfOpen _) = True"
| "spec_is_half_open _ = False"

fun spec_force_open :: "u64 \<Rightarrow> breaker_spec \<Rightarrow> breaker_spec" where
  "spec_force_open now (SOpen since) = SOpen since"
| "spec_force_open now _ = SOpen now"

fun spec_step :: "circuit_breaker_config \<Rightarrow> breaker_spec \<Rightarrow> cb_event \<Rightarrow> breaker_spec" where
  "spec_step cfg s (CanExecute t t') = spec_poll cfg t s"
| "spec_step cfg s (RecordOutcome t t' b) =
     (if b then spec_success cfg s else spec_failure cfg t' s)"
| "spec_step cfg s (RecordSuccess t) = spec_success cfg s"
| "spec_step cfg s (RecordFailure t t') = spec_failure cfg t' s"
| "spec_step cfg s (TestSuccess t1 t2 t3) =
     (let s' = spec_poll cfg t1 s in if spec_is_half_open s' then spec_success cfg s' else s')"
| "spec_step cfg s (TestFailure t1 t2 t3 t4) =
     (let s' = spec_poll cfg t1 s in if spec_is_half_open s' then spec_failure cfg t4 s' else s')"
| "spec_step cfg s (Reset t) = SClosed 0"
| "spec_step cfg s (ForceOpen t) = spec_force_open t s"
| "spec_step cfg s (Stats t1 t2 t3 t4) = spec_poll cfg t1 s"

definition breaker_abs :: "circuit_breaker \<Rightarrow> breaker_spec" where
  "breaker_abs cb =
     (case from_int (cb_state cb) of
        Closed \<Rightarrow> SClosed (unat (consecutive_failures cb))
      | Open \<Rightarrow> SOpen (last_state_change_ms cb)
      | HalfOpen \<Rightarrow> SHalfOpen (unat (consecutive_successes cb)))"

text \<open>
  What the operations keep: the stored state is one of the three constants; while closed the
  run of failures is shorter than the threshold, while half-open the run of successes is.
  The counters that matter in a state therefore never wrap in it.
\<close>

definition breaker_inv :: "circuit_breaker \<Rightarrow> bool" where
  "breaker_inv cb \<longleftrightarrow>
     cb_state cb \<in> {STATE_CLOSED, STATE_OPEN, STATE_HALF_OPEN} \<and>
     (from_int (cb_state cb) = Closed \<longrightarrow>
        unat (consecutive_failures cb) < max 1 (unat (failure_threshold (cb_config cb)))) \<and>
     (from_int (cb_state cb) = HalfOpen \<longrightarrow>
        unat (consecutive_successes cb) < max 1 (unat (success_threshold (cb_config cb))))"

text \<open>Looking at the state polls the clock; the configuration never changes.\<close>

definition cb_poll :: "u64 \<Rightarrow> u64 \<Rightarrow> circuit_breaker \<Rightarrow> circuit_breaker" where
  "cb_poll now now' cb = snd (check_and_update_state_returning now now' cb)"

definition breaker_abs_cfg :: "circuit_breaker \<Rightarrow> circuit_breaker_config \<times> breaker_spec" where
  "breaker_abs_cfg cb = (cb_config cb, breaker_abs cb)"

fun spec_step_cfg ::
  "circuit_breaker_config \<times> breaker_spec \<Rightarrow> cb_event \<Rightarrow> circuit_breaker_config \<times> breaker_spec" where
  "spec_step_cfg (cfg, s) e = (cfg, spec_step cfg s e)"

text \<open>The answers to calls of \<open>can_execute\<close> in a row, each with its clock readings.\<close>

fun admissions :: "circuit_breaker \<Rightarrow> (u64 \<times> u64) list \<Rightarrow> bool list" where
  "admissions cb [] = []"
| "admissions cb ((t, t') # ts) = fst (can_execute t t' cb) # admissions (snd (can_execute t t' cb)) ts"

text \<open>What a dashboard shows: the newest value written to the state gauge.\<close>

fun newest_cb_state :: "cb_metric list \<Rightarrow> u8 option" where
  "newest_cb_state [] = None"
| "newest_cb_state (SetCbState s # ms) = Some s"
| "newest_cb_state (_ # ms) = newest_cb_state ms"

definition metrics_inv :: "circuit_breaker \<Rightarrow> bool" where
  "metrics_inv cb \<longleftrightarrow> breaker_inv cb \<and> newest_cb_state (cb_metrics cb) = Some (cb_state cb)"

section \<open>Lemmas\<close>

lemma from_int_as_int [simp]: "from_int (as_int s) = s"
  by (cases s) (simp_all add: from_int_def state_consts)

lemma from_int_consts [simp]:
  "from_int STATE_CLOSED = Closed" "from_int STATE_OPEN = Open"
  "from_int STATE_HALF_OPEN = HalfOpen"
  by (simp_all add: from_int_def state_consts)

lemma as_int_valid [simp]: "as_int s \<in> {STATE_CLOSED, STATE_OPEN, STATE_HALF_OPEN}"
  by (cases s) simp_all

text \<open>The metrics sink is write-only: nothing but the log changes.\<close>

lemma emit_fields [simp]:
  "cb_state (emit m cb) = cb_state cb"
  "consecutive_failures (emit m cb) = consecutive_failures cb"
  "consecutive_successes (emit m cb) = consecutive_successes cb"
  "total_failures (emit m cb) = total_failures cb"
  "total_successes (emit m cb) = total_successes cb"
  "last_failure_time_ms (emit m cb) = last_failure_time_ms cb"
  "last_state_change_ms (emit m cb) = last_state_change_ms cb"
  "cb_config (emit m cb) = cb_config cb"
  "cb_metrics (emit m cb) = m # cb_metrics cb"
  by (simp_all add: emit_def)

lemma publish_fields [simp]:
  "cb_state (publish_gauge_metrics cb) = cb_state cb"
  "consecutive_failures (publish_gauge_metrics cb) = consecutive_failures cb"
  "consecutive_successes (publish_gauge_metrics cb) = consecutive_successes cb"
  "total_failures (publish_gauge_metrics cb) = total_failures cb"
  "total_successes (publish_gauge_metrics cb) = total_successes cb"
  "last_failure_time_ms (publish_gauge_metrics cb) = last_failure_time_ms cb"
  "last_state_change_ms (publish_gauge_metrics cb) = last_state_change_ms cb"
  "cb_config (publish_gauge_metrics cb) = cb_config cb"
  "cb_metrics (publish_gauge_metrics cb) =
     GaugeSuccesses (consecutive_successes cb) # GaugeFailures (consecutive_failures cb)
       # cb_metrics cb"
  by (simp_all add: publish_gauge_metrics_def)

lemma transition_to_config [simp]: "cb_config (transition_to now s cb) = cb_config cb"
  by (cases s) (simp_all add: transition_to_def Let_def)

lemma transition_to_state [simp]: "cb_state (transition_to now s cb) = as_int s"
  by (cases s) (simp_all add: transition_to_def Let_def)

lemma transition_to_fields [simp]:
  "last_state_change_ms (transition_to now s cb) =
     (if from_int (cb_state cb) = s then last_state_change_ms cb else now)"
  "consecutive_failures (transition_to now s cb) =
     (if from_int (cb_state cb) = s \<or> s = Open then consecutive_failures cb else 0)"
  "consecutive_successes (transition_to now s cb) =
     (if from_int (cb_state cb) = s then consecutive_successes cb else 0)"
  "total_failures (transition_to now s cb) = total_failures cb"
  "total_successes (transition_to now s cb) = total_successes cb"
  "last_failure_time_ms (transition_to now s cb) = last_failure_time_ms cb"
  by (cases s; simp add: transition_to_def Let_def)+

lemma transition_to_abs:
  "from_int (cb_state cb) \<noteq> s \<Longrightarrow>
     breaker_abs (transition_to now s cb) =
       (case s of Closed \<Rightarrow> SClosed 0 | Open \<Rightarrow> SOpen now | HalfOpen \<Rightarrow> SHalfOpen 0)"
  by (cases s) (simp_all add: breaker_abs_def)

lemma transition_to_inv:
  "from_int (cb_state cb) \<noteq> s \<Longrightarrow> breaker_inv (transition_to now s cb)"
  by (cases s) (simp_all add: breaker_inv_def)

lemma record_success_spec:
  assumes "breaker_inv cb"
  shows "breaker_inv (record_success now cb)"
    and "breaker_abs (record_success now cb) = spec_success (cb_config cb) (breaker_abs cb)"
    and "cb_config (record_success now cb) = cb_config cb"
proof -
  have half: "from_int (cb_state cb) = HalfOpen \<Longrightarrow>
      unat (consecutive_successes cb + 1) = Suc (unat (consecutive_successes cb))"
    using assms by (intro Suc_no_wrap_below) (auto simp: breaker_inv_def)
  show "breaker_inv (record_success now cb)"
    using assms half
    by (auto simp: record_success_def Let_def breaker_inv_def word_le_nat_alt
        split: circuit_state.splits)
  show "breaker_abs (record_success now cb) = spec_success (cb_config cb) (breaker_abs cb)"
    using assms half
    by (cases "from_int (cb_state cb)")
       (auto simp: record_success_def Let_def transition_to_abs word_le_nat_alt breaker_abs_def)
  show "cb_config (record_success now cb) = cb_config cb"
    by (auto simp: record_success_def Let_def split: circuit_state.splits)
qed

lemma record_failure_spec:
  assumes "breaker_inv cb"
  shows "breaker_inv (record_failure now now' cb)"
    and "breaker_abs (record_failure now now' cb) = spec_failure (cb_config cb) now' (breaker_abs cb)"
    and "cb_config (record_failure now now' cb) = cb_config cb"
proof -
  have closed: "from_int (cb_state cb) = Closed \<Longrightarrow>
      unat (consecutive_failures cb + 1) = Suc (unat (consecutive_failures cb))"
    using assms by (intro Suc_no_wrap_below) (auto simp: breaker_inv_def)
  show "breaker_inv (record_failure now now' cb)"
    using assms closed
    by (auto simp: record_failure_def Let_def breaker_inv_def word_le_nat_alt
        split: circuit_state.splits)
  show "breaker_abs (record_failure now now' cb) = spec_failure (cb_config cb) now' (breaker_abs cb)"
    using assms closed
    by (cases "from_int (cb_state cb)")
       (auto simp: record_failure_def Let_def transition_to_abs word_le_nat_alt breaker_abs_def)
  show "cb_config (record_failure now now' cb) = cb_config cb"
    by (auto simp: record_failure_def Let_def split: circuit_state.splits)
qed

lemma check_and_update_spec:
  assumes "breaker_inv cb" "check_and_update_state_returning now now' cb = (s, cb')"
  shows "breaker_inv cb'" and "breaker_abs cb' = spec_poll (cb_config cb) now (breaker_abs cb)"
    and "cb_config cb' = cb_config cb" and "s = from_int (cb_state cb')"
  using assms
  by (auto simp: check_and_update_state_returning_def Let_def breaker_inv_def breaker_abs_def
      word_le_nat_alt unat_saturating_sub split: if_splits circuit_state.splits)


lemma publish_emit_abs [simp]:
  "breaker_abs (publish_gauge_metrics cb) = breaker_abs cb"
  "breaker_abs (emit m cb) = breaker_abs cb"
  "breaker_inv (publish_gauge_metrics cb) = breaker_inv cb"
  "breaker_inv (emit m cb) = breaker_inv cb"
  by (simp_all add: breaker_abs_def breaker_inv_def split: circuit_state.split)

lemma spec_is_half_open_abs [simp]:
  "spec_is_half_open (breaker_abs cb) \<longleftrightarrow> from_int (cb_state cb) = HalfOpen"
  by (simp add: breaker_abs_def split: circuit_state.splits)

lemma cb_reset_spec:
  assumes "breaker_inv cb"
  shows "breaker_inv (cb_reset now cb)" and "breaker_abs (cb_reset now cb) = SClosed 0"
    and "cb_config (cb_reset now cb) = cb_config cb"
  by (simp_all add: cb_reset_def breaker_inv_def breaker_abs_def)

lemma force_open_spec:
  assumes "breaker_inv cb"
  shows "breaker_inv (force_open now cb)"
    and "breaker_abs (force_open now cb) = spec_force_open now (breaker_abs cb)"
    and "cb_config (force_open now cb) = cb_config cb"
  using assms
  by (simp_all add: force_open_def breaker_inv_def breaker_abs_def split: circuit_state.splits)

lemma check_and_update_cb_poll:
  "check_and_update_state_returning now now' cb = (from_int (cb_state (cb_poll now now' cb)), cb_poll now now' cb)"
  by (auto simp: cb_poll_def check_and_update_state_returning_def Let_def)

lemma cb_poll_spec:
  assumes "breaker_inv cb"
  shows "breaker_inv (cb_poll now now' cb)"
    and "breaker_abs (cb_poll now now' cb) = spec_poll (cb_config cb) now (breaker_abs cb)"
    and "cb_config (cb_poll now now' cb) = cb_config cb"
  using check_and_update_spec [OF assms check_and_update_cb_poll] by blast+

lemma spec_poll_half_open:
  assumes "breaker_inv cb"
  shows "from_int (cb_state (cb_poll now now' cb)) = HalfOpen \<longleftrightarrow>
    spec_is_half_open (spec_poll (cb_config cb) now (breaker_abs cb))"
  using cb_poll_spec(2) [OF assms, of now now'] spec_is_half_open_abs by metis

lemma cb_step_spec:
  assumes "breaker_inv cb"
  shows "breaker_inv (cb_step cb e)"
    and "breaker_abs (cb_step cb e) = spec_step (cb_config cb) (breaker_abs cb) e"
    and "cb_config (cb_step cb e) = cb_config cb"
proof -
  note specs = record_success_spec record_failure_spec cb_reset_spec force_open_spec cb_poll_spec
  have "breaker_inv (cb_step cb e) \<and>
     breaker_abs (cb_step cb e) = spec_step (cb_config cb) (breaker_abs cb) e \<and>
     cb_config (cb_step cb e) = cb_config cb"
    using assms
    by (cases e)
       (auto simp: specs can_execute_def cb_record_outcome_def stats_def is_half_open_def
          record_test_success_def record_test_failure_def check_and_update_cb_poll
          spec_poll_half_open Let_def
        split: circuit_state.split)
  then show "breaker_inv (cb_step cb e)"
    and "breaker_abs (cb_step cb e) = spec_step (cb_config cb) (breaker_abs cb) e"
    and "cb_config (cb_step cb e) = cb_config cb"
    by auto
qed


interpretation breaker: refinement_system cb_step breaker_inv spec_step_cfg breaker_abs_cfg
  by unfold_locales (simp_all add: cb_step_spec breaker_abs_cfg_def)

lemma spec_run_cfg: "foldl spec_step_cfg (cfg, s) es = (cfg, foldl (spec_step cfg) s es)"
  by (induction es arbitrary: s) simp_all

lemma new_breaker_inv [simp]: "breaker_inv (with_config_and_label now cfg label)"
  by (simp add: with_config_and_label_def breaker_inv_def)

lemma new_breaker_abs [simp]: "breaker_abs (with_config_and_label now cfg label) = SClosed 0"
  "cb_config (with_config_and_label now cfg label) = cfg"
  by (simp_all add: with_config_and_label_def breaker_abs_def)

lemma breaker_run:
  fixes now cfg label es
  defines "cb \<equiv> foldl cb_step (with_config_and_label now cfg label) es"
  shows "breaker_inv cb" and "cb_config cb = cfg" and "breaker_abs cb = foldl (spec_step cfg) (SClosed 0) es"
proof -
  let ?n = "with_config_and_label now cfg label"
  show "breaker_inv cb" unfolding cb_def by (rule breaker.inv_run) simp
  have "breaker_abs_cfg cb = foldl spec_step_cfg (breaker_abs_cfg ?n) es"
    unfolding cb_def by (rule breaker.abs_run) simp
  then show "cb_config cb = cfg" and "breaker_abs cb = foldl (spec_step cfg) (SClosed 0) es"
    by (simp_all add: breaker_abs_cfg_def spec_run_cfg)
qed

lemma can_execute_cb_poll:
  "can_execute now now' cb = (from_int (cb_state (cb_poll now now' cb)) \<noteq> Open, cb_poll now now' cb)"
  by (simp add: can_execute_def check_and_update_cb_poll split: circuit_state.split)

lemma breaker_abs_open: "from_int (cb_state cb) = Open \<longleftrightarrow> (\<exists>since. breaker_abs cb = SOpen since)"
  by (simp add: breaker_abs_def split: circuit_state.split)

lemma half_open_admits:
  "breaker_inv cb \<Longrightarrow> breaker_abs cb = SHalfOpen n \<Longrightarrow> admissions cb ts = replicate (length ts) True"
proof (induction ts arbitrary: cb)
  case (Cons p ts)
  obtain t t' where p: "p = (t, t')" by (cases p)
  from cb_poll_spec [OF Cons.prems(1), of t t'] Cons.prems(2)
  have "breaker_inv (cb_poll t t' cb)" "breaker_abs (cb_poll t t' cb) = SHalfOpen n" by simp_all
  with Cons.IH [OF this] show ?case by (simp add: p can_execute_cb_poll breaker_abs_open)
qed simp

lemma spec_failures_open:
  "foldl (spec_step cfg) (SOpen since) (map (\<lambda>(t, t'). RecordOutcome t t' False) ts) = SOpen since"
  by (induction ts) auto

lemma spec_failures_run:
  "n < max 1 (unat (failure_threshold cfg)) \<Longrightarrow>
   foldl (spec_step cfg) (SClosed n) (map (\<lambda>(t, t'). RecordOutcome t t' False) ts) =
     (if n + length ts < max 1 (unat (failure_threshold cfg)) then SClosed (n + length ts)
      else SOpen (snd (ts ! (max 1 (unat (failure_threshold cfg)) - Suc n))))"
proof (induction ts arbitrary: n)
  case (Cons p ts)
  obtain t t' where p: "p = (t, t')" by (cases p)
  show ?case
  proof (cases "Suc n < max 1 (unat (failure_threshold cfg))")
    case True
    from Cons.IH [OF this] True show ?thesis by (auto simp: p nth_Cons' not_le)
  next
    case False
    with Cons.prems have "max 1 (unat (failure_threshold cfg)) - Suc n = 0" by simp
    with False Cons.prems show ?thesis by (auto simp: p spec_failures_open)
  qed
qed simp

lemma spec_successes_run:
  "n < max 1 (unat (success_threshold cfg)) \<Longrightarrow>
   foldl (spec_step cfg) (SHalfOpen n) (map (\<lambda>(t, t'). RecordOutcome t t' True) ts) =
     (if n + length ts < max 1 (unat (success_threshold cfg)) then SHalfOpen (n + length ts)
      else SClosed 0)"
proof (induction ts arbitrary: n)
  case (Cons p ts)
  obtain t t' where p: "p = (t, t')" by (cases p)
  have closed: "foldl (spec_step cfg) (SClosed 0) (map (\<lambda>(t, t'). RecordOutcome t t' True) ts) = SClosed 0"
    by (induction ts) auto
  from Cons.IH [of "Suc n"] Cons.prems closed show ?case by (auto simp: p)
qed simp

lemma newest_transition_to:
  assumes "cb_state cb \<in> {STATE_CLOSED, STATE_OPEN, STATE_HALF_OPEN}" "newest_cb_state (cb_metrics cb) = Some (cb_state cb)"
  shows "newest_cb_state (cb_metrics (transition_to now s cb)) = Some (as_int s)"
proof -
  have "as_int (from_int (cb_state cb)) = cb_state cb"
    using assms by auto
  then show ?thesis using assms
    by (auto simp: transition_to_def Let_def split: circuit_state.split)
qed

lemma cb_step_metrics: "metrics_inv cb \<Longrightarrow> metrics_inv (cb_step cb e)"
  using cb_step_spec(1) [of cb e]
  by (cases e)
     (auto simp: metrics_inv_def breaker_inv_def newest_transition_to record_success_def
       record_failure_def cb_reset_def force_open_def cb_record_outcome_def can_execute_def
       stats_def is_half_open_def Let_def record_test_success_def record_test_failure_def
       check_and_update_state_returning_def
      split: circuit_state.splits if_splits prod.splits)

interpretation breaker_metrics: invariant_system cb_step metrics_inv
  by unfold_locales (rule cb_step_metrics)

section \<open>Properties\<close>

text \<open>
  C1: the breaker implements the three-state machine. For every configuration and every
  sequence of calls, with any clock readings, the state, the relevant run length and the time
  of opening are those of the specification; wrap-around of the 32-bit counters never shows.
\<close>

theorem breaker_refines_spec:
  "breaker_abs (foldl cb_step (with_config_and_label now cfg label) es) =
     foldl (spec_step cfg) (SClosed 0) es"
  by (rule breaker_run)

text \<open>
  a request is refused exactly while the circuit is open and its timeout has not
  elapsed, whatever was called before.
\<close>

theorem breaker_rejects_iff:
  "\<not> fst (can_execute t t' (foldl cb_step (with_config_and_label now cfg label) es)) \<longleftrightarrow>
     (\<exists>since. foldl (spec_step cfg) (SClosed 0) es = SOpen since \<and>
        unat t - unat since < unat (as_millis_u64 (timeout_duration cfg)))"
proof -
  let ?cb = "foldl cb_step (with_config_and_label now cfg label) es"
  note run = breaker_run [of now cfg label es]
  have "breaker_abs (cb_poll t t' ?cb) = spec_poll cfg t (foldl (spec_step cfg) (SClosed 0) es)"
    using cb_poll_spec(2) [OF run(1)] run by simp
  then show ?thesis
    by (cases "foldl (spec_step cfg) (SClosed 0) es")
       (auto simp: can_execute_cb_poll breaker_abs_open)
qed

text \<open>
  C14: a half-open circuit limits nothing. Once an open circuit has waited for its timeout, every request
  is let through, the first one and any number of others after it, for any clock readings, until
  an outcome is recorded. The comment on \<open>HalfOpen\<close> says \<open>limited requests allowed\<close>, and the documentation of
  circuit breakers says that only a limited number of test requests is sent.
\<close>

theorem half_open_unlimited:
  assumes "foldl (spec_step cfg) (SClosed 0) es = SOpen since"
    and "unat (as_millis_u64 (timeout_duration cfg)) \<le> unat t - unat since"
  shows "admissions (foldl cb_step (with_config_and_label now cfg label) es) ((t, t') # ts) =
    replicate (Suc (length ts)) True"
proof -
  let ?cb = "foldl cb_step (with_config_and_label now cfg label) es"
  note run = breaker_run [of now cfg label es]
  have "breaker_abs (cb_poll t t' ?cb) = SHalfOpen 0" "breaker_inv (cb_poll t t' ?cb)"
    using cb_poll_spec [OF run(1), of t t'] run assms by simp_all
  with half_open_admits [OF this(2,1)] show ?thesis by (simp add: can_execute_cb_poll breaker_abs_open)
qed

theorem half_open_unlimited_witness:
  "admissions (foldl cb_step (with_config_and_label 0 default_circuit_breaker_config ''w'') [ForceOpen 1000])
     ((31000, 31000) # replicate 100 (31001, 31001)) = replicate (Suc 100) True"
proof -
  have open_since:
    "foldl (spec_step default_circuit_breaker_config) (SClosed 0) [ForceOpen 1000] = SOpen 1000"
    by simp
  have elapsed: "unat (as_millis_u64 (timeout_duration default_circuit_breaker_config))
      \<le> unat (31000 :: u64) - unat (1000 :: u64)"
    by (simp add: default_circuit_breaker_config_def as_millis_u64_def as_millis_def from_secs_def)
  show ?thesis
    using half_open_unlimited [OF open_since elapsed, of 0 "''w''" 31000 "replicate 100 (31001, 31001)"]
    by (simp only: length_replicate)
qed

text \<open>
  a run of failures opens a fresh circuit at the failure threshold and not before;
  a threshold of zero behaves as one.
\<close>

theorem breaker_opens_at_threshold:
  "from_int (cb_state
     (foldl cb_step (with_config_and_label now cfg label)
        (map (\<lambda>(t, t'). RecordOutcome t t' False) ts))) =
     (if length ts < max 1 (unat (failure_threshold cfg)) then Closed else Open)"
proof -
  let ?cb = "foldl cb_step (with_config_and_label now cfg label)
        (map (\<lambda>(t, t'). RecordOutcome t t' False) ts)"
  have "breaker_abs ?cb = (if length ts < max 1 (unat (failure_threshold cfg)) then SClosed (length ts)
      else SOpen (snd (ts ! (max 1 (unat (failure_threshold cfg)) - Suc 0))))"
    using spec_failures_run [of 0 cfg ts] by (simp add: breaker_run(3))
  then show ?thesis
    by (cases "from_int (cb_state ?cb)") (auto simp: breaker_abs_def split: if_splits)
qed

text \<open>
  once the timeout has elapsed the next look at the circuit makes it half-open, and it
  closes at the success threshold and not before.
\<close>

theorem breaker_recovers:
  assumes "foldl (spec_step cfg) (SClosed 0) es = SOpen since"
    and "unat (as_millis_u64 (timeout_duration cfg)) \<le> unat t - unat since"
  shows "from_int (cb_state
     (foldl cb_step (with_config_and_label now cfg label)
        (es @ CanExecute t t' # map (\<lambda>(t, t'). RecordOutcome t t' True) ts))) =
     (if length ts < max 1 (unat (success_threshold cfg)) then HalfOpen else Closed)"
proof -
  let ?cb = "foldl cb_step (with_config_and_label now cfg label)
        (es @ CanExecute t t' # map (\<lambda>(t, t'). RecordOutcome t t' True) ts)"
  have "breaker_abs ?cb =
      (if length ts < max 1 (unat (success_threshold cfg)) then SHalfOpen (length ts) else SClosed 0)"
    unfolding breaker_run(3) using assms spec_successes_run [of 0 cfg ts] by simp
  then show ?thesis
    by (cases "from_int (cb_state ?cb)") (auto simp: breaker_abs_def split: if_splits)
qed

theorem breaker_recovers_witness:
  "from_int (cb_state
     (foldl cb_step (with_config_and_label 0 default_circuit_breaker_config ''w'')
        ([ForceOpen 1000] @ CanExecute 31000 31000 #
           map (\<lambda>(t, t'). RecordOutcome t t' True) [(31001, 31001), (31002, 31002)]))) = Closed"
proof -
  have open_since:
    "foldl (spec_step default_circuit_breaker_config) (SClosed 0) [ForceOpen 1000] = SOpen 1000"
    by simp
  have elapsed: "unat (as_millis_u64 (timeout_duration default_circuit_breaker_config))
      \<le> unat (31000 :: u64) - unat (1000 :: u64)"
    by (simp add: default_circuit_breaker_config_def as_millis_u64_def as_millis_def from_secs_def)
  show ?thesis
    using breaker_recovers [OF open_since elapsed, of 0 "''w''" 31000
        "[(31001, 31001), (31002, 31002)]"]
    by (simp add: default_circuit_breaker_config_def)
qed

text \<open>
  the state gauge never lags: after every sequence of calls the newest value written to
  it is the state stored in the breaker.
\<close>

theorem breaker_state_gauge:
  "newest_cb_state (cb_metrics (foldl cb_step (with_config_and_label now cfg label) es)) =
     Some (cb_state (foldl cb_step (with_config_and_label now cfg label) es))"
proof -
  have "metrics_inv (with_config_and_label now cfg label)"
    by (simp add: metrics_inv_def with_config_and_label_def breaker_inv_def)
  from breaker_metrics.inv_run [OF this] show ?thesis by (simp add: metrics_inv_def)
qed

end
