(* ===== verification/BreakerInterleaving.thy ===== *)
theory BreakerInterleaving
  imports CircuitBreaker
begin

text \<open>
  The circuit breaker under concurrency. Every atomic access of
  \<open>model_gateway/src/worker/circuit_breaker.rs\<close> is one step; threads interleave freely and
  each step may read any clock value. Metrics calls are left out, as they do not touch the
  breaker's atomics. Run alone, an operation does what its sequential definition says; in any
  interleaving at most one thread performs the transition to half-open per opening; the
  operations as a whole are not linearizable.
\<close>

section \<open>Model\<close>

text \<open>
  Where a thread stands: one constructor per atomic load, store, \<open>fetch_add\<close>,
  \<open>compare_exchange\<close> or \<open>swap\<close> of the source, carrying the values the thread holds in
  local variables. \<open>P\<close> is \<open>check_and_update_state_returning\<close>, \<open>S\<close> is
  \<open>record_success\<close>, \<open>F\<close> is \<open>record_failure\<close>, \<open>Swap\<close> and \<open>T\<close> are
  \<open>transition_to\<close> and \<open>R\<close> is what \<open>reset\<close> does after it. The flag records whether the
  transition was called from \<open>reset\<close>.
\<close>

datatype cb_pc =
    Idle
  | PLoad | PElapsed | PCas | PStoreChange | PStoreFailures | PStoreSuccesses | PReload
  | PReturn circuit_state
  | STotal | SClearFailures | SFetch | SLoad u32
  | FTotal | FClearSuccesses | FFetch | FStoreTime u32 | FLoad u32
  | Swap circuit_state bool
  | TStoreChange circuit_state bool
  | TStoreFailures circuit_state bool
  | TStoreSuccesses bool
  | RFailures | RSuccesses

fun after_transition :: "bool \<Rightarrow> cb_pc" where
  "after_transition resetting = (if resetting then RFailures else Idle)"

fun micro :: "u64 \<Rightarrow> cb_pc \<times> circuit_breaker \<Rightarrow> cb_pc \<times> circuit_breaker" where
  "micro now (Idle, cb) = (Idle, cb)"
| "micro now (PLoad, cb) =
     (if from_int (cb_state cb) = Open then PElapsed else PReturn (from_int (cb_state cb)), cb)"
| "micro now (PElapsed, cb) =
     (if as_millis_u64 (timeout_duration (cb_config cb)) \<le> saturating_sub now (last_state_change_ms cb)
      then PCas else PReturn Open, cb)"
| "micro now (PCas, cb) =
     (if cb_state cb = STATE_OPEN then (PStoreChange, cb\<lparr>cb_state := STATE_HALF_OPEN\<rparr>)
      else (PReload, cb))"
| "micro now (PStoreChange, cb) = (PStoreFailures, cb\<lparr>last_state_change_ms := now\<rparr>)"
| "micro now (PStoreFailures, cb) = (PStoreSuccesses, cb\<lparr>consecutive_failures := 0\<rparr>)"
| "micro now (PStoreSuccesses, cb) = (PReturn HalfOpen, cb\<lparr>consecutive_successes := 0\<rparr>)"
| "micro now (PReload, cb) = (PReturn (from_int (cb_state cb)), cb)"
| "micro now (PReturn s, cb) = (Idle, cb)"
| "micro now (STotal, cb) = (SClearFailures, cb\<lparr>total_successes := total_successes cb + 1\<rparr>)"
| "micro now (SClearFailures, cb) = (SFetch, cb\<lparr>consecutive_failures := 0\<rparr>)"
| "micro now (SFetch, cb) =
     (SLoad (consecutive_successes cb + 1),
      cb\<lparr>consecutive_successes := consecutive_successes cb + 1\<rparr>)"
| "micro now (SLoad successes, cb) =
     (case from_int (cb_state cb) of
        HalfOpen \<Rightarrow> if success_threshold (cb_config cb) \<le> successes then Swap Closed False else Idle
      | Closed \<Rightarrow> Idle
      | Open \<Rightarrow> Idle, cb)"
| "micro now (FTotal, cb) = (FClearSuccesses, cb\<lparr>total_failures := total_failures cb + 1\<rparr>)"
| "micro now (FClearSuccesses, cb) = (FFetch, cb\<lparr>consecutive_successes := 0\<rparr>)"
| "micro now (FFetch, cb) =
     (FStoreTime (consecutive_failures cb + 1),
      cb\<lparr>consecutive_failures := consecutive_failures cb + 1\<rparr>)"
| "micro now (FStoreTime failures, cb) = (FLoad failures, cb\<lparr>last_failure_time_ms := now\<rparr>)"
| "micro now (FLoad failures, cb) =
     (case from_int (cb_state cb) of
        Closed \<Rightarrow> if failure_threshold (cb_config cb) \<le> failures then Swap Open False else Idle
      | HalfOpen \<Rightarrow> Swap Open False
      | Open \<Rightarrow> Idle, cb)"
| "micro now (Swap s resetting, cb) =
     (if from_int (cb_state cb) \<noteq> s then TStoreChange s resetting else after_transition resetting,
      cb\<lparr>cb_state := as_int s\<rparr>)"
| "micro now (TStoreChange s resetting, cb) =
     (case s of
        Closed \<Rightarrow> TStoreFailures s resetting
      | Open \<Rightarrow> TStoreSuccesses resetting
      | HalfOpen \<Rightarrow> TStoreFailures s resetting, cb\<lparr>last_state_change_ms := now\<rparr>)"
| "micro now (TStoreFailures s resetting, cb) =
     (TStoreSuccesses resetting, cb\<lparr>consecutive_failures := 0\<rparr>)"
| "micro now (TStoreSuccesses resetting, cb) =
     (after_transition resetting, cb\<lparr>consecutive_successes := 0\<rparr>)"
| "micro now (RFailures, cb) = (RSuccesses, cb\<lparr>consecutive_failures := 0\<rparr>)"
| "micro now (RSuccesses, cb) = (Idle, cb\<lparr>consecutive_successes := 0\<rparr>)"

definition cb_entry :: "cb_pc \<Rightarrow> bool" where
  "cb_entry pc \<longleftrightarrow> pc \<in> {PLoad, STotal, FTotal, Swap Open False, Swap Closed True}"

text \<open>
  The shared breaker, one program counter per thread, and two ghost counters: how often the
  state became open and how often a thread won the compare-and-swap to half-open.
\<close>

record cb_sys =
  sys_cb :: circuit_breaker
  sys_pcs :: "nat \<Rightarrow> cb_pc"
  sys_opened :: nat
  sys_won :: nat

definition sys_init :: "circuit_breaker \<Rightarrow> cb_sys" where
  "sys_init cb = \<lparr>sys_cb = cb, sys_pcs = (\<lambda>_. Idle), sys_opened = 0, sys_won = 0\<rparr>"

definition sys_micro :: "nat \<Rightarrow> u64 \<Rightarrow> cb_sys \<Rightarrow> cb_sys" where
  "sys_micro i now s =
     (case micro now (sys_pcs s i, sys_cb s) of (pc, cb) \<Rightarrow>
        s\<lparr>sys_cb := cb, sys_pcs := (sys_pcs s)(i := pc),
          sys_opened := sys_opened s +
            (if from_int (cb_state (sys_cb s)) \<noteq> Open \<and> from_int (cb_state cb) = Open then 1 else 0),
          sys_won := sys_won s + (if sys_pcs s i = PCas \<and> pc = PStoreChange then 1 else 0)\<rparr>)"

inductive sys_step :: "cb_sys \<Rightarrow> cb_sys \<Rightarrow> bool" where
  sys_call: "sys_pcs s i = Idle \<Longrightarrow> cb_entry pc \<Longrightarrow>
     sys_step s (s\<lparr>sys_pcs := (sys_pcs s)(i := pc)\<rparr>)"
| sys_atomic: "sys_pcs s i \<noteq> Idle \<Longrightarrow> sys_step s (sys_micro i now s)"

inductive sys_reach :: "circuit_breaker_config \<Rightarrow> cb_sys \<Rightarrow> bool" for cfg where
  sys_start: "sys_reach cfg (sys_init (with_config_and_label now cfg label))"
| sys_next: "sys_reach cfg s \<Longrightarrow> sys_step s t \<Longrightarrow> sys_reach cfg t"

text \<open>Schedules make particular interleavings executable.\<close>

datatype sched = Call nat cb_pc | Step nat u64

fun sched_ok :: "cb_sys \<Rightarrow> sched \<Rightarrow> bool" where
  "sched_ok s (Call i pc) = (sys_pcs s i = Idle \<and> pc \<in> {PLoad, STotal, FTotal, Swap Open False, Swap Closed True})"
| "sched_ok s (Step i now) = (sys_pcs s i \<noteq> Idle)"

fun sched_do :: "cb_sys \<Rightarrow> sched \<Rightarrow> cb_sys" where
  "sched_do s (Call i pc) = s\<lparr>sys_pcs := (sys_pcs s)(i := pc)\<rparr>"
| "sched_do s (Step i now) = sys_micro i now s"

fun sched_run :: "cb_sys \<Rightarrow> sched list \<Rightarrow> cb_sys option" where
  "sched_run s [] = Some s"
| "sched_run s (a # as) = (if sched_ok s a then sched_run (sched_do s a) as else None)"

definition sys_inv :: "cb_sys \<Rightarrow> bool" where
  "sys_inv s \<longleftrightarrow>
     cb_state (sys_cb s) \<in> {STATE_CLOSED, STATE_OPEN, STATE_HALF_OPEN} \<and>
     sys_won s + (if cb_state (sys_cb s) = STATE_OPEN then 1 else 0) \<le> sys_opened s"

definition erase_metrics :: "circuit_breaker \<Rightarrow> circuit_breaker" where
  "erase_metrics cb = cb\<lparr>cb_metrics := []\<rparr>"

text \<open>
  One operation executed without interference: no operation has more than twelve atomic
  actions, and \<open>Idle\<close> is a fixed point.
\<close>

definition micro_complete :: "u64 \<Rightarrow> cb_pc \<Rightarrow> circuit_breaker \<Rightarrow> cb_pc \<times> circuit_breaker" where
  "micro_complete now pc cb = (micro now ^^ 12) (pc, cb)"

fun seq_op :: "u64 \<Rightarrow> cb_pc \<Rightarrow> circuit_breaker \<Rightarrow> circuit_breaker" where
  "seq_op now PLoad cb = cb_poll now now cb"
| "seq_op now STotal cb = record_success now cb"
| "seq_op now FTotal cb = record_failure now now cb"
| "seq_op now (Swap s resetting) cb = (if resetting then cb_reset now cb else force_open now cb)"
| "seq_op now _ cb = cb"

text \<open>
  A schedule in which one success and one failure are reported concurrently to a half-open
  circuit: the success has decided to close the circuit when the failure opens it.
\<close>

definition race_config :: circuit_breaker_config where
  "race_config = \<lparr>failure_threshold = 5, success_threshold = 1, timeout_duration = 0, window_duration = 0\<rparr>"

definition race_setup :: "sched list" where
  "race_setup =
     [Call 0 (Swap Open False), Step 0 1, Step 0 1, Step 0 1,
      Call 0 PLoad, Step 0 2, Step 0 2, Step 0 2, Step 0 2, Step 0 2, Step 0 2, Step 0 2]"

definition race_schedule :: "sched list" where
  "race_schedule =
     [Call 0 STotal, Step 0 3, Step 0 3, Step 0 3, Step 0 3,
      Call 1 FTotal, Step 1 4, Step 1 4, Step 1 4, Step 1 4, Step 1 4, Step 1 4, Step 1 4, Step 1 4,
      Step 0 5, Step 0 5, Step 0 5, Step 0 5]"

definition quiescent :: "cb_sys \<Rightarrow> bool" where
  "quiescent s \<longleftrightarrow> (\<forall>i. sys_pcs s i = Idle)"

section \<open>Lemmas\<close>

lemma sched_run_reach: "sys_reach cfg s \<Longrightarrow> sched_run s as = Some t \<Longrightarrow> sys_reach cfg t"
proof (induction as arbitrary: s)
  case (Cons a as)
  from Cons.prems(2) have ok: "sched_ok s a" by (simp split: if_splits)
  have "sys_step s (sched_do s a)"
    using ok by (cases a) (auto simp: cb_entry_def intro: sys_step.intros)
  with Cons.prems(1) have "sys_reach cfg (sched_do s a)" by (rule sys_next)
  then show ?case using Cons.IH Cons.prems(2) ok by simp
qed simp

lemma state_const_neq [simp]:
  "STATE_CLOSED \<noteq> STATE_OPEN" "STATE_OPEN \<noteq> STATE_CLOSED"
  "STATE_HALF_OPEN \<noteq> STATE_OPEN" "STATE_OPEN \<noteq> STATE_HALF_OPEN"
  "STATE_CLOSED \<noteq> STATE_HALF_OPEN" "STATE_HALF_OPEN \<noteq> STATE_CLOSED"
  by (simp_all add: state_consts)

lemma from_int_Open: "from_int v = Open \<longleftrightarrow> v = STATE_OPEN"
  by (simp add: from_int_def)

lemma sys_micro_inv:
  assumes "sys_inv s"
  shows "sys_inv (sys_micro i now s)"
proof (cases "\<exists>t r. sys_pcs s i = Swap t r")
  case True
  then obtain t r where "sys_pcs s i = Swap t r" by blast
  with assms show ?thesis
    by (cases t) (auto simp: sys_micro_def sys_inv_def from_int_Open)
next
  case False
  with assms show ?thesis
    by (cases "sys_pcs s i")
       (auto simp: sys_micro_def sys_inv_def from_int_Open split: circuit_state.splits if_splits)
qed

lemma sys_step_inv: "sys_step s t \<Longrightarrow> sys_inv s \<Longrightarrow> sys_inv t"
proof (induction rule: sys_step.induct)
  case (sys_call s i pc)
  then show ?case by (simp add: sys_inv_def)
next
  case (sys_atomic s i now)
  then show ?case by (intro sys_micro_inv)
qed

lemma sys_reach_inv: "sys_reach cfg s \<Longrightarrow> sys_inv s"
proof (induction rule: sys_reach.induct)
  case (sys_start now label)
  show ?case by (simp add: sys_inv_def sys_init_def with_config_and_label_def)
qed (rule sys_step_inv)

lemma funpow_12: "(f ^^ 12) p = f (f (f (f (f (f (f (f (f (f (f (f p)))))))))))"
  by (simp add: numeral_eq_Suc)

lemmas micro_unfold = micro_complete_def funpow_12 Let_def breaker_inv_def erase_metrics_def
  emit_def publish_gauge_metrics_def transition_to_def

lemmas race_eval = sys_init_def sys_micro_def with_config_and_label_def race_config_def
  as_millis_u64_def as_millis_def saturating_sub_def breaker_abs_def breaker_inv_def quiescent_def

lemma race_setup_run:
  "\<exists>s t. sched_run (sys_init (with_config_and_label 0 race_config ''w'')) race_setup = Some s \<and>
     quiescent s \<and> breaker_abs (sys_cb s) = SHalfOpen 0 \<and> breaker_inv (sys_cb s) \<and>
     cb_config (sys_cb s) = race_config \<and>
     sched_run s race_schedule = Some t \<and> quiescent t \<and> breaker_abs (sys_cb t) = SClosed 0"
  by (simp add: race_setup_def race_schedule_def race_eval)

section \<open>Properties\<close>

text \<open>
  executed without interference, the atomic actions of a look at the state, a recorded
  success, a recorded failure, a reset and a forced opening end after at most twelve steps and
  have the effect of the sequential definitions, metrics apart.
\<close>

theorem micro_sequential:
  assumes "cb_entry pc" "breaker_inv cb"
  shows "map_prod id erase_metrics (micro_complete now pc cb) = (Idle, erase_metrics (seq_op now pc cb))"
proof -
  consider "pc = PLoad" | "pc = STotal" | "pc = FTotal" | "pc = Swap Open False" | "pc = Swap Closed True"
    using assms(1) by (auto simp: cb_entry_def)
  then show ?thesis
  proof cases
    case 1
    with assms(2) show ?thesis
      by (auto simp: micro_unfold cb_poll_def check_and_update_state_returning_def split: circuit_state.splits)
  next
    case 2
    with assms(2) show ?thesis
      by (auto simp: micro_unfold record_success_def split: circuit_state.splits)
  next
    case 3
    with assms(2) show ?thesis
      by (auto simp: micro_unfold record_failure_def split: circuit_state.splits)
  next
    case 4
    with assms(2) show ?thesis
      by (auto simp: micro_unfold force_open_def split: circuit_state.splits)
  next
    case 5
    with assms(2) show ?thesis
      by (auto simp: micro_unfold cb_reset_def split: circuit_state.splits)
  qed
qed

theorem micro_sequential_witness:
  "map_prod id erase_metrics (micro_complete 7 FTotal (new_circuit_breaker 0)) =
     (Idle, erase_metrics (record_failure 7 7 (new_circuit_breaker 0)))"
  using micro_sequential [of FTotal "new_circuit_breaker 0" 7]
  by (simp add: cb_entry_def new_circuit_breaker_def)

text \<open>
  in every interleaving of any number of threads, the transition from open to half-open
  is performed by at most one thread per opening of the circuit.
\<close>

theorem half_open_winners:
  assumes "sys_reach cfg s"
  shows "sys_won s \<le> sys_opened s"
  using sys_reach_inv [OF assms] by (simp add: sys_inv_def)

theorem half_open_winners_witness:
  "\<exists>s. sched_run (sys_init (with_config_and_label 0 race_config ''w'')) race_setup = Some s \<and>
     sys_won s = 1 \<and> sys_won s \<le> sys_opened s"
proof -
  obtain s where run:
    "sched_run (sys_init (with_config_and_label 0 race_config ''w'')) race_setup = Some s"
    and "sys_won s = 1"
    by (simp add: race_setup_def race_eval)
  moreover have "sys_reach race_config s"
    using sys_reach.sys_start run by (rule sched_run_reach)
  ultimately show ?thesis using half_open_winners by blast
qed

text \<open>
  C13: reports are not linearizable, because \<open>transition_to\<close> swaps unconditionally on a
  decision taken from an older load. From a reachable half-open state, one success and one
  failure reported concurrently can leave the circuit closed with no failure counted, although
  failure then success leaves it open and success then failure leaves one failure counted.
\<close>

theorem breaker_not_linearizable:
  "\<exists>s t. sys_reach race_config s \<and> quiescent s \<and> breaker_abs (sys_cb s) = SHalfOpen 0 \<and>
     sched_run s race_schedule = Some t \<and> quiescent t \<and>
     breaker_abs (sys_cb t) = SClosed 0 \<and>
     breaker_abs (record_success 5 (record_failure 4 4 (sys_cb s))) = SOpen 4 \<and>
     breaker_abs (record_failure 4 4 (record_success 5 (sys_cb s))) = SClosed 1"
proof -
  obtain s t where run: "sched_run (sys_init (with_config_and_label 0 race_config ''w'')) race_setup = Some s"
    and s: "quiescent s" "breaker_abs (sys_cb s) = SHalfOpen 0" "breaker_inv (sys_cb s)"
      "cb_config (sys_cb s) = race_config"
    and t: "sched_run s race_schedule = Some t" "quiescent t" "breaker_abs (sys_cb t) = SClosed 0"
    using race_setup_run by blast
  have "sys_reach race_config s"
    using sys_reach.sys_start run by (rule sched_run_reach)
  moreover have "breaker_abs (record_success 5 (record_failure 4 4 (sys_cb s))) = SOpen 4"
    using s by (simp add: record_success_spec record_failure_spec)
  moreover have "breaker_abs (record_failure 4 4 (record_success 5 (sys_cb s))) = SClosed 1"
    using s by (simp add: record_success_spec record_failure_spec race_config_def)
  ultimately show ?thesis using s t by blast
qed

end
