(* ===== verification/TokenBucket.thy ===== *)
theory TokenBucket
  imports Prelude
begin

text \<open>
  The token bucket (\<open>model_gateway/src/middleware/token_bucket.rs\<close>). Tokens and rates are
  \<open>f64\<close> in the code; here they are rationals and every float operation is followed by the
  rounding function \<open>rnd\<close>. Instants are nanoseconds; each operation takes the clock reading
  it makes. The mutex makes every operation atomic, so an operation is a state transformer.
\<close>

section \<open>Model\<close>

record token_bucket =
  tokens :: rat
  last_refill :: nat
  capacity :: rat
  refill_rate :: rat

definition new_token_bucket :: "(rat \<Rightarrow> rat) \<Rightarrow> nat \<Rightarrow> usize \<Rightarrow> usize \<Rightarrow> token_bucket" where
  "new_token_bucket rnd now cap rate =
     (let capacity = rnd (of_nat (unat cap)); refill_rate = rnd (of_nat (unat rate))
      in \<lparr>tokens = capacity, last_refill = now, capacity = capacity, refill_rate = refill_rate\<rparr>)"

text \<open>\<open>Duration::as_secs_f64\<close>: whole seconds plus nanoseconds over a billion, each as \<open>f64\<close>.\<close>

definition as_secs_f64 :: "(rat \<Rightarrow> rat) \<Rightarrow> duration \<Rightarrow> rat" where
  "as_secs_f64 rnd d =
     rnd (rnd (of_nat (d div 1000000000)) + rnd (rnd (of_nat (d mod 1000000000)) / 1000000000))"

text \<open>
  The refill shared by \<open>try_acquire_sync\<close> and \<open>available_tokens\<close>; \<open>Instant::duration_since\<close>
  saturates at zero.
\<close>

definition refill :: "(rat \<Rightarrow> rat) \<Rightarrow> nat \<Rightarrow> token_bucket \<Rightarrow> token_bucket" where
  "refill rnd now b =
     (let elapsed = as_secs_f64 rnd (now - last_refill b);
          refill_amount = rnd (elapsed * refill_rate b)
      in b\<lparr>tokens := min (rnd (tokens b + refill_amount)) (capacity b), last_refill := now\<rparr>)"

definition try_acquire_sync :: "(rat \<Rightarrow> rat) \<Rightarrow> nat \<Rightarrow> rat \<Rightarrow> token_bucket \<Rightarrow> bool \<times> token_bucket" where
  "try_acquire_sync rnd now t b =
     (let b = refill rnd now b
      in if t \<le> tokens b then (True, b\<lparr>tokens := rnd (tokens b - t)\<rparr>) else (False, b))"

definition try_acquire :: "(rat \<Rightarrow> rat) \<Rightarrow> nat \<Rightarrow> rat \<Rightarrow> token_bucket \<Rightarrow> bool \<times> token_bucket" where
  "try_acquire rnd now t b = try_acquire_sync rnd now t b"

definition return_tokens_sync :: "(rat \<Rightarrow> rat) \<Rightarrow> rat \<Rightarrow> token_bucket \<Rightarrow> token_bucket" where
  "return_tokens_sync rnd t b = b\<lparr>tokens := min (rnd (tokens b + t)) (capacity b)\<rparr>"

definition return_tokens :: "(rat \<Rightarrow> rat) \<Rightarrow> rat \<Rightarrow> token_bucket \<Rightarrow> token_bucket" where
  "return_tokens rnd t b = return_tokens_sync rnd t b"

definition available_tokens :: "(rat \<Rightarrow> rat) \<Rightarrow> nat \<Rightarrow> token_bucket \<Rightarrow> rat \<times> token_bucket" where
  "available_tokens rnd now b = (let b = refill rnd now b in (tokens b, b))"

text \<open>
  \<open>Duration::from_secs_f64\<close> rounds to the nearest nanosecond, ties to even. The caller has
  already clamped its argument at zero.
\<close>

definition round_ties_even :: "rat \<Rightarrow> int" where
  "round_ties_even x =
     (let f = \<lfloor>x\<rfloor>; r = x - of_int f
      in if r < 1 / 2 then f else if r > 1 / 2 then f + 1 else if even f then f else f + 1)"

definition from_secs_f64 :: "rat \<Rightarrow> duration" where
  "from_secs_f64 s = nat (round_ties_even (s * 1000000000))"

text \<open>
  The entry of \<open>acquire\<close>: the immediate try; then, with a zero rate, an unbounded wait for
  notifications; otherwise a bounded wait for as long as the missing tokens need, which
  begins with another try.
\<close>

datatype acquire_wait = Acquired | WaitNotified | WaitUntil nat

definition acquire_wait_time :: "(rat \<Rightarrow> rat) \<Rightarrow> rat \<Rightarrow> token_bucket \<Rightarrow> duration" where
  "acquire_wait_time rnd t b =
     (let tokens_needed = rnd (t - tokens b);
          wait_secs = max (rnd (tokens_needed / refill_rate b)) 0
      in from_secs_f64 wait_secs)"

definition acquire_start ::
  "(rat \<Rightarrow> rat) \<Rightarrow> nat \<Rightarrow> nat \<Rightarrow> nat \<Rightarrow> rat \<Rightarrow> token_bucket \<Rightarrow> acquire_wait \<times> token_bucket" where
  "acquire_start rnd now wait_now now' t b =
     (case try_acquire rnd now t b of
        (True, b) \<Rightarrow> (Acquired, b)
      | (False, b) \<Rightarrow>
          if refill_rate b = 0 then (WaitNotified, b)
          else
            (let wait_time = acquire_wait_time rnd t b
             in case try_acquire rnd now' t b of
                  (True, b) \<Rightarrow> (Acquired, b)
                | (False, b) \<Rightarrow> (WaitUntil (wait_now + wait_time), b)))"

text \<open>The operations as events, for sequences of calls on one bucket.\<close>

datatype bucket_event =
    TryAcquire nat rat
  | ReturnTokens rat
  | AvailableTokens nat

fun bucket_step :: "(rat \<Rightarrow> rat) \<Rightarrow> token_bucket \<Rightarrow> bucket_event \<Rightarrow> token_bucket" where
  "bucket_step rnd b (TryAcquire now t) = snd (try_acquire rnd now t b)"
| "bucket_step rnd b (ReturnTokens t) = return_tokens rnd t b"
| "bucket_step rnd b (AvailableTokens now) = snd (available_tokens rnd now b)"

fun nonneg_event :: "bucket_event \<Rightarrow> bool" where
  "nonneg_event (TryAcquire now t) = (0 \<le> t)"
| "nonneg_event (ReturnTokens t) = (0 \<le> t)"
| "nonneg_event (AvailableTokens now) = True"

definition bucket_inv :: "token_bucket \<Rightarrow> bool" where
  "bucket_inv b \<longleftrightarrow> 0 \<le> tokens b \<and> tokens b \<le> capacity b \<and> 0 \<le> refill_rate b"

text \<open>The tokens that a sequence of calls is granted and that it gives back, and its clock readings.\<close>

fun grant :: "(rat \<Rightarrow> rat) \<Rightarrow> token_bucket \<Rightarrow> bucket_event \<Rightarrow> rat" where
  "grant rnd b (TryAcquire now t) = (if fst (try_acquire rnd now t b) then t else 0)"
| "grant rnd b (ReturnTokens t) = 0"
| "grant rnd b (AvailableTokens now) = 0"

fun granted :: "(rat \<Rightarrow> rat) \<Rightarrow> token_bucket \<Rightarrow> bucket_event list \<Rightarrow> rat" where
  "granted rnd b [] = 0"
| "granted rnd b (e # es) = grant rnd b e + granted rnd (bucket_step rnd b e) es"

fun given_back :: "bucket_event \<Rightarrow> rat" where
  "given_back (ReturnTokens t) = t"
| "given_back _ = 0"

definition returned :: "bucket_event list \<Rightarrow> rat" where
  "returned es = sum_list (map given_back es)"

fun readings :: "bucket_event \<Rightarrow> nat list" where
  "readings (TryAcquire now t) = [now]"
| "readings (ReturnTokens t) = []"
| "readings (AvailableTokens now) = [now]"

definition clock_readings :: "bucket_event list \<Rightarrow> nat list" where
  "clock_readings es = concat (map readings es)"

text \<open>The nanoseconds for which an event refills the bucket.\<close>

fun refill_time :: "token_bucket \<Rightarrow> bucket_event \<Rightarrow> nat" where
  "refill_time b (TryAcquire now t) = now - last_refill b"
| "refill_time b (ReturnTokens t) = 0"
| "refill_time b (AvailableTokens now) = now - last_refill b"

text \<open>
  The error of rounding: relative to the value, plus an absolute one for values near zero. For
  \<open>f64\<close>, \<open>u\<close> is \<open>2\<^sup>-\<^sup>5\<^sup>3\<close> and \<open>d\<close> is at most the least normal number, and integers up to
  \<open>2\<^sup>5\<^sup>3\<close> are exact.
\<close>

definition rounds_within :: "(rat \<Rightarrow> rat) \<Rightarrow> rat \<Rightarrow> rat \<Rightarrow> bool" where
  "rounds_within rnd u d \<longleftrightarrow> 0 \<le> u \<and> 0 \<le> d \<and> (\<forall>x. 0 \<le> x \<longrightarrow> rnd x \<le> (1 + u) * x + d)"

text \<open>What rounding can add to the tokens in one call.\<close>

definition slack :: "rat \<Rightarrow> rat \<Rightarrow> rat \<Rightarrow> rat \<Rightarrow> rat" where
  "slack u d cap rate = 2 * u * cap + ((1 + u) * (2 + u) * rate + 3) * d"

section \<open>Lemmas\<close>

lemma refill_keeps [simp]:
  "capacity (refill rnd now b) = capacity b" "refill_rate (refill rnd now b) = refill_rate b"
  "last_refill (refill rnd now b) = now"
  by (simp_all add: refill_def Let_def)

lemma as_secs_f64_nonneg: "ieee_rounding rnd \<Longrightarrow> 0 \<le> as_secs_f64 rnd d"
  by (simp add: as_secs_f64_def rnd_nonneg [of rnd])

lemma as_secs_f64_exact: "as_secs_f64 (\<lambda>x. x) d = of_nat d / 1000000000"
proof -
  have "rat_of_nat d = of_nat (d div 1000000000) * of_nat 1000000000 + of_nat (d mod 1000000000)"
    by (metis div_mult_mod_eq of_nat_add of_nat_mult)
  then have "of_nat (d div 1000000000) = (rat_of_nat d - of_nat (d mod 1000000000)) / 1000000000"
    by simp
  then show ?thesis unfolding as_secs_f64_def by (simp add: diff_divide_distrib)
qed

lemma refill_inv:
  assumes "ieee_rounding rnd" and "bucket_inv b"
  shows "bucket_inv (refill rnd now b)"
proof -
  have "0 \<le> rnd (as_secs_f64 rnd (now - last_refill b) * refill_rate b)"
    using assms(2)
    by (intro rnd_nonneg [OF assms(1)]) (simp add: as_secs_f64_nonneg [OF assms(1)] bucket_inv_def)
  then have "0 \<le> rnd (tokens b + rnd (as_secs_f64 rnd (now - last_refill b) * refill_rate b))"
    using assms(2) by (intro rnd_nonneg [OF assms(1)]) (simp add: bucket_inv_def)
  with assms show ?thesis by (simp add: bucket_inv_def refill_def Let_def)
qed

text \<open>
  Subtracting rounds down to at most the rounded capacity, so the capacity has to be a value
  that rounding keeps; \<open>new\<close> converts it from an integer.
\<close>

lemma bucket_step_inv:
  assumes rnd: "ieee_rounding rnd" and e: "nonneg_event e"
    and inv: "bucket_inv b \<and> rnd (capacity b) = capacity b"
  shows "bucket_inv (bucket_step rnd b e) \<and>
    rnd (capacity (bucket_step rnd b e)) = capacity (bucket_step rnd b e)"
proof (cases e)
  case (TryAcquire now t)
  let ?r = "refill rnd now b"
  have r: "bucket_inv ?r" using refill_inv [OF rnd] inv by blast
  have "rnd (tokens ?r - t) \<le> rnd (capacity b)"
    using r e TryAcquire by (intro rnd_mono [OF rnd]) (simp add: bucket_inv_def)
  moreover have "t \<le> tokens ?r \<Longrightarrow> 0 \<le> rnd (tokens ?r - t)" by (simp add: rnd_nonneg [OF rnd])
  ultimately show ?thesis using r inv TryAcquire
    by (simp add: try_acquire_def try_acquire_sync_def Let_def bucket_inv_def)
next
  case (ReturnTokens t)
  with e inv have "0 \<le> rnd (tokens b + t)" by (intro rnd_nonneg [OF rnd]) (simp add: bucket_inv_def)
  with inv ReturnTokens show ?thesis
    by (simp add: return_tokens_def return_tokens_sync_def bucket_inv_def)
next
  case (AvailableTokens now)
  with inv refill_inv [OF rnd] show ?thesis by (simp add: available_tokens_def Let_def)
qed

lemma try_acquire_keeps [simp]:
  "capacity (snd (try_acquire rnd now t b)) = capacity b"
  "refill_rate (snd (try_acquire rnd now t b)) = refill_rate b"
  "last_refill (snd (try_acquire rnd now t b)) = now"
  by (simp_all add: try_acquire_def try_acquire_sync_def Let_def)

lemma bucket_step_keeps [simp]:
  "capacity (bucket_step rnd b e) = capacity b" "refill_rate (bucket_step rnd b e) = refill_rate b"
  by (cases e; simp add: return_tokens_def return_tokens_sync_def available_tokens_def Let_def)+

subsection \<open>Rounding errors\<close>

lemma rounds_withinD:
  assumes "rounds_within rnd u d"
  shows "0 \<le> u" "0 \<le> d" "0 \<le> x \<Longrightarrow> rnd x \<le> (1 + u) * x + d"
  using assms by (auto simp: rounds_within_def)

lemma rounds_within_id: "rounds_within (\<lambda>x. x) 0 0"
  by (simp add: rounds_within_def)

lemma rounded_below_cap:
  assumes "rounds_within rnd u d" "0 \<le> x" "0 \<le> cap"
  shows "min (rnd x) cap \<le> x + u * cap + d"
proof (cases "x \<le> cap")
  case True
  have "u * x \<le> u * cap" using True rounds_withinD(1) [OF assms(1)] by (rule mult_left_mono)
  with rounds_withinD(3) [OF assms(1,2)] show ?thesis by (simp add: distrib_right min.coboundedI1)
next
  case False
  have "0 \<le> u * cap" using assms(3) rounds_withinD(1) [OF assms(1)] by simp
  with False rounds_withinD(2) [OF assms(1)] show ?thesis by (simp add: min.coboundedI2)
qed

lemma as_secs_f64_bound:
  assumes "rounds_within rnd u e" "exact_below rnd n" "d div 1000000000 \<le> n" "1000000000 \<le> n"
    and "ieee_rounding rnd"
  shows "as_secs_f64 rnd d \<le> (1 + u) * ((1 + u) * (of_nat d / 1000000000) + e) + e"
proof -
  let ?s = "rat_of_nat (d div 1000000000)" and ?f = "rat_of_nat (d mod 1000000000) / 1000000000"
  note u = rounds_withinD [OF assms(1)]
  have split: "of_nat d / 1000000000 = ?s + ?f"
  proof -
    have "rat_of_nat d = ?s * of_nat 1000000000 + of_nat (d mod 1000000000)"
      by (metis div_mult_mod_eq of_nat_add of_nat_mult)
    then show ?thesis by (simp add: add_divide_distrib)
  qed
  have ints: "rnd ?s = ?s" "rnd (of_nat (d mod 1000000000)) = of_nat (d mod 1000000000)"
    using assms(2-4) by (auto intro: exact_belowD)
  have f: "0 \<le> ?f" "0 \<le> rnd ?f" using rnd_nonneg [OF assms(5)] by simp_all
  have "?s + rnd ?f \<le> ?s + ((1 + u) * ?f + e)" using u(3) [OF f(1)] by simp
  also have "\<dots> \<le> (1 + u) * (of_nat d / 1000000000) + e"
    using u(1) mult_nonneg_nonneg [OF u(1), of ?s] by (simp add: split distrib_left distrib_right)
  finally have "(1 + u) * (?s + rnd ?f) \<le> (1 + u) * ((1 + u) * (of_nat d / 1000000000) + e)"
    using u(1) by (intro mult_left_mono) simp_all
  moreover have "as_secs_f64 rnd d \<le> (1 + u) * (?s + rnd ?f) + e"
    using u(3) [of "?s + rnd ?f"] f by (simp add: as_secs_f64_def ints)
  ultimately show ?thesis by linarith
qed

text \<open>A refill over \<open>dt\<close> nanoseconds, with \<open>n\<close> the largest integer known to be exact.\<close>

lemma refill_amount_bound:
  assumes "rounds_within rnd u d" "exact_below rnd n" "dt div 1000000000 \<le> n" "1000000000 \<le> n"
    and "ieee_rounding rnd" "0 \<le> r"
  shows "rnd (as_secs_f64 rnd dt * r)
    \<le> (1 + u) ^ 3 * r * of_nat dt / 1000000000 + ((1 + u) * (2 + u) * r + 1) * d"
proof -
  note u = rounds_withinD [OF assms(1)]
  let ?E = "rat_of_nat dt / 1000000000"
  have "as_secs_f64 rnd dt * r \<le> ((1 + u) * ((1 + u) * ?E + d) + d) * r"
    using as_secs_f64_bound [OF assms(1-5)] assms(6) by (rule mult_right_mono)
  then have "(1 + u) * (as_secs_f64 rnd dt * r) \<le> (1 + u) * (((1 + u) * ((1 + u) * ?E + d) + d) * r)"
    using u(1) by (intro mult_left_mono) simp_all
  moreover have "rnd (as_secs_f64 rnd dt * r) \<le> (1 + u) * (as_secs_f64 rnd dt * r) + d"
    using assms(6) as_secs_f64_nonneg [OF assms(5), of dt] by (intro u(3)) simp
  moreover have "(1 + u) * (((1 + u) * ((1 + u) * ?E + d) + d) * r) =
      (1 + u) ^ 3 * r * ?E + (1 + u) * (2 + u) * r * d"
    by (simp add: power3_eq_cube algebra_simps)
  moreover have "((1 + u) * (2 + u) * r + 1) * d = (1 + u) * (2 + u) * r * d + d" by (simp add: distrib_right)
  moreover have "(1 + u) ^ 3 * r * of_nat dt / 1000000000 = (1 + u) ^ 3 * r * ?E" by simp
  ultimately show ?thesis by linarith
qed

lemma refill_bound:
  assumes "rounds_within rnd u d" "exact_below rnd n" "(now - last_refill b) div 1000000000 \<le> n" "1000000000 \<le> n"
    and "ieee_rounding rnd" "bucket_inv b"
  shows "tokens (refill rnd now b) \<le> tokens b
    + (1 + u) ^ 3 * refill_rate b * of_nat (now - last_refill b) / 1000000000
    + u * capacity b + ((1 + u) * (2 + u) * refill_rate b + 2) * d"
proof -
  let ?r = "rnd (as_secs_f64 rnd (now - last_refill b) * refill_rate b)"
  have inv: "0 \<le> tokens b" "0 \<le> capacity b" "0 \<le> refill_rate b" using assms(6) by (auto simp: bucket_inv_def)
  then have "0 \<le> ?r" by (intro rnd_nonneg [OF assms(5)] mult_nonneg_nonneg as_secs_f64_nonneg [OF assms(5)]) simp_all
  with inv have "min (rnd (tokens b + ?r)) (capacity b) \<le> tokens b + ?r + u * capacity b + d"
    by (intro rounded_below_cap [OF assms(1)]) simp_all
  moreover note refill_amount_bound [OF assms(1-5) inv(3)]
  ultimately show ?thesis by (simp add: refill_def Let_def distrib_right)
qed

lemma bucket_step_bound:
  assumes "rounds_within rnd u d" "exact_below rnd n" "refill_time b e div 1000000000 \<le> n" "1000000000 \<le> n"
    and "ieee_rounding rnd" "bucket_inv b" "nonneg_event e"
  shows "grant rnd b e + tokens (bucket_step rnd b e) \<le> tokens b + given_back e
    + (1 + u) ^ 3 * refill_rate b * of_nat (refill_time b e) / 1000000000
    + slack u d (capacity b) (refill_rate b)"
proof -
  note u = rounds_withinD [OF assms(1)]
  have inv: "0 \<le> tokens b" "0 \<le> capacity b" "0 \<le> refill_rate b" using assms(6) by (auto simp: bucket_inv_def)
  have uc: "0 \<le> u * capacity b" and rd: "0 \<le> (1 + u) * (2 + u) * refill_rate b * d" using u inv by simp_all
  note unf = slack_def distrib_right
  show ?thesis
  proof (cases e)
    case (TryAcquire now t)
    let ?b = "refill rnd now b"
    note rb = refill_bound [OF assms(1,2) _ assms(4,5,6), of now]
    have r: "bucket_inv ?b" by (rule refill_inv [OF assms(5,6)])
    have "rnd (tokens ?b - t) \<le> tokens ?b - t + u * capacity b + d" if "t \<le> tokens ?b"
    proof -
      have "tokens ?b - t \<le> capacity b" using r assms(7) TryAcquire by (simp add: bucket_inv_def)
      then have "u * (tokens ?b - t) \<le> u * capacity b" using u(1) by (rule mult_left_mono)
      with u(3) [of "tokens ?b - t"] that show ?thesis by (simp add: distrib_right)
    qed
    with rb assms(3) TryAcquire uc u(2) show ?thesis
      by (auto simp: unf try_acquire_def try_acquire_sync_def Let_def)
  next
    case (ReturnTokens t)
    with assms(7) inv rounded_below_cap [OF assms(1), of "tokens b + t" "capacity b"] uc u(2) rd show ?thesis
      by (simp add: unf return_tokens_def return_tokens_sync_def)
  next
    case (AvailableTokens now)
    with refill_bound [OF assms(1,2) _ assms(4,5,6), of now] assms(3) uc u(2) show ?thesis
      by (simp add: unf available_tokens_def Let_def)
  qed
qed

lemma granted_bound:
  assumes "rounds_within rnd u d" "exact_below rnd n" "1000000000 \<le> n" "ieee_rounding rnd"
    and "bucket_inv b" "rnd (capacity b) = capacity b" "list_all nonneg_event es"
    and "sorted (clock_readings es)" "\<forall>x \<in> set (clock_readings es). last_refill b \<le> x \<and> x \<le> until"
    and "last_refill b \<le> until" "(until - last_refill b) div 1000000000 \<le> n"
  shows "granted rnd b es \<le> tokens b + returned es
    + (1 + u) ^ 3 * refill_rate b * of_nat (until - last_refill b) / 1000000000
    + of_nat (length es) * slack u d (capacity b) (refill_rate b)"
  using assms(5-)
proof (induction es arbitrary: b)
  case Nil
  then show ?case using rounds_withinD(1) [OF assms(1)] by (simp add: bucket_inv_def returned_def)
next
  case (Cons e es)
  let ?b = "bucket_step rnd b e" and ?K = "(1 + u) ^ 3 * refill_rate b" and ?S = "slack u d (capacity b) (refill_rate b)"
  have inv: "bucket_inv ?b" "rnd (capacity ?b) = capacity ?b"
    using bucket_step_inv [OF assms(4), of e b] Cons.prems(1-3) by auto
  have times: "last_refill ?b = last_refill b + refill_time b e" "last_refill ?b \<le> until"
    using Cons.prems(5,6)
    by (cases e; simp add: clock_readings_def return_tokens_def return_tokens_sync_def available_tokens_def Let_def)+
  have later: "\<forall>x \<in> set (clock_readings es). last_refill ?b \<le> x \<and> x \<le> until"
    using Cons.prems(4,5)
    by (cases e) (auto simp: clock_readings_def return_tokens_def return_tokens_sync_def available_tokens_def Let_def)
  have sorted: "sorted (clock_readings es)" using Cons.prems(4) by (simp add: clock_readings_def sorted_append)
  have small: "refill_time b e div 1000000000 \<le> n" "(until - last_refill ?b) div 1000000000 \<le> n"
    using Cons.prems(7) times by (auto intro: order.trans [OF div_le_mono])
  have "granted rnd ?b es \<le> tokens ?b + returned es
      + ?K * of_nat (until - last_refill ?b) / 1000000000 + of_nat (length es) * ?S"
    using Cons.IH [OF inv _ sorted later times(2) small(2)] Cons.prems(3) by simp
  moreover have "grant rnd b e + tokens ?b \<le> tokens b + given_back e + ?K * of_nat (refill_time b e) / 1000000000 + ?S"
    using Cons.prems(1,3) by (intro bucket_step_bound [OF assms(1,2) small(1) assms(3,4)]) simp_all
  moreover have "rat_of_nat (until - last_refill b) = of_nat (until - last_refill ?b) + of_nat (refill_time b e)"
    using times by (simp flip: of_nat_add)
  ultimately show ?case
    by (simp add: returned_def add_divide_distrib distrib_left distrib_right)
qed

section \<open>Properties\<close>

text \<open>
  the bucket never holds fewer than zero tokens nor more than its capacity, after any
  sequence of calls with non-negative amounts and any clock readings, whatever the rounding
  (as long as it is monotone and odd and the capacity is a representable integer).
\<close>

theorem bucket_tokens_within_capacity:
  assumes "ieee_rounding rnd" and "exact_below rnd (unat cap)" and "list_all nonneg_event es"
  shows "0 \<le> tokens (foldl (bucket_step rnd) (new_token_bucket rnd now cap rate) es) \<and>
    tokens (foldl (bucket_step rnd) (new_token_bucket rnd now cap rate) es) \<le> of_nat (unat cap)"
proof -
  let ?P = "\<lambda>b. bucket_inv b \<and> rnd (capacity b) = capacity b \<and> capacity b = of_nat (unat cap)"
  have keep: "capacity (bucket_step rnd b e) = capacity b" for b e
    by (cases e) (simp_all add: return_tokens_def return_tokens_sync_def available_tokens_def Let_def)
  have step: "nonneg_event e \<Longrightarrow> ?P b \<Longrightarrow> ?P (bucket_step rnd b e)" for b e
    using bucket_step_inv [OF assms(1), of e b] keep [of b e] by metis
  have "?P b \<Longrightarrow> ?P (foldl (bucket_step rnd) b es)" for b
    using assms(3)
  proof (induction es arbitrary: b)
    case Nil
    then show ?case unfolding foldl.simps by blast
  next
    case (Cons e es)
    have e: "nonneg_event e" and es: "list_all nonneg_event es" using Cons.prems(2) by simp_all
    show ?case unfolding foldl.simps by (rule Cons.IH [OF step [OF e Cons.prems(1)] es])
  qed
  moreover have "?P (new_token_bucket rnd now cap rate)"
    using assms(1) exact_belowD [OF assms(2) order.refl]
    by (simp add: new_token_bucket_def bucket_inv_def rnd_nonneg [of rnd] Let_def)
  ultimately have "?P (foldl (bucket_step rnd) (new_token_bucket rnd now cap rate) es)" by blast
  then show ?thesis unfolding bucket_inv_def by metis
qed

theorem bucket_tokens_within_capacity_witness:
  "tokens (foldl (bucket_step (\<lambda>x. x)) (new_token_bucket (\<lambda>x. x) 0 10 5)
     [TryAcquire 0 5, TryAcquire 0 5, ReturnTokens 20]) \<le> 10"
  using bucket_tokens_within_capacity [OF ieee_rounding_id exact_below_id,
    where es = "[TryAcquire 0 5, TryAcquire 0 5, ReturnTokens 20]" and cap = 10 and now = 0 and rate = 5]
  by simp

text \<open>
  C15: the rate limit. Take any calls of \<open>try_acquire\<close>, \<open>return_tokens\<close> and \<open>available_tokens\<close>, with
  amounts that are not negative and clock readings that do not go back, between the creation of a bucket
  and time \<open>until\<close>. The tokens granted are at most the burst capacity, plus those returned, plus
  the refill rate times the elapsed seconds, but for rounding: the last term grows by \<open>(1 + u)\<^sup>3\<close> and
  each call adds \<open>slack\<close>, where \<open>u\<close> and \<open>d\<close> bound the relative and the absolute error of a rounding and
  integers up to \<open>2\<^sup>5\<^sup>3\<close>, among them the capacity, the rate and the elapsed seconds, are exact. Both
  are 0 in exact arithmetic.
\<close>

theorem token_bucket_rate_limit:
  assumes "ieee_rounding rnd" and "rounds_within rnd u d" and "exact_below rnd (2 ^ 53)"
    and "unat cap \<le> 2 ^ 53" and "unat rate \<le> 2 ^ 53" and "(until - start) div 1000000000 \<le> 2 ^ 53"
    and "list_all nonneg_event es" and "sorted (clock_readings es)"
    and "\<forall>x \<in> set (clock_readings es). start \<le> x \<and> x \<le> until" and "start \<le> until"
  shows "granted rnd (new_token_bucket rnd start cap rate) es
    \<le> of_nat (unat cap) + returned es
      + (1 + u) ^ 3 * of_nat (unat rate) * of_nat (until - start) / 1000000000
      + of_nat (length es) * slack u d (of_nat (unat cap)) (of_nat (unat rate))"
proof -
  let ?b = "new_token_bucket rnd start cap rate"
  have ints: "rnd (of_nat (unat cap)) = of_nat (unat cap)" "rnd (of_nat (unat rate)) = of_nat (unat rate)"
    by (fact exact_belowD [OF assms(3,4)] exact_belowD [OF assms(3,5)])+
  then have b: "last_refill ?b = start" "tokens ?b = of_nat (unat cap)" "refill_rate ?b = of_nat (unat rate)"
    "capacity ?b = of_nat (unat cap)" "bucket_inv ?b" "rnd (capacity ?b) = capacity ?b"
    by (simp_all add: new_token_bucket_def bucket_inv_def Let_def)
  show ?thesis
    using granted_bound [OF assms(2,3) _ assms(1) b(5,6) assms(7,8), of until] assms(6,9,10) by (simp add: b)
qed

text \<open>Ten tokens and five a second: three of four calls, and one token given back.\<close>

theorem token_bucket_rate_limit_witness:
  "granted (\<lambda>x. x) (new_token_bucket (\<lambda>x. x) 0 10 5)
     [TryAcquire 0 5, TryAcquire 0 5, TryAcquire 0 1, ReturnTokens 1, TryAcquire 200000000 1] \<le> 12"
  using token_bucket_rate_limit [OF ieee_rounding_id rounds_within_id exact_below_id, where start = 0
    and es = "[TryAcquire 0 5, TryAcquire 0 5, TryAcquire 0 1, ReturnTokens 1, TryAcquire 200000000 1]"
    and until = 200000000 and cap = 10 and rate = 5]
  by (simp del: granted.simps add: clock_readings_def returned_def slack_def)

end
