(* ===== verification/ConcurrencyLimiter.thy ===== *)
theory ConcurrencyLimiter
  imports TokenBucket "HOL-Library.AList"
begin

text \<open>
  The concurrency limiter (\<open>model_gateway/src/middleware/concurrency.rs\<close>): the middleware that
  takes a token per request or queues it, the queue processor, the tasks it spawns to wait for
  a token, and the response body that gives the token back when it is dropped. The tasks
  interleave at their \<open>await\<close> points, so the limiter is a state machine: one event per stretch
  of code between two such points, with the clock readings that stretch makes. Requests are
  numbered in order of arrival. An event that is not enabled leaves the state as it is.
\<close>

section \<open>Model\<close>

datatype rate_limit_label = RATE_LIMIT_ALLOWED | RATE_LIMIT_REJECTED

text \<open>
  Where the handler of a request is: waiting for its permit, with the answer of the queue
  processor in the channel, running the inner service, streaming the response body, or done.
  The flag of \<open>Running\<close> and \<open>Body\<close> says whether the request took a token (it did not when rate
  limiting is disabled). \<open>Dropped\<close> is a handler cancelled because its client went away.
\<close>

datatype phase =
    AwaitPermit
  | PermitOk
  | PermitErr u16
  | PermitClosed
  | Running bool
  | Body bool
  | Responded u16
  | Finished
  | Dropped

text \<open>
  A task spawned to wait for a token: not polled yet, with the remaining time it was given, or
  waiting, with the instant at which its timeouts expire.
\<close>

datatype waiter = Spawned duration | Waiting nat

record limiter =
  rate_limiter :: "token_bucket option"
  queue_size :: "nat option"
  queue_timeout :: duration
  queue :: "(nat \<times> nat) list"
  processor_alive :: bool
  waiters :: "(nat \<times> waiter) list"
  requests :: "phase list"
  rate_metrics :: "rate_limit_label list"

text \<open>\<open>ConcurrencyLimiter::new\<close>: a queue exists only beside a bucket and with a positive size.\<close>

definition new_limiter :: "token_bucket option \<Rightarrow> usize \<Rightarrow> duration \<Rightarrow> limiter" where
  "new_limiter bucket qsize timeout =
     \<lparr>rate_limiter = bucket,
      queue_size = (case bucket of None \<Rightarrow> None
        | Some _ \<Rightarrow> if 0 < qsize then Some (unat qsize) else None),
      queue_timeout = timeout, queue = [],
      processor_alive = (bucket \<noteq> None \<and> 0 < qsize),
      waiters = [], requests = [], rate_metrics = []\<rparr>"

definition record_rate :: "rate_limit_label \<Rightarrow> limiter \<Rightarrow> limiter" where
  "record_rate l s = s\<lparr>rate_metrics := rate_metrics s @ [l]\<rparr>"

definition add_request :: "phase \<Rightarrow> limiter \<Rightarrow> limiter" where
  "add_request p s = s\<lparr>requests := requests s @ [p]\<rparr>"

definition set_phase :: "nat \<Rightarrow> phase \<Rightarrow> limiter \<Rightarrow> limiter" where
  "set_phase i p s = s\<lparr>requests := (requests s)[i := p]\<rparr>"

text \<open>
  \<open>concurrency_limit_middleware\<close> from the arrival of a request to its first \<open>await\<close>.
  \<open>mesh\<close> is the answer of the mesh rate limit, \<open>None\<close> when the mesh is disabled; \<open>now\<close> is the
  clock reading of the bucket and \<open>queued_at\<close> that of the queue entry.
\<close>

definition arrive :: "(rat \<Rightarrow> rat) \<Rightarrow> bool option \<Rightarrow> nat \<Rightarrow> nat \<Rightarrow> limiter \<Rightarrow> limiter" where
  "arrive rnd mesh now queued_at s =
     (if mesh = Some True then add_request (Responded 429) s
      else case rate_limiter s of
        None \<Rightarrow> add_request (Running False) s
      | Some bucket \<Rightarrow>
          (case try_acquire rnd now 1 bucket of
             (True, bucket) \<Rightarrow>
               add_request (Running True) (record_rate RATE_LIMIT_ALLOWED (s\<lparr>rate_limiter := Some bucket\<rparr>))
           | (False, bucket) \<Rightarrow>
               (let s = s\<lparr>rate_limiter := Some bucket\<rparr>
                in case queue_size s of
                     None \<Rightarrow> add_request (Responded 429) (record_rate RATE_LIMIT_REJECTED s)
                   | Some qsize \<Rightarrow>
                       if processor_alive s \<and> length (queue s) < qsize
                       then add_request AwaitPermit
                              (s\<lparr>queue := queue s @ [(queued_at, length (requests s))]\<rparr>)
                       else add_request (Responded 429) (record_rate RATE_LIMIT_REJECTED s))))"

text \<open>
  \<open>permit_tx.send\<close>: the answer reaches the handler only while it still waits; the result of the
  send is ignored by every caller.
\<close>

definition send_permit :: "nat \<Rightarrow> phase \<Rightarrow> limiter \<Rightarrow> limiter" where
  "send_permit i p s =
     (if i < length (requests s) \<and> requests s ! i = AwaitPermit then set_phase i p s else s)"

text \<open>One round of \<open>QueueProcessor::run\<close>.\<close>

definition process_queue :: "(rat \<Rightarrow> rat) \<Rightarrow> nat \<Rightarrow> nat \<Rightarrow> limiter \<Rightarrow> limiter" where
  "process_queue rnd elapsed_now now s =
     (case (processor_alive s, queue s, rate_limiter s) of
        (True, (queued_at, i) # rest, Some bucket) \<Rightarrow>
          (let s = s\<lparr>queue := rest\<rparr>; elapsed = elapsed_now - queued_at
           in if queue_timeout s \<le> elapsed then send_permit i (PermitErr 408) s
              else (let remaining_timeout = queue_timeout s - elapsed
                    in case try_acquire rnd now 1 bucket of
                         (True, bucket) \<Rightarrow> send_permit i PermitOk (s\<lparr>rate_limiter := Some bucket\<rparr>)
                       | (False, bucket) \<Rightarrow>
                           s\<lparr>rate_limiter := Some bucket,
                             waiters := waiters s @ [(i, Spawned remaining_timeout)]\<rparr>))
      | _ \<Rightarrow> s)"

text \<open>The processor is gone and with it the senders of everything still queued.\<close>

definition processor_gone :: "limiter \<Rightarrow> limiter" where
  "processor_gone s =
     fold (\<lambda>(_, i). send_permit i PermitClosed) (queue s) (s\<lparr>queue := [], processor_alive := False\<rparr>)"

definition remove_waiter :: "nat \<Rightarrow> limiter \<Rightarrow> limiter" where
  "remove_waiter i s = s\<lparr>waiters := filter (\<lambda>w. fst w \<noteq> i) (waiters s)\<rparr>"

text \<open>
  The first poll of a spawned task: both timeouts of \<open>acquire_timeout\<close> start here and the
  earlier one decides.
\<close>

definition waiter_start :: "(rat \<Rightarrow> rat) \<Rightarrow> nat \<Rightarrow> nat \<Rightarrow> nat \<Rightarrow> nat \<Rightarrow> nat \<Rightarrow> limiter \<Rightarrow> limiter" where
  "waiter_start rnd i start_now now wait_now now' s =
     (case (map_of (waiters s) i, rate_limiter s) of
        (Some (Spawned remaining), Some bucket) \<Rightarrow>
          (case acquire_start rnd now wait_now now' 1 bucket of
             (Acquired, bucket) \<Rightarrow> send_permit i PermitOk (remove_waiter i (s\<lparr>rate_limiter := Some bucket\<rparr>))
           | (WaitNotified, bucket) \<Rightarrow>
               s\<lparr>rate_limiter := Some bucket, waiters := AList.update i (Waiting (start_now + remaining)) (waiters s)\<rparr>
           | (WaitUntil deadline, bucket) \<Rightarrow>
               s\<lparr>rate_limiter := Some bucket,
                 waiters := AList.update i (Waiting (min (start_now + remaining) deadline)) (waiters s)\<rparr>)
      | _ \<Rightarrow> s)"

text \<open>A later poll of a waiting task, after a notification or a sleep of 10 ms.\<close>

definition waiter_poll :: "(rat \<Rightarrow> rat) \<Rightarrow> nat \<Rightarrow> nat \<Rightarrow> limiter \<Rightarrow> limiter" where
  "waiter_poll rnd i now s =
     (case (map_of (waiters s) i, rate_limiter s) of
        (Some (Waiting _), Some bucket) \<Rightarrow>
          (case try_acquire rnd now 1 bucket of
             (True, bucket) \<Rightarrow> send_permit i PermitOk (remove_waiter i (s\<lparr>rate_limiter := Some bucket\<rparr>))
           | (False, bucket) \<Rightarrow> s\<lparr>rate_limiter := Some bucket\<rparr>)
      | _ \<Rightarrow> s)"

definition waiter_expire :: "nat \<Rightarrow> nat \<Rightarrow> limiter \<Rightarrow> limiter" where
  "waiter_expire i now s =
     (case map_of (waiters s) i of
        Some (Waiting deadline) \<Rightarrow>
          if deadline \<le> now then send_permit i (PermitErr 408) (remove_waiter i s) else s
      | _ \<Rightarrow> s)"

text \<open>The middleware after \<open>permit_rx.await\<close>.\<close>

definition resume :: "nat \<Rightarrow> limiter \<Rightarrow> limiter" where
  "resume i s =
     (if i < length (requests s) then
        (case requests s ! i of
           PermitOk \<Rightarrow> set_phase i (Running True) (record_rate RATE_LIMIT_ALLOWED s)
         | PermitErr status \<Rightarrow> set_phase i (Responded status) (record_rate RATE_LIMIT_REJECTED s)
         | PermitClosed \<Rightarrow> set_phase i (Responded 500) (record_rate RATE_LIMIT_REJECTED s)
         | _ \<Rightarrow> s)
      else s)"

text \<open>The middleware after \<open>next.run\<close>: the body is wrapped in a guard that owns the token.\<close>

definition respond :: "nat \<Rightarrow> limiter \<Rightarrow> limiter" where
  "respond i s =
     (if i < length (requests s) then
        (case requests s ! i of Running guarded \<Rightarrow> set_phase i (Body guarded) s | _ \<Rightarrow> s)
      else s)"

text \<open>\<open>TokenGuardBody::drop\<close>, at the end of the stream or when the client leaves during it.\<close>

definition drop_body :: "(rat \<Rightarrow> rat) \<Rightarrow> nat \<Rightarrow> limiter \<Rightarrow> limiter" where
  "drop_body rnd i s =
     (if i < length (requests s) then
        (case requests s ! i of
           Body guarded \<Rightarrow>
             set_phase i Finished
               (if guarded then s\<lparr>rate_limiter := map_option (return_tokens_sync rnd 1) (rate_limiter s)\<rparr>
                else s)
         | _ \<Rightarrow> s)
      else s)"

text \<open>The handler is dropped at an \<open>await\<close> because the client disconnected.\<close>

definition disconnect :: "nat \<Rightarrow> limiter \<Rightarrow> limiter" where
  "disconnect i s =
     (if i < length (requests s) \<and>
         (case requests s ! i of AwaitPermit \<Rightarrow> True | PermitOk \<Rightarrow> True | PermitErr _ \<Rightarrow> True
            | PermitClosed \<Rightarrow> True | Running _ \<Rightarrow> True | _ \<Rightarrow> False)
      then set_phase i Dropped s else s)"

datatype limiter_event =
    Arrive "bool option" nat nat
  | ProcessQueue nat nat
  | ProcessorGone
  | WaiterStart nat nat nat nat nat
  | WaiterPoll nat nat
  | WaiterExpire nat nat
  | Resume nat
  | Respond nat
  | DropBody nat
  | Disconnect nat

fun limiter_step :: "(rat \<Rightarrow> rat) \<Rightarrow> limiter \<Rightarrow> limiter_event \<Rightarrow> limiter" where
  "limiter_step rnd s (Arrive mesh now queued_at) = arrive rnd mesh now queued_at s"
| "limiter_step rnd s (ProcessQueue e now) = process_queue rnd e now s"
| "limiter_step rnd s ProcessorGone = processor_gone s"
| "limiter_step rnd s (WaiterStart i st now w now') = waiter_start rnd i st now w now' s"
| "limiter_step rnd s (WaiterPoll i now) = waiter_poll rnd i now s"
| "limiter_step rnd s (WaiterExpire i now) = waiter_expire i now s"
| "limiter_step rnd s (Resume i) = resume i s"
| "limiter_step rnd s (Respond i) = respond i s"
| "limiter_step rnd s (DropBody i) = drop_body rnd i s"
| "limiter_step rnd s (Disconnect i) = disconnect i s"

definition limiter_run :: "(rat \<Rightarrow> rat) \<Rightarrow> limiter \<Rightarrow> limiter_event list \<Rightarrow> limiter" where
  "limiter_run rnd s es = foldl (limiter_step rnd) s es"

text \<open>The requests that own a token.\<close>

fun holds_token :: "phase \<Rightarrow> bool" where
  "holds_token PermitOk = True"
| "holds_token (Running guarded) = guarded"
| "holds_token (Body guarded) = guarded"
| "holds_token p = False"

definition holders :: "limiter \<Rightarrow> nat" where
  "holders s = length (filter holds_token (requests s))"

fun is_disconnect :: "limiter_event \<Rightarrow> bool" where
  "is_disconnect (Disconnect i) = True"
| "is_disconnect e = False"

text \<open>The disconnects of a run that hit a request which owns a token and has no response yet.\<close>

fun is_leak :: "limiter \<Rightarrow> limiter_event \<Rightarrow> bool" where
  "is_leak s (Disconnect i) \<longleftrightarrow>
     i < length (requests s) \<and> (requests s ! i = PermitOk \<or> requests s ! i = Running True)"
| "is_leak s e \<longleftrightarrow> False"

fun leaks :: "(rat \<Rightarrow> rat) \<Rightarrow> limiter \<Rightarrow> limiter_event list \<Rightarrow> nat" where
  "leaks rnd s [] = 0"
| "leaks rnd s (e # es) = of_bool (is_leak s e) + leaks rnd (limiter_step rnd s e) es"

text \<open>\<open>maybe_rate_limiter\<close> of \<open>app_context.rs\<close>: the bucket that the configuration asks for.\<close>

definition maybe_rate_limiter :: "(rat \<Rightarrow> rat) \<Rightarrow> nat \<Rightarrow> i32 \<Rightarrow> i32 option \<Rightarrow> token_bucket option" where
  "maybe_rate_limiter rnd now max_concurrent_requests rate_limit_tokens_per_second =
     (if sint max_concurrent_requests \<le> 0 then None
      else
        (let n = max_concurrent_requests;
             rate_limit_tokens =
               (case rate_limit_tokens_per_second of
                  Some t \<Rightarrow> if 0 < sint t then t else n
                | None \<Rightarrow> n)
         in Some (new_token_bucket rnd now (word_of_int (sint n)) (word_of_int (sint rate_limit_tokens)))))"

definition pure_bucket :: "nat \<Rightarrow> nat \<Rightarrow> token_bucket \<Rightarrow> bool" where
  "pure_bucket cap n b \<longleftrightarrow>
     tokens b = of_nat n \<and> capacity b = of_nat cap \<and> refill_rate b = 0 \<and> n \<le> cap"

definition available_is :: "nat \<Rightarrow> nat \<Rightarrow> limiter \<Rightarrow> bool" where
  "available_is cap n s \<longleftrightarrow> (case rate_limiter s of None \<Rightarrow> False | Some b \<Rightarrow> pure_bucket cap n b)"

text \<open>Everything queued or waited for belongs to a handler that waits for it, once.\<close>

definition pending :: "limiter \<Rightarrow> nat list" where
  "pending s = map snd (queue s) @ map fst (waiters s)"

definition awaits :: "phase list \<Rightarrow> nat \<Rightarrow> bool" where
  "awaits rs i \<longleftrightarrow> i < length rs \<and> rs ! i = AwaitPermit"

definition pending_ok :: "limiter \<Rightarrow> bool" where
  "pending_ok s \<longleftrightarrow> distinct (pending s) \<and> list_all (awaits (requests s)) (pending s)"

text \<open>
  A step, seen from the tokens: those available plus those held never grow, and are kept
  exactly unless an answer is sent to nobody or a holder disconnects.
\<close>

definition balanced :: "nat \<Rightarrow> limiter \<Rightarrow> limiter \<Rightarrow> bool \<Rightarrow> bool" where
  "balanced cap s s' exact \<longleftrightarrow>
     (\<forall>n. available_is cap n s \<longrightarrow> n + holders s \<le> cap \<longrightarrow>
        (\<exists>n'. available_is cap n' s' \<and> n' + holders s' \<le> n + holders s \<and>
              (exact \<longrightarrow> n' + holders s' = n + holders s)))"

section \<open>Lemmas\<close>

lemma refill_pure:
  assumes "ieee_rounding rnd" "exact_below rnd cap" "pure_bucket cap n b"
  shows "pure_bucket cap n (refill rnd now b)"
  using assms(3) exact_belowD [OF assms(2), of n] rnd_zero [OF assms(1)]
  by (simp add: pure_bucket_def refill_def Let_def)

lemma try_acquire_pure:
  assumes "ieee_rounding rnd" "exact_below rnd cap" "pure_bucket cap n b"
    and "try_acquire rnd now 1 b = (ok, b')"
  shows "ok = (0 < n) \<and> pure_bucket cap (n - of_bool ok) b'"
proof -
  have r: "pure_bucket cap n (refill rnd now b)" using refill_pure assms by blast
  then have one: "(1 \<le> tokens (refill rnd now b)) = (0 < n)" by (auto simp: pure_bucket_def)
  have "0 < n \<Longrightarrow> rnd (of_nat n - 1) = of_nat (n - 1)"
    using exact_belowD [OF assms(2), of "n - 1"] r by (auto simp: pure_bucket_def of_nat_diff)
  with r one assms(4) show ?thesis
    by (auto simp: try_acquire_def try_acquire_sync_def Let_def pure_bucket_def split: if_splits)
qed

lemma acquire_start_pure:
  assumes "ieee_rounding rnd" "exact_below rnd cap" "pure_bucket cap n b"
    and "acquire_start rnd now w now' 1 b = (r, b')"
  shows "(r = Acquired \<and> 0 < n \<and> pure_bucket cap (n - 1) b') \<or> (r = WaitNotified \<and> pure_bucket cap n b')"
proof -
  obtain ok b1 where t: "try_acquire rnd now 1 b = (ok, b1)" by (cases "try_acquire rnd now 1 b")
  from try_acquire_pure [OF assms(1-3) t] assms(4) t show ?thesis
    by (auto simp: acquire_start_def pure_bucket_def split: bool.splits)
qed

lemma return_tokens_pure:
  assumes "exact_below rnd cap" "pure_bucket cap n b" "n < cap"
  shows "pure_bucket cap (Suc n) (return_tokens_sync rnd 1 b)"
  using assms(2,3) exact_belowD [OF assms(1), of "Suc n"]
  by (simp add: pure_bucket_def return_tokens_sync_def add.commute)

lemma length_filter_update:
  "i < length xs \<Longrightarrow>
     length (filter P (xs[i := x])) + of_bool (P (xs ! i)) = length (filter P xs) + of_bool (P x)"
proof (induction xs arbitrary: i)
  case (Cons y ys)
  then show ?case by (cases i) (auto split: nat.splits)
qed simp

lemma holders_set_phase:
  "i < length (requests s) \<Longrightarrow>
     holders (set_phase i p s) + of_bool (holds_token (requests s ! i)) = holders s + of_bool (holds_token p)"
  by (simp add: holders_def set_phase_def length_filter_update)

lemma holders_set_phase_same:
  "i < length (requests s) \<Longrightarrow> holds_token p = holds_token (requests s ! i) \<Longrightarrow>
     holders (set_phase i p s) = holders s"
  using holders_set_phase [of i s p] by simp

lemma holders_add_request [simp]: "holders (add_request p s) = holders s + of_bool (holds_token p)"
  by (simp add: holders_def add_request_def)

lemma holders_simps [simp]:
  "holders (s\<lparr>rate_limiter := b\<rparr>) = holders s" "holders (s\<lparr>queue := q\<rparr>) = holders s"
  "holders (s\<lparr>waiters := w\<rparr>) = holders s" "holders (s\<lparr>processor_alive := a\<rparr>) = holders s"
  "holders (record_rate l s) = holders s" "holders (remove_waiter i s) = holders s"
  by (simp_all add: holders_def record_rate_def remove_waiter_def)

lemma requests_simps [simp]:
  "requests (record_rate l s) = requests s" "requests (remove_waiter i s) = requests s"
  "rate_limiter (record_rate l s) = rate_limiter s" "rate_limiter (remove_waiter i s) = rate_limiter s"
  "rate_limiter (add_request p s) = rate_limiter s" "rate_limiter (set_phase i p s) = rate_limiter s"
  "rate_limiter (send_permit i p s) = rate_limiter s"
  by (simp_all add: record_rate_def remove_waiter_def add_request_def set_phase_def send_permit_def)

lemma holders_send_permit:
  "holders (send_permit i p s) \<le> holders s + of_bool (holds_token p)"
  "i < length (requests s) \<Longrightarrow> requests s ! i = AwaitPermit \<Longrightarrow>
     holders (send_permit i p s) = holders s + of_bool (holds_token p)"
  "\<not> holds_token p \<Longrightarrow> holders (send_permit i p s) = holders s"
  using holders_set_phase [of i s p] by (auto simp: send_permit_def)

lemma holders_positive: "i < length (requests s) \<Longrightarrow> holds_token (requests s ! i) \<Longrightarrow> 0 < holders s"
  unfolding holders_def length_greater_0_conv by (auto simp: filter_empty_conv)

lemma balancedI:
  assumes "\<And>n b. rate_limiter s = Some b \<Longrightarrow> pure_bucket cap n b \<Longrightarrow> n + holders s \<le> cap \<Longrightarrow>
    \<exists>n' b'. rate_limiter s' = Some b' \<and> pure_bucket cap n' b' \<and> n' + holders s' \<le> n + holders s \<and>
      (exact \<longrightarrow> n' + holders s' = n + holders s)"
  shows "balanced cap s s' exact"
  unfolding balanced_def available_is_def
  using assms by (fastforce split: option.splits)

lemma balanced_same: "rate_limiter s' = rate_limiter s \<Longrightarrow> holders s' = holders s \<Longrightarrow> balanced cap s s' exact"
  by (rule balancedI) auto

lemma balanced_refl [simp]: "balanced cap s s exact"
  by (rule balanced_same) simp_all

lemma balanced_keep:
  assumes "rate_limiter s = Some b" "rate_limiter s' = Some b'" "holders s' = holders s"
    and "\<And>n. pure_bucket cap n b \<Longrightarrow> pure_bucket cap n b'"
  shows "balanced cap s s' exact"
  using assms by (intro balancedI) auto

lemma balanced_grant:
  assumes s: "rate_limiter s = Some b" "rate_limiter s' = Some b'" "requests s' = requests s"
    and b: "\<And>n. pure_bucket cap n b \<Longrightarrow> 0 < n \<and> pure_bucket cap (n - 1) b'"
    and i: "exact \<Longrightarrow> i < length (requests s) \<and> requests s ! i = AwaitPermit"
  shows "balanced cap s (send_permit i PermitOk s') exact"
proof (rule balancedI)
  fix n b2 assume "rate_limiter s = Some b2" "pure_bucket cap n b2"
  with s b have n: "0 < n" "pure_bucket cap (n - 1) b'" by auto
  have h: "holders s' = holders s" using s by (simp add: holders_def)
  have "holders (send_permit i PermitOk s') \<le> holders s + 1"
    using holders_send_permit(1) [of i PermitOk s'] by (simp add: h)
  moreover have "exact \<Longrightarrow> holders (send_permit i PermitOk s') = holders s + 1"
    using holders_send_permit(2) [of i s' PermitOk] i by (simp add: h s)
  ultimately show "\<exists>n' b'. rate_limiter (send_permit i PermitOk s') = Some b' \<and> pure_bucket cap n' b' \<and>
      n' + holders (send_permit i PermitOk s') \<le> n + holders s \<and>
      (exact \<longrightarrow> n' + holders (send_permit i PermitOk s') = n + holders s)"
    using n s by (intro exI [of _ "n - 1"] exI [of _ b']) auto
qed

lemma arrive_balanced:
  assumes "ieee_rounding rnd" "exact_below rnd cap"
  shows "balanced cap s (arrive rnd mesh now qat s) exact"
proof (cases "mesh = Some True \<or> rate_limiter s = None")
  case True
  then show ?thesis by (auto intro!: balanced_same simp: arrive_def)
next
  case False
  then obtain b where b: "rate_limiter s = Some b" by auto
  obtain ok b' where t: "try_acquire rnd now 1 b = (ok, b')" by (cases "try_acquire rnd now 1 b")
  show ?thesis
  proof (rule balancedI)
    fix n b2 assume "rate_limiter s = Some b2" "pure_bucket cap n b2"
    with b have "pure_bucket cap n b" by simp
    from try_acquire_pure [OF assms this t]
    show "\<exists>n' b'. rate_limiter (arrive rnd mesh now qat s) = Some b' \<and> pure_bucket cap n' b' \<and>
       n' + holders (arrive rnd mesh now qat s) \<le> n + holders s \<and>
      (exact \<longrightarrow> n' + holders (arrive rnd mesh now qat s) = n + holders s)"
      using False b t
      by (intro exI [of _ "n - of_bool ok"] exI [of _ b'])
         (auto simp: arrive_def Let_def split: option.splits)
  qed
qed

lemma pending_okD:
  "pending_ok s \<Longrightarrow> i \<in> set (pending s) \<Longrightarrow> i < length (requests s) \<and> requests s ! i = AwaitPermit"
  by (simp add: pending_ok_def list_all_iff awaits_def)

lemma map_of_pending: "map_of (waiters s) i = Some w \<Longrightarrow> i \<in> set (pending s)"
  by (force simp: pending_def dest: map_of_SomeD)

lemma process_queue_balanced:
  assumes "ieee_rounding rnd" "exact_below rnd cap"
  shows "balanced cap s (process_queue rnd e now s) (pending_ok s)"
proof (cases "processor_alive s \<and> queue s \<noteq> [] \<and> rate_limiter s \<noteq> None")
  case False
  then have "process_queue rnd e now s = s"
    by (auto simp: process_queue_def split: bool.splits list.splits option.splits)
  then show ?thesis by simp
next
  case True
  then obtain qat i rest b where q: "processor_alive s" "queue s = (qat, i) # rest" "rate_limiter s = Some b"
    by (cases "queue s") auto
  obtain ok b' where t: "try_acquire rnd now 1 b = (ok, b')" by (cases "try_acquire rnd now 1 b")
  note pure = try_acquire_pure [OF assms _ t]
  have i: "i \<in> set (pending s)" using q by (simp add: pending_def)
  consider "queue_timeout s \<le> e - qat" | "\<not> queue_timeout s \<le> e - qat" ok | "\<not> queue_timeout s \<le> e - qat" "\<not> ok"
    by blast
  then show ?thesis
  proof cases
    case 1
    with q show ?thesis by (intro balanced_same) (simp_all add: process_queue_def Let_def holders_send_permit)
  next
    case 2
    with q t have "process_queue rnd e now s =
        send_permit i PermitOk (s\<lparr>queue := rest, rate_limiter := Some b'\<rparr>)"
      by (simp add: process_queue_def Let_def)
    moreover have "balanced cap s (send_permit i PermitOk (s\<lparr>queue := rest, rate_limiter := Some b'\<rparr>)) (pending_ok s)"
      by (rule balanced_grant [OF q(3)]) (use pure 2 pending_okD [OF _ i] in auto)
    ultimately show ?thesis by simp
  next
    case 3
    with q t pure show ?thesis
      by (intro balanced_keep [OF q(3), where b' = b']) (simp_all add: process_queue_def Let_def)
  qed
qed

lemma waiter_start_balanced:
  assumes "ieee_rounding rnd" "exact_below rnd cap"
  shows "balanced cap s (waiter_start rnd i st now w now' s) (pending_ok s)"
proof (cases "\<exists>r b. map_of (waiters s) i = Some (Spawned r) \<and> rate_limiter s = Some b")
  case False
  then have "waiter_start rnd i st now w now' s = s"
    by (auto simp: waiter_start_def split: option.splits waiter.splits)
  then show ?thesis by simp
next
  case True
  then obtain r b where q: "map_of (waiters s) i = Some (Spawned r)" "rate_limiter s = Some b" by blast
  obtain a b' where t: "acquire_start rnd now w now' 1 b = (a, b')" by (cases "acquire_start rnd now w now' 1 b")
  note pure = acquire_start_pure [OF assms _ t]
  note i = map_of_pending [OF q(1)]
  show ?thesis
  proof (cases a)
    case Acquired
    have "balanced cap s (send_permit i PermitOk (remove_waiter i (s\<lparr>rate_limiter := Some b'\<rparr>))) (pending_ok s)"
      by (rule balanced_grant [OF q(2)]) (use pure Acquired pending_okD [OF _ i] in auto)
    with q t Acquired show ?thesis by (simp add: waiter_start_def)
  next
    case WaitNotified
    with q t pure show ?thesis
      by (intro balanced_keep [OF q(2), where b' = b']) (auto simp: waiter_start_def)
  next
    case (WaitUntil d)
    with q t pure show ?thesis
      by (intro balanced_keep [OF q(2), where b' = b']) (auto simp: waiter_start_def)
  qed
qed

lemma waiter_poll_balanced:
  assumes "ieee_rounding rnd" "exact_below rnd cap"
  shows "balanced cap s (waiter_poll rnd i now s) (pending_ok s)"
proof (cases "\<exists>r b. map_of (waiters s) i = Some (Waiting r) \<and> rate_limiter s = Some b")
  case False
  then have "waiter_poll rnd i now s = s"
    by (auto simp: waiter_poll_def split: option.splits waiter.splits)
  then show ?thesis by simp
next
  case True
  then obtain r b where q: "map_of (waiters s) i = Some (Waiting r)" "rate_limiter s = Some b" by blast
  obtain ok b' where t: "try_acquire rnd now 1 b = (ok, b')" by (cases "try_acquire rnd now 1 b")
  note pure = try_acquire_pure [OF assms _ t]
  note i = map_of_pending [OF q(1)]
  show ?thesis
  proof (cases ok)
    case True
    have "balanced cap s (send_permit i PermitOk (remove_waiter i (s\<lparr>rate_limiter := Some b'\<rparr>))) (pending_ok s)"
      by (rule balanced_grant [OF q(2)]) (use pure True pending_okD [OF _ i] in auto)
    with q t True show ?thesis by (simp add: waiter_poll_def)
  next
    case False
    with q t pure show ?thesis by (intro balanced_keep [OF q(2), where b' = b']) (auto simp: waiter_poll_def)
  qed
qed

lemma waiter_expire_balanced: "balanced cap s (waiter_expire i now s) exact"
  by (rule balanced_same) (simp_all add: waiter_expire_def holders_send_permit split: option.splits waiter.splits)

lemma fold_send_closed:
  "rate_limiter (fold (\<lambda>(_, i). send_permit i PermitClosed) q s) = rate_limiter s \<and>
   holders (fold (\<lambda>(_, i). send_permit i PermitClosed) q s) = holders s"
  by (induction q arbitrary: s) (auto simp: holders_send_permit)

lemma processor_gone_balanced: "balanced cap s (processor_gone s) exact"
  by (rule balanced_same) (simp_all add: processor_gone_def fold_send_closed)

lemma resume_balanced: "balanced cap s (resume i s) exact"
  by (rule balanced_same) (simp_all add: resume_def holders_set_phase_same split: phase.splits)

lemma respond_balanced: "balanced cap s (respond i s) exact"
  by (rule balanced_same) (simp_all add: respond_def holders_set_phase_same split: phase.splits)

lemma disconnect_balanced: "balanced cap s (disconnect i s) False"
proof (rule balancedI)
  fix n b assume "rate_limiter s = Some b" "pure_bucket cap n b"
  moreover have "holders (disconnect i s) \<le> holders s"
    using holders_set_phase [of i s Dropped] by (auto simp: disconnect_def)
  ultimately show "\<exists>n' b'. rate_limiter (disconnect i s) = Some b' \<and> pure_bucket cap n' b' \<and>
      n' + holders (disconnect i s) \<le> n + holders s \<and> (False \<longrightarrow> n' + holders (disconnect i s) = n + holders s)"
    by (intro exI [of _ n] exI [of _ b]) (auto simp: disconnect_def)
qed

lemma drop_body_balanced:
  assumes "exact_below rnd cap"
  shows "balanced cap s (drop_body rnd i s) exact"
proof (cases "i < length (requests s) \<and> requests s ! i = Body True")
  case False
  show ?thesis
    by (rule balanced_same)
       (use False holders_set_phase [of i s Finished] in \<open>auto simp: drop_body_def split: phase.splits\<close>)
next
  case True
  show ?thesis
  proof (rule balancedI)
    fix n b assume b: "rate_limiter s = Some b" "pure_bucket cap n b" "n + holders s \<le> cap"
    have "holders (set_phase i Finished s) + 1 = holders s"
      using holders_set_phase [of i s Finished] True by simp
    moreover have "pure_bucket cap (Suc n) (return_tokens_sync rnd 1 b)"
      using b True holders_positive [of i s] by (intro return_tokens_pure [OF assms]) simp_all
    ultimately show "\<exists>n' b'. rate_limiter (drop_body rnd i s) = Some b' \<and> pure_bucket cap n' b' \<and>
        n' + holders (drop_body rnd i s) \<le> n + holders s \<and>
        (exact \<longrightarrow> n' + holders (drop_body rnd i s) = n + holders s)"
      using True b
      by (intro exI [of _ "Suc n"] exI [of _ "return_tokens_sync rnd 1 b"])
         (auto simp: drop_body_def holders_def set_phase_def)
  qed
qed

lemma limiter_step_balanced:
  assumes "ieee_rounding rnd" "exact_below rnd cap"
  shows "balanced cap s (limiter_step rnd s e) (pending_ok s \<and> \<not> is_disconnect e)"
proof (cases e)
  case (Disconnect i)
  then show ?thesis using disconnect_balanced by simp
qed (use assms arrive_balanced process_queue_balanced waiter_start_balanced waiter_poll_balanced
    waiter_expire_balanced processor_gone_balanced resume_balanced respond_balanced drop_body_balanced
    in simp_all)

lemma pending_simps [simp]:
  "pending (s\<lparr>rate_limiter := b\<rparr>) = pending s" "pending (add_request p s) = pending s"
  "pending (set_phase i p s) = pending s" "pending (record_rate l s) = pending s"
  "pending (send_permit i p s) = pending s" "pending (s\<lparr>requests := rs\<rparr>) = pending s"
  by (simp_all add: pending_def add_request_def set_phase_def record_rate_def send_permit_def)

lemma awaits_update: "awaits rs j \<Longrightarrow> i \<noteq> j \<or> rs ! i \<noteq> AwaitPermit \<Longrightarrow> awaits (rs[i := p]) j"
  by (auto simp: awaits_def nth_list_update)

lemma awaits_append [simp]: "awaits rs j \<Longrightarrow> awaits (rs @ [p]) j"
  by (simp add: awaits_def nth_append)

lemma requests_send_permit:
  "requests (send_permit i p s) = (if awaits (requests s) i then (requests s)[i := p] else requests s)"
  by (simp add: send_permit_def awaits_def set_phase_def)

lemma awaits_send_permit:
  "awaits (requests s) j \<Longrightarrow> i \<noteq> j \<Longrightarrow> awaits (requests (send_permit i p s)) j"
  by (simp add: requests_send_permit awaits_update)

lemma pending_ok_shrink:
  assumes "pending_ok s" "distinct (pending s')"
    and "\<And>j. j \<in> set (pending s') \<Longrightarrow> j \<in> set (pending s)"
    and "\<And>j. j \<in> set (pending s') \<Longrightarrow> awaits (requests s) j \<Longrightarrow> awaits (requests s') j"
  shows "pending_ok s'"
  using assms by (auto simp: pending_ok_def list_all_iff)

text \<open>A request leaves the pending ones and gets its answer.\<close>

lemma pending_ok_answer:
  assumes "pending_ok s" "pending s' = remove1 i (pending s)" "requests s' = requests s"
  shows "pending_ok (send_permit i p s')"
  using assms
  by (intro pending_ok_shrink [OF assms(1)])
     (auto simp: pending_ok_def awaits_send_permit)

lemma pending_ok_set_phase:
  assumes "pending_ok s" "requests s ! i \<noteq> AwaitPermit"
  shows "pending_ok (set_phase i p s)"
  using assms
  by (intro pending_ok_shrink [OF assms(1)])
     (auto simp: pending_ok_def set_phase_def intro: awaits_update)

lemma pending_ok_same:
  "pending_ok s \<Longrightarrow> pending s' = pending s \<Longrightarrow> requests s' = requests s \<Longrightarrow> pending_ok s'"
  by (simp add: pending_ok_def)

lemma remove_waiter_pending:
  assumes "pending_ok s" "map_of (waiters s) i = Some w"
  shows "pending (remove_waiter i (s\<lparr>rate_limiter := b\<rparr>)) = remove1 i (pending s)"
    "pending (remove_waiter i s) = remove1 i (pending s)"
proof -
  have i: "i \<in> fst ` set (waiters s)" using assms(2) by (force dest: map_of_SomeD)
  have "distinct (map fst (waiters s))" "i \<notin> snd ` set (queue s)"
    using assms(1) i by (auto simp: pending_ok_def pending_def)
  moreover have "map fst (filter (\<lambda>w. fst w \<noteq> i) ws) = filter ((\<noteq>) i) (map fst ws)" for ws :: "(nat \<times> waiter) list"
    by (induction ws) auto
  ultimately have "map snd (queue s) @ map fst (filter (\<lambda>w. fst w \<noteq> i) (waiters s)) = remove1 i (pending s)"
    using i by (simp add: pending_def remove1_append distinct_remove1_removeAll removeAll_filter_not_eq)
  then show "pending (remove_waiter i (s\<lparr>rate_limiter := b\<rparr>)) = remove1 i (pending s)"
    "pending (remove_waiter i s) = remove1 i (pending s)"
    by (simp_all add: pending_def remove_waiter_def)
qed

lemma arrive_pending:
  assumes "pending_ok s"
  shows "pending_ok (arrive rnd mesh now qat s)"
proof -
  have add: "pending_ok s' \<Longrightarrow> pending_ok (add_request p s')" for p s'
    by (rule pending_ok_shrink [of s']) (auto simp: pending_ok_def add_request_def)
  have same: "pending_ok (s\<lparr>rate_limiter := b\<rparr>)" "pending_ok (record_rate l (s\<lparr>rate_limiter := b\<rparr>))" for b l
    using assms by (auto intro!: pending_ok_same [OF assms])
  have enq: "pending_ok (add_request AwaitPermit (s\<lparr>rate_limiter := b, queue := queue s @ [(qat, length (requests s))]\<rparr>))" for b
    using assms
    by (auto simp: pending_ok_def pending_def add_request_def list_all_iff awaits_def nth_append
        intro: less_SucI)
  show ?thesis
    using assms by (auto simp: arrive_def Let_def intro!: add same enq split: option.splits prod.splits bool.splits)
qed

lemma process_queue_pending:
  assumes "pending_ok s"
  shows "pending_ok (process_queue rnd e now s)"
proof (cases "processor_alive s \<and> queue s \<noteq> [] \<and> rate_limiter s \<noteq> None")
  case False
  then have "process_queue rnd e now s = s"
    by (auto simp: process_queue_def split: bool.splits list.splits option.splits)
  with assms show ?thesis by simp
next
  case True
  then obtain qat i rest b where q: "processor_alive s" "queue s = (qat, i) # rest" "rate_limiter s = Some b"
    by (cases "queue s") auto
  obtain ok b' where t: "try_acquire rnd now 1 b = (ok, b')" by (cases "try_acquire rnd now 1 b")
  have ans: "pending_ok (send_permit i p (s\<lparr>queue := rest\<rparr>))" 
    "pending_ok (send_permit i p (s\<lparr>queue := rest, rate_limiter := b\<rparr>))" for p b
    by (rule pending_ok_answer [OF assms]; simp add: pending_def q)+
  have wait: "pending_ok (s\<lparr>queue := rest, rate_limiter := b, waiters := waiters s @ [(i, Spawned r)]\<rparr>)" for b r
    using assms by (auto simp: pending_ok_def pending_def q list_all_iff)
  show ?thesis using q t ans wait by (auto simp: process_queue_def Let_def split: bool.splits)
qed

lemma update_waiter_pending:
  assumes "pending_ok s" "map_of (waiters s) i = Some w"
  shows "pending_ok (s\<lparr>rate_limiter := b, waiters := AList.update i v (waiters s)\<rparr>)"
proof (rule pending_ok_same [OF assms(1)])
  have "i \<in> set (map fst (waiters s))" using assms(2) by (force dest: map_of_SomeD)
  then show "pending (s\<lparr>rate_limiter := b, waiters := AList.update i v (waiters s)\<rparr>) = pending s"
    by (simp add: pending_def AList.update_keys)
qed simp

lemma waiter_pending:
  assumes "pending_ok s"
  shows "pending_ok (waiter_start rnd i st now w now' s)" "pending_ok (waiter_poll rnd i now s)"
    "pending_ok (waiter_expire i now s)"
proof -
  have ans: "pending_ok (send_permit i p (remove_waiter i (s\<lparr>rate_limiter := b\<rparr>)))"
    "pending_ok (send_permit i p (remove_waiter i s))" if "map_of (waiters s) i = Some w" for p b w
    using that by (auto intro!: pending_ok_answer [OF assms] simp: remove_waiter_pending [OF assms])
  have same: "pending_ok (s\<lparr>rate_limiter := b\<rparr>)" for b by (rule pending_ok_same [OF assms]) simp_all
  show "pending_ok (waiter_start rnd i st now w now' s)" "pending_ok (waiter_poll rnd i now s)"
    "pending_ok (waiter_expire i now s)"
    using assms ans update_waiter_pending [OF assms] same
    by (auto simp: waiter_start_def waiter_poll_def waiter_expire_def
        split: option.splits waiter.splits prod.splits acquire_wait.splits bool.splits)
qed

lemma fold_closed_awaits:
  "awaits (requests s) j \<Longrightarrow> j \<notin> snd ` set q \<Longrightarrow>
     awaits (requests (fold (\<lambda>(_, i). send_permit i PermitClosed) q s)) j"
  by (induction q arbitrary: s) (auto simp: awaits_send_permit)

lemma fold_closed_pending: "pending (fold (\<lambda>(_, i). send_permit i PermitClosed) q s) = pending s"
  by (induction q arbitrary: s) auto

lemma processor_gone_pending:
  assumes "pending_ok s"
  shows "pending_ok (processor_gone s)"
proof -
  have p: "pending (processor_gone s) = map fst (waiters s)"
    by (simp add: processor_gone_def fold_closed_pending) (simp add: pending_def)
  show ?thesis
  proof (rule pending_ok_shrink [OF assms])
    show "distinct (pending (processor_gone s))"
      using assms by (simp add: p) (simp add: pending_ok_def pending_def)
  next
    fix j assume "j \<in> set (pending (processor_gone s))"
    then show "j \<in> set (pending s)" by (simp add: p) (simp add: pending_def)
  next
    fix j assume "j \<in> set (pending (processor_gone s))" "awaits (requests s) j"
    moreover from this assms have "j \<notin> snd ` set (queue s)"
      unfolding p by (auto simp: pending_ok_def pending_def)
    ultimately show "awaits (requests (processor_gone s)) j"
      by (simp add: processor_gone_def fold_closed_awaits)
  qed
qed

lemma pending_ok_step:
  assumes ok: "pending_ok s" and e: "\<not> is_disconnect e"
  shows "pending_ok (limiter_step rnd s e)"
proof -
  have rec: "pending_ok (record_rate l s)" for l by (rule pending_ok_same [OF ok]) simp_all
  have rl: "pending_ok (s\<lparr>rate_limiter := b\<rparr>)" for b by (rule pending_ok_same [OF ok]) simp_all
  show ?thesis using e
    by (cases e)
       (auto simp: ok rec rl arrive_pending process_queue_pending waiter_pending processor_gone_pending
         resume_def respond_def drop_body_def intro!: pending_ok_set_phase split: phase.splits)
qed

lemma balancedD:
  assumes "balanced cap s s' exact" "available_is cap n s" "n + holders s \<le> cap"
  obtains n' where "available_is cap n' s'" "n' + holders s' \<le> n + holders s"
    "exact \<Longrightarrow> n' + holders s' = n + holders s"
  using assms unfolding balanced_def by blast

lemma limiter_run_bound:
  assumes "ieee_rounding rnd" "exact_below rnd cap" "available_is cap n s" "n + holders s \<le> cap"
  shows "\<exists>n'. available_is cap n' (limiter_run rnd s es) \<and> n' + holders (limiter_run rnd s es) \<le> n + holders s"
  using assms(3,4)
proof (induction es arbitrary: n s)
  case (Cons e es)
  obtain n' where n': "available_is cap n' (limiter_step rnd s e)"
    "n' + holders (limiter_step rnd s e) \<le> n + holders s"
    by (rule balancedD [OF limiter_step_balanced [OF assms(1,2)] Cons.prems])
  from n'(2) Cons.prems(2) have "n' + holders (limiter_step rnd s e) \<le> cap" by linarith
  from Cons.IH [OF n'(1) this] n'(2) show ?case by (force simp: limiter_run_def)
qed (auto simp: limiter_run_def)

lemma limiter_run_exact:
  assumes "ieee_rounding rnd" "exact_below rnd cap" "available_is cap n s" "n + holders s \<le> cap"
    and "pending_ok s" "list_all (\<lambda>e. \<not> is_disconnect e) es"
  shows "\<exists>n'. available_is cap n' (limiter_run rnd s es) \<and> n' + holders (limiter_run rnd s es) = n + holders s"
  using assms(3-)
proof (induction es arbitrary: n s)
  case (Cons e es)
  obtain n' where n': "available_is cap n' (limiter_step rnd s e)"
    "n' + holders (limiter_step rnd s e) = n + holders s"
    by (rule balancedD [OF limiter_step_balanced [OF assms(1,2)] Cons.prems(1,2), of e])
       (use Cons.prems(3,4) in auto)
  from n'(2) Cons.prems(2) have "n' + holders (limiter_step rnd s e) \<le> cap" by linarith
  moreover have "pending_ok (limiter_step rnd s e)" using Cons.prems(3,4) by (intro pending_ok_step) auto
  ultimately show ?case
    using Cons.IH [OF n'(1)] Cons.prems(4) n'(2) by (force simp: limiter_run_def)
qed (auto simp: limiter_run_def)

lemma leak_step:
  assumes "is_leak s e"
  shows "rate_limiter (limiter_step rnd s e) = rate_limiter s" "Suc (holders (limiter_step rnd s e)) = holders s"
proof -
  obtain i where e: "e = Disconnect i" "i < length (requests s)"
    "requests s ! i = PermitOk \<or> requests s ! i = Running True" using assms by (cases e) auto
  then have d: "limiter_step rnd s e = set_phase i Dropped s" by (auto simp: disconnect_def)
  then show "rate_limiter (limiter_step rnd s e) = rate_limiter s" by (simp add: set_phase_def)
  have "holders (set_phase i Dropped s) + of_bool (holds_token (requests s ! i)) = holders s"
    using holders_set_phase [OF e(2), of Dropped] by simp
  with e(3) d show "Suc (holders (limiter_step rnd s e)) = holders s" by auto
qed

lemma limiter_run_leaks:
  assumes "ieee_rounding rnd" "exact_below rnd cap" "available_is cap n s" "n + holders s \<le> cap"
  shows "holders (limiter_run rnd s es) + leaks rnd s es \<le> n + holders s"
  using assms(3,4)
proof (induction es arbitrary: n s)
  case (Cons e es)
  have "\<exists>n'. available_is cap n' (limiter_step rnd s e)
      \<and> n' + holders (limiter_step rnd s e) + of_bool (is_leak s e) \<le> n + holders s"
  proof (cases "is_leak s e")
    case True
    with leak_step [OF True, of rnd] Cons.prems(1) show ?thesis
      by (intro exI [of _ n]) (simp add: available_is_def)
  next
    case False
    then show ?thesis
      by (auto intro: balancedD [OF limiter_step_balanced [OF assms(1,2)] Cons.prems])
  qed
  then obtain n' where n': "available_is cap n' (limiter_step rnd s e)"
    "n' + holders (limiter_step rnd s e) + of_bool (is_leak s e) \<le> n + holders s" by blast
  from n'(2) Cons.prems(2) have "n' + holders (limiter_step rnd s e) \<le> cap" by linarith
  from Cons.IH [OF n'(1) this] n'(2) show ?case by (simp add: limiter_run_def)
qed (simp add: limiter_run_def)

lemma new_limiter_available:
  assumes "ieee_rounding rnd" "exact_below rnd (unat cap)"
    and "s = new_limiter (Some (new_token_bucket rnd now cap 0)) qsize timeout"
  shows "available_is (unat cap) (unat cap) s" "holders s = 0" "pending_ok s"
  using rnd_zero [OF assms(1)] exact_belowD [OF assms(2) order.refl]
  by (simp_all add: assms(3) available_is_def pure_bucket_def new_limiter_def new_token_bucket_def Let_def
      holders_def pending_ok_def pending_def)

section \<open>Properties\<close>

text \<open>
  C3: with a zero refill rate the limiter is a semaphore. Whatever the interleaving of
  arrivals, queue processing, waiting tasks, timeouts, responses and disconnects, at most
  \<open>capacity\<close> requests own a token at any time.
\<close>

theorem limiter_is_semaphore:
  assumes "ieee_rounding rnd" and "exact_below rnd (unat cap)"
  shows "holders (limiter_run rnd (new_limiter (Some (new_token_bucket rnd now cap 0)) qsize timeout) es)
    \<le> unat cap"
  using limiter_run_bound [OF assms new_limiter_available(1) [OF assms refl, of now qsize timeout], of es]
    new_limiter_available(2) [OF assms refl, of now qsize timeout] by force

text \<open>Two tokens; the third request queues, is admitted when the first body ends.\<close>

theorem limiter_is_semaphore_witness:
  "holders (limiter_run (\<lambda>x. x) (new_limiter (Some (new_token_bucket (\<lambda>x. x) 0 2 0)) 1 5)
     [Arrive None 0 0, Arrive None 0 0, Arrive None 0 0, Respond 0, DropBody 0, ProcessQueue 1 1, Resume 2])
   \<le> 2"
  using limiter_is_semaphore [OF ieee_rounding_id exact_below_id, where now = 0 and cap = 2 and qsize = 1
    and timeout = 5 and es = "[Arrive None 0 0, Arrive None 0 0, Arrive None 0 0, Respond 0, DropBody 0,
      ProcessQueue 1 1, Resume 2]"] by simp

text \<open>
  C10: with a zero refill rate and a capacity whose tokens the rounding keeps exact, no token is lost or
  made up as long as no client disconnects before its response: the tokens in the bucket and
  those owned by requests always add up to the capacity, so once every response has been delivered
  the bucket is full again. (\<open>maybe_rate_limiter\<close> never builds a bucket with a zero rate; with another
  rate the bucket also fills with time.)
\<close>

theorem limiter_conserves_tokens:
  assumes "ieee_rounding rnd" and "exact_below rnd (unat cap)"
    and "list_all (\<lambda>e. \<not> is_disconnect e) es"
  shows "case rate_limiter (limiter_run rnd (new_limiter (Some (new_token_bucket rnd now cap 0)) qsize timeout) es) of
      None \<Rightarrow> False
    | Some b \<Rightarrow> tokens b + of_nat (holders (limiter_run rnd
        (new_limiter (Some (new_token_bucket rnd now cap 0)) qsize timeout) es)) = of_nat (unat cap)"
proof -
  let ?s = "new_limiter (Some (new_token_bucket rnd now cap 0)) qsize timeout"
  note new = new_limiter_available [OF assms(1,2) refl, of now qsize timeout]
  from new(2) have "unat cap + holders ?s \<le> unat cap" by simp
  from limiter_run_exact [OF assms(1,2) new(1) this new(3) assms(3)] obtain n
    where n: "available_is (unat cap) n (limiter_run rnd ?s es)"
      "n + holders (limiter_run rnd ?s es) = unat cap" using new(2) by auto
  from n(2) have "rat_of_nat n + of_nat (holders (limiter_run rnd ?s es)) = of_nat (unat cap)"
    by (metis of_nat_add)
  with n(1) show ?thesis by (simp add: available_is_def pure_bucket_def split: option.splits)
qed

theorem limiter_conserves_tokens_witness:
  "case rate_limiter (limiter_run (\<lambda>x. x) (new_limiter (Some (new_token_bucket (\<lambda>x. x) 0 2 0)) 1 5)
     [Arrive None 0 0, Respond 0, DropBody 0]) of
      None \<Rightarrow> False
    | Some b \<Rightarrow> tokens b + of_nat (holders (limiter_run (\<lambda>x. x)
        (new_limiter (Some (new_token_bucket (\<lambda>x. x) 0 2 0)) 1 5) [Arrive None 0 0, Respond 0, DropBody 0])) = 2"
  using limiter_conserves_tokens [OF ieee_rounding_id exact_below_id, where now = 0 and cap = 2 and qsize = 1
    and timeout = 5 and es = "[Arrive None 0 0, Respond 0, DropBody 0]"]
  by (simp split: option.splits)

text \<open>
  C16: a client that disconnects while its request owns a token and has no response yet takes the token
  with it: no guard exists before the response, and nothing else returns the token. With a zero refill
  rate the loss is for good: after any run, the requests that own a token and the disconnects
  of this kind add up to at most the capacity, so after \<open>capacity\<close> of them no request is ever served again.
\<close>

theorem disconnect_leaks_token:
  assumes "ieee_rounding rnd" and "exact_below rnd (unat cap)"
    and "s = new_limiter (Some (new_token_bucket rnd now cap 0)) qsize timeout"
  shows "holders (limiter_run rnd s es) + leaks rnd s es \<le> unat cap"
  using limiter_run_leaks [OF assms(1,2) new_limiter_available(1) [OF assms]] new_limiter_available(2) [OF assms]
  by simp

text \<open>One of two tokens is lost, so that only one of the two later requests gets one.\<close>

theorem disconnect_leaks_token_witness:
  "holders (limiter_run (\<lambda>x. x) (new_limiter (Some (new_token_bucket (\<lambda>x. x) 0 2 0)) 1 5)
    [Arrive None 0 0, Disconnect 0, Arrive None 9 9, Arrive None 9 9, ProcessQueue 9 9]) \<le> 1"
proof -
  let ?s = "new_limiter (Some (new_token_bucket (\<lambda>x. x) 0 2 0)) 1 5"
  let ?es = "[Arrive None 0 0, Disconnect 0, Arrive None 9 9, Arrive None 9 9, ProcessQueue 9 9]"
  have "leaks (\<lambda>x. x) ?s ?es = 1"
    by (simp add: new_limiter_def new_token_bucket_def Let_def arrive_def try_acquire_def
        try_acquire_sync_def refill_def as_secs_f64_exact add_request_def record_rate_def)
  with disconnect_leaks_token [OF ieee_rounding_id exact_below_id refl, where now = 0 and cap = 2 and qsize = 1
      and timeout = 5 and es = ?es] show ?thesis by simp
qed

text \<open>
  a configured refill rate of zero, which the validation of the configuration accepts as
  \<open>pure concurrency limiting\<close>, is replaced by the number of concurrent requests when the
  limiter is built. Tokens then come back both with time and with responses, and more
  requests run at once than configured: with \<open>max_concurrent_requests = 1\<close>, two that arrive a
  second apart.
\<close>

theorem zero_rate_is_not_a_semaphore:
  "maybe_rate_limiter (\<lambda>x. x) 0 1 (Some 0) = Some (new_token_bucket (\<lambda>x. x) 0 1 1) \<and>
   holders (limiter_run (\<lambda>x. x) (new_limiter (maybe_rate_limiter (\<lambda>x. x) 0 1 (Some 0)) 0 0)
     [Arrive None 0 0, Arrive None 1000000000 0]) = 2"
proof -
  have "maybe_rate_limiter (\<lambda>x. x) 0 1 (Some 0) = Some (new_token_bucket (\<lambda>x. x) 0 1 1)"
    by (simp add: maybe_rate_limiter_def)
  then show ?thesis
    by (simp add: limiter_run_def new_limiter_def new_token_bucket_def Let_def arrive_def try_acquire_def
        try_acquire_sync_def refill_def as_secs_f64_exact add_request_def record_rate_def holders_def)
qed

end
