(* ===== verification/Resilience.thy ===== *)
theory Resilience
  imports CircuitBreaker
begin

text \<open>
  Retries with exponential backoff (\<open>model_gateway/src/routers/common/retry.rs\<close>) and the
  merge of router defaults with per-worker overrides
  (\<open>model_gateway/src/worker/resilience.rs\<close>). Configuration floats are rationals; \<open>f32\<close>
  results go through a rounding function, \<open>f32::powi\<close> is a parameter because its precision is
  left open by the language, and the random jitter is an argument. The operation under retry
  is a state transformer, so that it may have side effects.
\<close>

section \<open>Model\<close>

record retry_config =
  max_retries :: u32
  initial_backoff_ms :: u64
  max_backoff_ms :: u64
  backoff_multiplier :: rat
  jitter_factor :: rat

definition default_retry_config :: retry_config where
  "default_retry_config =
     \<lparr>max_retries = 5, initial_backoff_ms = 50, max_backoff_ms = 30000,
      backoff_multiplier = 3 / 2, jitter_factor = 1 / 5\<rparr>"

definition DEFAULT_RETRYABLE_STATUS_CODES :: "u16 list" where
  "DEFAULT_RETRYABLE_STATUS_CODES = [408, 429, 500, 502, 503, 504]"

text \<open>
  Named status codes: request timeout, too many requests, internal server error, bad gateway,
  service unavailable, gateway timeout.
\<close>

definition is_retryable_status :: "u16 \<Rightarrow> bool" where
  "is_retryable_status status \<longleftrightarrow>
     status = 408 \<or> status = 429 \<or> status = 500 \<or> status = 502 \<or> status = 503 \<or> status = 504"

text \<open>\<open>x as u64\<close> and \<open>x as i64\<close> on a float truncate towards zero and saturate.\<close>

definition trunc :: "rat \<Rightarrow> int" where
  "trunc x = (if 0 \<le> x then \<lfloor>x\<rfloor> else \<lceil>x\<rceil>)"

definition float_as_u64 :: "rat \<Rightarrow> u64" where
  "float_as_u64 x = word_of_int (max 0 (min (2 ^ 64 - 1) (trunc x)))"

definition float_as_i64 :: "rat \<Rightarrow> i64" where
  "float_as_i64 x = word_of_int (max (- (2 ^ 63)) (min (2 ^ 63 - 1) (trunc x)))"

text \<open>\<open>f32::round\<close>: half-way cases away from zero.\<close>

definition round_half_away :: "rat \<Rightarrow> rat" where
  "round_half_away x = (if 0 \<le> x then of_int \<lfloor>x + 1 / 2\<rfloor> else - of_int \<lfloor>- x + 1 / 2\<rfloor>)"

definition base_delay_ms ::
  "(rat \<Rightarrow> rat) \<Rightarrow> (rat \<Rightarrow> int \<Rightarrow> rat) \<Rightarrow> retry_config \<Rightarrow> u32 \<Rightarrow> u64" where
  "base_delay_ms rnd pw cfg attempt =
     (let pow = pw (backoff_multiplier cfg) (sint attempt)
      in min (float_as_u64 (rnd (rnd (of_nat (unat (initial_backoff_ms cfg))) * pow)))
           (max_backoff_ms cfg))"

definition calculate_delay ::
  "(rat \<Rightarrow> rat) \<Rightarrow> (rat \<Rightarrow> int \<Rightarrow> rat) \<Rightarrow> rat \<Rightarrow> retry_config \<Rightarrow> u32 \<Rightarrow> duration" where
  "calculate_delay rnd pw jitter_scale cfg attempt =
     (let delay_ms = base_delay_ms rnd pw cfg attempt;
          jitter = max 0 (min 1 (jitter_factor cfg))
      in if 0 < jitter then
           (let d = rnd (of_nat (unat delay_ms));
                jitter_ms = max (round_half_away (rnd (d * jitter_scale))) (- d);
                sum = delay_ms + float_as_i64 jitter_ms;
                adjusted = (if sint sum < 0 then 0 else sum)
            in from_millis adjusted)
         else from_millis delay_ms)"

datatype retry_error = MaxRetriesExceeded

text \<open>What a retry loop does that can be observed from outside, in order.\<close>

datatype 'r retry_event =
    Attempted u32 'r
  | Backoff duration u32
  | Slept duration
  | Exhausted

definition retry_max :: "retry_config \<Rightarrow> u32" where
  "retry_max cfg = max (max_retries cfg) 1"

definition retry_measure :: "u32 \<Rightarrow> u32 \<Rightarrow> nat" where
  "retry_measure maxr a = (if a = - 1 then 2 ^ 33 else unat maxr - unat a)"

lemma retry_measure_decreases:
  "\<not> maxr \<le> a + 1 \<Longrightarrow> retry_measure maxr (a + 1) < retry_measure maxr a"
proof -
  assume less: "\<not> maxr \<le> a + 1"
  then have "a + 1 < maxr" by simp
  then have ne: "a + 1 \<noteq> - 1" using word_order.extremum_strict by fastforce
  have bound: "unat maxr < 2 ^ 32" using unsigned_less [of maxr] by simp
  show ?thesis
  proof (cases "a = - 1")
    case True
    with bound show ?thesis by (simp add: retry_measure_def)
  next
    case False
    then have "unat (a + 1) = Suc (unat a)" by (rule unat_Suc_not_max)
    with less ne False show ?thesis by (simp add: retry_measure_def word_le_nat_alt)
  qed
qed

text \<open>
  The loops. The attempt counter is a 32-bit word; from 0 it stops below the maximum, so the
  increment does not wrap.
\<close>

function retry_loop ::
  "u32 \<Rightarrow> (u32 \<Rightarrow> duration) \<Rightarrow> (u32 \<Rightarrow> 's \<Rightarrow> 't option \<times> 's) \<Rightarrow> u32 \<Rightarrow> 's \<Rightarrow>
   (retry_error + 't) \<times> 's \<times> 't option retry_event list" where
  "retry_loop maxr delay op attempt s =
     (case op attempt s of
        (Some val, s') \<Rightarrow> (Inr val, s', [Attempted attempt (Some val)])
      | (None, s') \<Rightarrow>
          if maxr \<le> attempt + 1 then (Inl MaxRetriesExceeded, s', [Attempted attempt None])
          else
            (case retry_loop maxr delay op (attempt + 1) s' of (r, s'', es) \<Rightarrow>
               (r, s'', Attempted attempt None # Slept (delay attempt) # es)))"
  by pat_completeness auto
termination
  by (relation "measure (\<lambda>(maxr, _, _, a, _). retry_measure maxr a)")
     (simp_all add: retry_measure_decreases)

text \<open>\<open>scale a\<close> is the jitter drawn when attempt \<open>a\<close> fails.\<close>

definition execute_with_retry ::
  "(rat \<Rightarrow> rat) \<Rightarrow> (rat \<Rightarrow> int \<Rightarrow> rat) \<Rightarrow> (u32 \<Rightarrow> rat) \<Rightarrow> retry_config \<Rightarrow>
   (u32 \<Rightarrow> 's \<Rightarrow> 't option \<times> 's) \<Rightarrow> 's \<Rightarrow>
   (retry_error + 't) \<times> 's \<times> 't option retry_event list" where
  "execute_with_retry rnd pw scale cfg op s =
     retry_loop (retry_max cfg) (\<lambda>a. calculate_delay rnd pw (scale a) cfg a) op 0 s"

function retry_response_loop ::
  "u32 \<Rightarrow> (u32 \<Rightarrow> duration) \<Rightarrow> (u32 \<Rightarrow> 's \<Rightarrow> 'r \<times> 's) \<Rightarrow> ('r \<Rightarrow> u32 \<Rightarrow> bool) \<Rightarrow> u32 \<Rightarrow> 's \<Rightarrow>
   'r \<times> 's \<times> 'r retry_event list" where
  "retry_response_loop maxr delay op should_retry attempt s =
     (case op attempt s of (response, s') \<Rightarrow>
        if \<not> should_retry response attempt then (response, s', [Attempted attempt response])
        else if maxr \<le> attempt + 1 then (response, s', [Attempted attempt response, Exhausted])
        else
          (case retry_response_loop maxr delay op should_retry (attempt + 1) s' of (r, s'', es) \<Rightarrow>
             (r, s'', Attempted attempt response # Backoff (delay attempt) (attempt + 1)
                # Slept (delay attempt) # es)))"
  by pat_completeness auto
termination
  by (relation "measure (\<lambda>(maxr, _, _, _, a, _). retry_measure maxr a)")
     (simp_all add: retry_measure_decreases)

definition execute_response_with_retry ::
  "(rat \<Rightarrow> rat) \<Rightarrow> (rat \<Rightarrow> int \<Rightarrow> rat) \<Rightarrow> (u32 \<Rightarrow> rat) \<Rightarrow> retry_config \<Rightarrow>
   (u32 \<Rightarrow> 's \<Rightarrow> 'r \<times> 's) \<Rightarrow> ('r \<Rightarrow> u32 \<Rightarrow> bool) \<Rightarrow> 's \<Rightarrow> 'r \<times> 's \<times> 'r retry_event list" where
  "execute_response_with_retry rnd pw scale cfg op should_retry s =
     retry_response_loop (retry_max cfg) (\<lambda>a. calculate_delay rnd pw (scale a) cfg a) op
       should_retry 0 s"

declare retry_loop.simps [simp del] retry_response_loop.simps [simp del]

record resilience_update =
  u_max_retries :: "u32 option"
  u_initial_backoff_ms :: "u64 option"
  u_max_backoff_ms :: "u64 option"
  u_backoff_multiplier :: "rat option"
  u_jitter_factor :: "rat option"
  u_disable_retry :: "bool option"
  u_cb_failure_threshold :: "u32 option"
  u_cb_success_threshold :: "u32 option"
  u_cb_timeout_secs :: "u64 option"
  u_cb_window_secs :: "u64 option"
  u_disable_circuit_breaker :: "bool option"
  u_retryable_status_codes :: "u16 list option"

definition resilience_update_is_empty :: "resilience_update \<Rightarrow> bool" where
  "resilience_update_is_empty u \<longleftrightarrow>
     u_max_retries u = None \<and> u_initial_backoff_ms u = None \<and> u_max_backoff_ms u = None \<and>
     u_backoff_multiplier u = None \<and> u_jitter_factor u = None \<and> u_disable_retry u = None \<and>
     u_cb_failure_threshold u = None \<and> u_cb_success_threshold u = None \<and>
     u_cb_timeout_secs u = None \<and> u_cb_window_secs u = None \<and>
     u_disable_circuit_breaker u = None \<and> u_retryable_status_codes u = None"

record resolved_resilience =
  retry :: retry_config
  retry_enabled :: bool
  circuit_breaker_enabled :: bool
  retryable_status_codes :: "u16 set"

definition default_resolved_resilience :: resolved_resilience where
  "default_resolved_resilience =
     \<lparr>retry = default_retry_config, retry_enabled = True, circuit_breaker_enabled = True,
      retryable_status_codes = set DEFAULT_RETRYABLE_STATUS_CODES\<rparr>"

definition unwrap_or :: "'a option \<Rightarrow> 'a \<Rightarrow> 'a" where
  "unwrap_or x d = (case x of None \<Rightarrow> d | Some v \<Rightarrow> v)"

definition resolve_resilience ::
  "retry_config \<Rightarrow> circuit_breaker_config \<Rightarrow> bool \<Rightarrow> bool \<Rightarrow> resilience_update \<Rightarrow>
   resolved_resilience \<times> circuit_breaker_config" where
  "resolve_resilience base_retry base_cb base_retry_enabled base_cb_enabled u =
     (\<lparr>retry =
         \<lparr>max_retries = unwrap_or (u_max_retries u) (max_retries base_retry),
          initial_backoff_ms = unwrap_or (u_initial_backoff_ms u) (initial_backoff_ms base_retry),
          max_backoff_ms = unwrap_or (u_max_backoff_ms u) (max_backoff_ms base_retry),
          backoff_multiplier = unwrap_or (u_backoff_multiplier u) (backoff_multiplier base_retry),
          jitter_factor = unwrap_or (u_jitter_factor u) (jitter_factor base_retry)\<rparr>,
       retry_enabled = unwrap_or (map_option Not (u_disable_retry u)) base_retry_enabled,
       circuit_breaker_enabled =
         unwrap_or (map_option Not (u_disable_circuit_breaker u)) base_cb_enabled,
       retryable_status_codes =
         unwrap_or (map_option set (u_retryable_status_codes u)) (set DEFAULT_RETRYABLE_STATUS_CODES)\<rparr>,
      \<lparr>failure_threshold = unwrap_or (u_cb_failure_threshold u) (failure_threshold base_cb),
       success_threshold = unwrap_or (u_cb_success_threshold u) (success_threshold base_cb),
       timeout_duration =
         unwrap_or (map_option from_secs (u_cb_timeout_secs u)) (timeout_duration base_cb),
       window_duration =
         unwrap_or (map_option from_secs (u_cb_window_secs u)) (window_duration base_cb)\<rparr>)"

text \<open>The state a stateful operation is in after its first \<open>n\<close> attempts from attempt \<open>a\<close>.\<close>

fun op_state :: "(u32 \<Rightarrow> 's \<Rightarrow> 'r \<times> 's) \<Rightarrow> u32 \<Rightarrow> nat \<Rightarrow> 's \<Rightarrow> 's" where
  "op_state op a 0 s = s"
| "op_state op a (Suc n) s = op_state op (a + 1) n (snd (op a s))"

definition op_result :: "(u32 \<Rightarrow> 's \<Rightarrow> 'r \<times> 's) \<Rightarrow> u32 \<Rightarrow> nat \<Rightarrow> 's \<Rightarrow> 'r" where
  "op_result op a n s = fst (op (a + of_nat n) (op_state op a n s))"

text \<open>Everything a response loop does, from any starting attempt.\<close>

definition retry_events ::
  "(u32 \<Rightarrow> duration) \<Rightarrow> (u32 \<Rightarrow> 's \<Rightarrow> 'r \<times> 's) \<Rightarrow> u32 \<Rightarrow> 's \<Rightarrow> nat \<Rightarrow> 'r retry_event list" where
  "retry_events delay op a s n =
     concat (map (\<lambda>k. [Attempted (a + of_nat k) (op_result op a k s),
        Backoff (delay (a + of_nat k)) (a + of_nat (Suc k)), Slept (delay (a + of_nat k))]) [0..<n])"

definition retry_outcome :: "'t option \<Rightarrow> retry_error + 't" where
  "retry_outcome r = (case r of None \<Rightarrow> Inl MaxRetriesExceeded | Some v \<Rightarrow> Inr v)"

fun is_callback :: "'r retry_event \<Rightarrow> bool" where
  "is_callback (Backoff d a) = True"
| "is_callback Exhausted = True"
| "is_callback e = False"

definition flaky_op :: "u32 \<Rightarrow> nat \<Rightarrow> u16 \<times> nat" where
  "flaky_op a s = (if s < 2 then 503 else 200, Suc s)"

section \<open>Lemmas\<close>

lemma op_result_Suc: "op_result op a (Suc n) s = op_result op (a + 1) n (snd (op a s))"
  by (simp add: op_result_def add.assoc)

lemma op_result_0: "op_result op a 0 s = fst (op a s)"
  by (simp add: op_result_def)

lemma retry_events_Suc:
  "retry_events delay op a s (Suc n) =
     [Attempted a (fst (op a s)), Backoff (delay a) (a + 1), Slept (delay a)]
     @ retry_events delay op (a + 1) (snd (op a s)) n"
  unfolding retry_events_def
  by (simp only: upt_conv_Cons [of 0 "Suc n"] zero_less_Suc map_Suc_upt [symmetric] list.map concat.simps)
     (simp add: op_result_0 op_result_Suc comp_def add.assoc add.left_commute)

lemma retry_response_loop_spec:
  assumes "attempt < maxr"
  shows "\<exists>n. unat attempt + n < unat maxr \<and>
     (\<forall>k<n. should_retry (op_result op attempt k s) (attempt + of_nat k)) \<and>
     (should_retry (op_result op attempt n s) (attempt + of_nat n) \<longrightarrow> unat attempt + Suc n = unat maxr) \<and>
     retry_response_loop maxr delay op should_retry attempt s =
       (op_result op attempt n s, op_state op attempt (Suc n) s,
        retry_events delay op attempt s n @
          Attempted (attempt + of_nat n) (op_result op attempt n s) #
          (if should_retry (op_result op attempt n s) (attempt + of_nat n) then [Exhausted] else []))"
  using assms
proof (induction maxr delay op should_retry attempt s rule: retry_response_loop.induct)
  case (1 maxr delay op should_retry attempt s)
  obtain response s' where op: "op attempt s = (response, s')" by (cases "op attempt s")
  from "1.prems" have suc: "unat (attempt + 1) = Suc (unat attempt)"
    by (intro unat_Suc_no_wrap) (simp add: word_less_nat_alt)
  note loop = retry_response_loop.simps [of maxr delay op should_retry attempt s]
  show ?case
  proof (cases "should_retry response attempt \<and> \<not> maxr \<le> attempt + 1")
    case True
    then have "attempt + 1 < maxr" by (simp add: not_le)
    from "1.IH" [OF op [symmetric] _ _ this] True obtain n where n:
      "unat (attempt + 1) + n < unat maxr"
      "\<forall>k<n. should_retry (op_result op (attempt + 1) k s') (attempt + 1 + of_nat k)"
      "should_retry (op_result op (attempt + 1) n s') (attempt + 1 + of_nat n) \<longrightarrow>
         unat (attempt + 1) + Suc n = unat maxr"
      "retry_response_loop maxr delay op should_retry (attempt + 1) s' =
       (op_result op (attempt + 1) n s', op_state op (attempt + 1) (Suc n) s',
        retry_events delay op (attempt + 1) s' n @
          Attempted (attempt + 1 + of_nat n) (op_result op (attempt + 1) n s') #
          (if should_retry (op_result op (attempt + 1) n s') (attempt + 1 + of_nat n) then [Exhausted] else []))"
      by auto
    have shift: "attempt + 1 + of_nat k = attempt + of_nat (Suc k)" for k by simp
    have res: "op_result op (attempt + 1) k s' = op_result op attempt (Suc k) s" for k
      by (simp add: op_result_Suc op)
    show ?thesis
    proof (intro exI [of _ "Suc n"] conjI)
      show "\<forall>k<Suc n. should_retry (op_result op attempt k s) (attempt + of_nat k)"
        using n(2) True by (auto simp: less_Suc_eq_0_disj op_result_0 op res shift simp del: of_nat_Suc)
    qed (use n True suc in \<open>auto simp: loop op retry_events_Suc res shift simp del: of_nat_Suc\<close>)
  next
    case False
    with "1.prems" suc show ?thesis
      by (intro exI [of _ 0])
         (auto simp: loop op op_result_0 retry_events_def word_less_nat_alt word_le_nat_alt)
  qed
qed

lemma retry_loop_response_loop:
  "retry_loop maxr delay op attempt s =
     (case retry_response_loop maxr delay op (\<lambda>r _. r = None) attempt s of
        (r, s', es) \<Rightarrow> (retry_outcome r, s', filter (\<lambda>e. \<not> is_callback e) es))"
proof (induction maxr delay op attempt s rule: retry_loop.induct)
  case (1 maxr delay op attempt s)
  obtain r s' where op: "op attempt s = (r, s')" by (cases "op attempt s")
  show ?case
    using "1.IH" [OF op [symmetric]]
    by (subst retry_loop.simps, subst retry_response_loop.simps)
       (auto simp: op retry_outcome_def split: option.splits prod.splits)
qed

lemma round_half_away_mono: "x \<le> y \<Longrightarrow> round_half_away x \<le> round_half_away y"
proof -
  assume le: "x \<le> y"
  consider "0 \<le> x" | "x < 0" "0 \<le> y" | "y < 0" using le by linarith
  then show ?thesis
  proof cases
    case 1
    with le show ?thesis by (simp add: round_half_away_def floor_mono)
  next
    case 2
    then have "0 \<le> \<lfloor>- x + 1 / 2\<rfloor>" "0 \<le> \<lfloor>y + 1 / 2\<rfloor>" by simp_all
    then have "- rat_of_int \<lfloor>- x + 1 / 2\<rfloor> \<le> rat_of_int \<lfloor>y + 1 / 2\<rfloor>"
      by (simp flip: of_int_minus del: zero_le_floor)
    with 2 show ?thesis unfolding round_half_away_def by (auto simp del: zero_le_floor)
  next
    case 3
    with le show ?thesis by (simp add: round_half_away_def floor_mono)
  qed
qed

lemma round_half_away_minus: "round_half_away (- x) = - round_half_away x"
proof (cases x "0::rat" rule: linorder_cases)
  case equal
  have "\<lfloor>1 / 2 :: rat\<rfloor> = 0" by (simp add: floor_eq_iff)
  with equal show ?thesis by (simp add: round_half_away_def)
qed (simp_all add: round_half_away_def)

lemma round_half_away_of_int [simp]: "round_half_away (of_int k) = of_int k"
proof -
  have "\<lfloor>rat_of_int i + 1 / 2\<rfloor> = i" for i by (simp add: floor_unique)
  from this [of k] this [of "- k"] show ?thesis by (simp add: round_half_away_def)
qed

lemma round_half_away_int: "\<exists>k. round_half_away x = of_int k"
proof (cases "0 \<le> x")
  case True
  then show ?thesis by (auto simp: round_half_away_def)
next
  case False
  then have "round_half_away x = of_int (- \<lfloor>- x + 1 / 2\<rfloor>)" by (simp add: round_half_away_def)
  then show ?thesis by blast
qed

lemma float_as_i64_of_int:
  "- (2 ^ 63) \<le> k \<Longrightarrow> k < 2 ^ 63 \<Longrightarrow> float_as_i64 (of_int k) = word_of_int k"
proof -
  assume "- (2 ^ 63) \<le> k" "k < 2 ^ 63"
  then have "max (- (2 ^ 63)) (min (2 ^ 63 - 1) k) = k" by simp
  then show ?thesis by (simp add: float_as_i64_def trunc_def)
qed

lemma jitter_bounds:
  assumes rnd: "ieee_rounding rnd" and exact: "rnd (of_nat b) = of_nat b"
    and s: "- j \<le> s" "s \<le> j" and j: "j \<le> 1"
  obtains k where "round_half_away (rnd (of_nat b * s)) = of_int k"
    "\<bar>of_int k\<bar> \<le> round_half_away (rnd (of_nat b * j))" "\<bar>k\<bar> \<le> int b"
proof -
  let ?r = "\<lambda>x. round_half_away (rnd x)"
  have mono: "x \<le> y \<Longrightarrow> ?r x \<le> ?r y" for x y by (intro round_half_away_mono rnd_mono [OF rnd])
  have neg: "?r (- x) = - ?r x" for x by (simp add: rnd_minus [OF rnd] round_half_away_minus)
  have b: "?r (of_nat b) = of_nat b" using round_half_away_of_int [of "int b"] by (simp add: exact)
  obtain k where k: "?r (of_nat b * s) = of_int k" using round_half_away_int by blast
  have "of_nat b * s \<le> of_nat b * j" "- (of_nat b * j) \<le> of_nat b * s"
    using s by (simp_all add: mult_left_mono flip: mult_minus_right)
  from mono [OF this(1)] mono [OF this(2)] have kj: "\<bar>of_int k\<bar> \<le> ?r (of_nat b * j)"
    by (simp add: k neg abs_le_iff)
  have "of_nat b * j \<le> of_nat b" using j by (simp add: mult_left_le)
  from mono [OF this] kj have "\<bar>rat_of_int k\<bar> \<le> rat_of_int (int b)" by (simp add: b)
  then have "\<bar>k\<bar> \<le> int b" by linarith
  with k kj that show ?thesis by blast
qed

lemma word_of_int_small:
  assumes "0 \<le> x" "x < 2 ^ 63"
  shows "sint (word_of_int x :: i64) = x" "uint (word_of_int x :: i64) = x"
  using assms by (simp_all add: signed_of_int signed_take_bit_int_eq_self unsigned_of_int take_bit_int_eq_self)

lemma add_jitter:
  assumes k: "\<bar>k\<bar> \<le> uint d" and d: "unat (d :: i64) < 2 ^ 62"
  shows "sint (d + word_of_int k) = uint d + k" "uint (d + word_of_int k) = uint d + k"
proof -
  have "uint d < 2 ^ 62" using int_less_power2 [OF d] by simp
  with k have "0 \<le> uint d + k" "uint d + k < 2 ^ 63" by simp_all
  from word_of_int_small [OF this]
  show "sint (d + word_of_int k) = uint d + k" "uint (d + word_of_int k) = uint d + k"
    by simp_all
qed

lemma calculate_delay_jitter:
  assumes rnd: "ieee_rounding rnd" and exact: "exact_below rnd (unat (max_backoff_ms cfg))"
    and small: "unat (max_backoff_ms cfg) < 2 ^ 62"
    and s: "\<bar>s\<bar> \<le> max 0 (min 1 (jitter_factor cfg))"
  shows "\<exists>k. \<bar>of_int k\<bar> \<le> round_half_away (rnd (of_nat (unat (base_delay_ms rnd pw cfg a)) *
               max 0 (min 1 (jitter_factor cfg)))) \<and>
           \<bar>k\<bar> \<le> uint (base_delay_ms rnd pw cfg a) \<and>
           int (calculate_delay rnd pw s cfg a) = (uint (base_delay_ms rnd pw cfg a) + k) * 1000000"
proof -
  let ?d = "base_delay_ms rnd pw cfg a" and ?j = "max 0 (min 1 (jitter_factor cfg))"
  have le: "unat ?d \<le> unat (max_backoff_ms cfg)"
    by (simp add: base_delay_ms_def Let_def flip: word_le_nat_alt)
  with exact have ex: "rnd (of_nat (unat ?d)) = of_nat (unat ?d)" by (rule exact_belowD)
  have "- ?j \<le> s" "s \<le> ?j" "?j \<le> 1" using s by linarith+
  with rnd ex obtain k where k: "round_half_away (rnd (of_nat (unat ?d) * s)) = of_int k"
    "\<bar>of_int k\<bar> \<le> round_half_away (rnd (of_nat (unat ?d) * ?j))" "\<bar>k\<bar> \<le> uint ?d"
    by (rule jitter_bounds) simp
  have d62: "unat ?d < 2 ^ 62" using le small by simp
  have "int (calculate_delay rnd pw s cfg a) = (uint ?d + k) * 1000000"
  proof (cases "0 < ?j")
    case True
    have "uint ?d < 2 ^ 62" using int_less_power2 [OF d62] by simp
    then have kb: "- (2 ^ 63) \<le> k" "k < 2 ^ 63" using k(3) by simp_all
    have "rat_of_int (- uint ?d) \<le> of_int k" using k(3) by (subst of_int_le_iff) linarith
    then have m: "max (of_int k) (- of_nat (unat ?d)) = rat_of_int k" by simp
    have "\<not> uint ?d + k < 0" using k(3) by linarith
    then show ?thesis
      by (simp only: calculate_delay_def Let_def ex k(1) m float_as_i64_of_int [OF kb] True if_True
          add_jitter [OF k(3) d62] if_False) (simp add: from_millis_def add_jitter [OF k(3) d62])
  next
    case False
    with s have "s = 0" by linarith
    with k(1) have "k = 0" using rnd_zero [OF rnd] round_half_away_of_int [of 0] by simp
    with False show ?thesis by (simp add: calculate_delay_def Let_def from_millis_def)
  qed
  with k show ?thesis by blast
qed

lemma unwrap_or_map_option:
  "unwrap_or (map_option f x) d = (case x of None \<Rightarrow> d | Some v \<Rightarrow> f v)"
  by (cases x) (simp_all add: unwrap_or_def)

text \<open>
  Resolving an override keeps every default that is not overridden, and takes every value
  that is; a disabled flag wins over an enabled default. The retryable status codes of a worker
  without an override are exactly those that \<open>is_retryable_status\<close> accepts.
\<close>

lemma resolve_resilience_overrides:
  "case resolve_resilience r c re ce u of (resolved, cb) \<Rightarrow>
     (max_retries (retry resolved) = (case u_max_retries u of Some v \<Rightarrow> v | None \<Rightarrow> max_retries r) \<and>
      retry_enabled resolved = (case u_disable_retry u of Some d \<Rightarrow> \<not> d | None \<Rightarrow> re) \<and>
      circuit_breaker_enabled resolved = (case u_disable_circuit_breaker u of Some d \<Rightarrow> \<not> d | None \<Rightarrow> ce) \<and>
      timeout_duration cb = (case u_cb_timeout_secs u of Some v \<Rightarrow> from_secs v
         | None \<Rightarrow> timeout_duration c) \<and>
      retryable_status_codes resolved = (case u_retryable_status_codes u of Some cs \<Rightarrow> set cs
         | None \<Rightarrow> {s. is_retryable_status s}) \<and>
      (resilience_update_is_empty u \<longrightarrow> retry resolved = r \<and> cb = c))"
proof -
  have codes: "{s. is_retryable_status s} = set DEFAULT_RETRYABLE_STATUS_CODES"
    by (auto simp: is_retryable_status_def DEFAULT_RETRYABLE_STATUS_CODES_def)
  show ?thesis
    unfolding codes
    by (simp add: resolve_resilience_def unwrap_or_map_option) 
       (simp add: unwrap_or_def resilience_update_is_empty_def)
qed

section \<open>Properties\<close>

text \<open>
  C4: \<open>execute_response_with_retry\<close> always returns. It runs attempts 0, 1, \dots, n with n below
  \<open>max(max_retries, 1)\<close>, threading the state of the operation; every attempt before the last
  was judged retryable, the last one was not unless it was the final one allowed, and its
  response is what is returned. Between attempts it reports the backoff and sleeps for exactly
  the calculated delay; \<open>on_exhausted\<close> fires exactly when the returned response is retryable.
\<close>

theorem retry_returns_first_final:
  "\<exists>n < max (unat (max_retries cfg)) 1.
     (\<forall>k<n. should_retry (op_result op 0 k s) (of_nat k)) \<and>
     (should_retry (op_result op 0 n s) (of_nat n) \<longrightarrow> Suc n = max (unat (max_retries cfg)) 1) \<and>
     execute_response_with_retry rnd pw scale cfg op should_retry s =
       (op_result op 0 n s, op_state op 0 (Suc n) s,
        retry_events (\<lambda>a. calculate_delay rnd pw (scale a) cfg a) op 0 s n @
          Attempted (of_nat n) (op_result op 0 n s) #
          (if should_retry (op_result op 0 n s) (of_nat n) then [Exhausted] else []))"
proof -
  have pos: "0 < retry_max cfg"
    by (rule less_le_trans [of _ 1]) (simp_all add: retry_max_def)
  have m: "unat (retry_max cfg) = max (unat (max_retries cfg)) 1"
    by (simp add: retry_max_def max_def word_le_nat_alt)
  from retry_response_loop_spec [OF pos, of should_retry op s
      "\<lambda>a. calculate_delay rnd pw (scale a) cfg a"]
  show ?thesis
    unfolding execute_response_with_retry_def m unsigned_0 add_0 by blast
qed

text \<open>An operation that fails with 503 twice and then succeeds is retried until it does.\<close>

lemma flaky_op_result: "op_result flaky_op 0 n 0 = (if n < 2 then 503 else 200)"
proof -
  have "op_state flaky_op a n k = n + k" for a n k
    by (induction n arbitrary: a k) (simp_all add: flaky_op_def)
  then show ?thesis by (simp add: op_result_def) (simp add: flaky_op_def)
qed

theorem retry_returns_first_final_witness:
  "fst (execute_response_with_retry (\<lambda>x. x) (\<lambda>x n. x ^ nat n) (\<lambda>_. 0) default_retry_config flaky_op
      (\<lambda>r _. is_retryable_status r) 0) = 200"
proof -
  have m: "max (unat (max_retries default_retry_config)) 1 = 5" by (simp add: default_retry_config_def)
  obtain n where n: "is_retryable_status (op_result flaky_op 0 n 0) \<longrightarrow> Suc n = 5"
    and res: "fst (execute_response_with_retry (\<lambda>x. x) (\<lambda>x n. x ^ nat n) (\<lambda>_. 0) default_retry_config flaky_op
            (\<lambda>r _. is_retryable_status r) 0) = op_result flaky_op 0 n 0"
    using retry_returns_first_final [where cfg = default_retry_config and op = flaky_op and s = 0
      and should_retry = "\<lambda>r _. is_retryable_status r" and rnd = "\<lambda>x. x"
      and pw = "\<lambda>x n. x ^ nat n" and scale = "\<lambda>_. 0"]
    unfolding m by (metis fst_conv)
  have "\<not> n < 2"
  proof
    assume "n < 2"
    with n show False by (simp add: flaky_op_result is_retryable_status_def)
  qed
  then show ?thesis unfolding res by (simp add: flaky_op_result)
qed

text \<open>
  \<open>execute_with_retry\<close> is the response loop that retries exactly on \<open>Err(())\<close>, without its
  callbacks: same attempts, same sleeps, and an exhausted loop is \<open>MaxRetriesExceeded\<close>.
\<close>

theorem execute_with_retry_is_response_retry:
  "execute_with_retry rnd pw scale cfg op s =
     (case execute_response_with_retry rnd pw scale cfg op (\<lambda>r _. r = None) s of
        (r, s', es) \<Rightarrow> (retry_outcome r, s', filter (\<lambda>e. \<not> is_callback e) es))"
  unfolding execute_with_retry_def execute_response_with_retry_def by (rule retry_loop_response_loop)

text \<open>
  the delay before a retry. Take any monotone, odd rounding that is exact on the integers
  up to the maximal backoff. The delay is the exponential base, which never exceeds
  \<open>max_backoff_ms\<close>, shifted by a whole number of milliseconds that is at most the rounded
  \<open>jitter_factor\<close> (clamped to \<open>0..1\<close>) share of the base; no intermediate cast or sum wraps and
  the delay is at most twice the maximal backoff.
\<close>

theorem calculate_delay_bounds:
  assumes "ieee_rounding rnd" and "exact_below rnd (unat (max_backoff_ms cfg))"
    and "unat (max_backoff_ms cfg) < 2 ^ 62"
    and "\<bar>scale\<bar> \<le> max 0 (min 1 (jitter_factor cfg))"
  shows "base_delay_ms rnd pw cfg a \<le> max_backoff_ms cfg \<and>
     (\<exists>k. int (calculate_delay rnd pw scale cfg a) = (uint (base_delay_ms rnd pw cfg a) + k) * 1000000 \<and>
           \<bar>of_int k\<bar> \<le> round_half_away (rnd (of_nat (unat (base_delay_ms rnd pw cfg a)) *
               max 0 (min 1 (jitter_factor cfg))))) \<and>
     calculate_delay rnd pw scale cfg a \<le> 2 * from_millis (max_backoff_ms cfg)"
proof (intro conjI)
  show le: "base_delay_ms rnd pw cfg a \<le> max_backoff_ms cfg"
    by (simp add: base_delay_ms_def Let_def)
  from calculate_delay_jitter [OF assms, of pw a] obtain k where k:
    "int (calculate_delay rnd pw scale cfg a) = (uint (base_delay_ms rnd pw cfg a) + k) * 1000000"
    "\<bar>of_int k\<bar> \<le> round_half_away (rnd (of_nat (unat (base_delay_ms rnd pw cfg a)) *
       max 0 (min 1 (jitter_factor cfg))))" "\<bar>k\<bar> \<le> uint (base_delay_ms rnd pw cfg a)" by blast
  then show "\<exists>k. int (calculate_delay rnd pw scale cfg a) = (uint (base_delay_ms rnd pw cfg a) + k) * 1000000 \<and>
    \<bar>of_int k\<bar> \<le> round_half_away (rnd (of_nat (unat (base_delay_ms rnd pw cfg a)) *
       max 0 (min 1 (jitter_factor cfg))))" by blast
  have "uint (base_delay_ms rnd pw cfg a) \<le> uint (max_backoff_ms cfg)"
    using le by (simp add: word_le_def)
  with k(3) have "uint (base_delay_ms rnd pw cfg a) + k \<le> 2 * uint (max_backoff_ms cfg)" by linarith
  with k(1) have "int (calculate_delay rnd pw scale cfg a) \<le> int (2 * (unat (max_backoff_ms cfg) * 1000000))"
    by simp
  then show "calculate_delay rnd pw scale cfg a \<le> 2 * from_millis (max_backoff_ms cfg)"
    unfolding from_millis_def of_nat_le_iff .
qed

text \<open>With the default configuration, attempt 3 and a jitter draw of one tenth.\<close>

lemma default_base_delay_3:
  "base_delay_ms (\<lambda>x. x) (\<lambda>x n. x ^ nat n) default_retry_config 3 = 168"
proof -
  have fl: "\<lfloor>675 / 4 :: rat\<rfloor> = 168" by (simp add: floor_eq_iff)
  show ?thesis
    by (simp add: base_delay_ms_def default_retry_config_def float_as_u64_def trunc_def
        power3_eq_cube fl)
qed

lemma default_delay_3:
  "calculate_delay (\<lambda>x. x) (\<lambda>x n. x ^ nat n) (1 / 10) default_retry_config 3 = from_millis 185"
proof -
  have j: "jitter_factor default_retry_config = 1 / 5" by (simp add: default_retry_config_def)
  have r: "round_half_away (84 / 5) = 17" by (simp add: round_half_away_def floor_eq_iff)
  have i: "float_as_i64 17 = 17" using float_as_i64_of_int [of 17] by simp
  show ?thesis
    by (simp only: calculate_delay_def Let_def default_base_delay_3 j) (simp add: r i)
qed

theorem calculate_delay_bounds_witness:
  "calculate_delay (\<lambda>x. x) (\<lambda>x n. x ^ nat n) (1 / 10) default_retry_config 3 = from_millis 185 \<and>
   from_millis 185 \<le> 2 * from_millis 30000"
proof -
  have cfg: "max_backoff_ms default_retry_config = 30000" "jitter_factor default_retry_config = 1 / 5"
    by (simp_all add: default_retry_config_def)
  then have "unat (max_backoff_ms default_retry_config) < 2 ^ 62"
    "\<bar>1 / 10\<bar> \<le> max 0 (min 1 (jitter_factor default_retry_config))" by simp_all
  from calculate_delay_bounds [OF ieee_rounding_id exact_below_id this,
      where pw = "\<lambda>x n. x ^ nat n" and a = 3]
  show ?thesis unfolding default_delay_3 cfg by blast
qed

end
