(* ===== verification/Workers.thy ===== *)
theory Workers
  imports Resilience "HOL-Library.AList"
begin

text \<open>
  Workers (\<open>model_gateway/src/worker/worker.rs\<close>, with the types of
  \<open>crates/protocols/src/worker.rs\<close>). A worker is a shared object: the registry, its indexes and
  requests in flight hold references to it, and its runtime counters and its circuit breaker
  are shared references again, which a same-URL replacement moves to a new object. So the
  state is a heap with three stores: worker objects, runtimes and breakers, each addressed by a
  number. Gauges that are only published are left out here.
\<close>

section \<open>Model\<close>

datatype worker_status = Pending | Ready | NotReady | Failed

definition try_from_u8 :: "u8 \<Rightarrow> worker_status option" where
  "try_from_u8 v =
     (if v = 0 then Some Pending else if v = 1 then Some Ready
      else if v = 2 then Some NotReady else if v = 3 then Some Failed else None)"

definition from_u8 :: "u8 \<Rightarrow> worker_status" where
  "from_u8 v = (case try_from_u8 v of None \<Rightarrow> Pending | Some s \<Rightarrow> s)"

fun status_as_u8 :: "worker_status \<Rightarrow> u8" where
  "status_as_u8 Pending = 0"
| "status_as_u8 Ready = 1"
| "status_as_u8 NotReady = 2"
| "status_as_u8 Failed = 3"

fun is_routable :: "worker_status \<Rightarrow> bool" where
  "is_routable Ready = True"
| "is_routable _ = False"

datatype worker_type = Regular | Prefill | Decode

datatype connection_mode = Http | Grpc

datatype runtime_type = Unspecified | Sglang | Vllm | Trtllm | Mlx | External

datatype provider_type = OpenAI | XAI | Anthropic | Gemini | Custom string

record model_card =
  mc_id :: string
  mc_aliases :: "string list"

definition mc_matches :: "string \<Rightarrow> model_card \<Rightarrow> bool" where
  "mc_matches model_id c \<longleftrightarrow> mc_id c = model_id \<or> model_id \<in> set (mc_aliases c)"

datatype worker_models = Wildcard | Single model_card | Multi "model_card list"

fun is_wildcard :: "worker_models \<Rightarrow> bool" where
  "is_wildcard Wildcard = True"
| "is_wildcard _ = False"

fun models_primary :: "worker_models \<Rightarrow> model_card option" where
  "models_primary Wildcard = None"
| "models_primary (Single c) = Some c"
| "models_primary (Multi cs) = (case cs of [] \<Rightarrow> None | c # _ \<Rightarrow> Some c)"

fun models_all :: "worker_models \<Rightarrow> model_card list" where
  "models_all Wildcard = []"
| "models_all (Single c) = [c]"
| "models_all (Multi cs) = cs"

fun models_find :: "string \<Rightarrow> worker_models \<Rightarrow> model_card option" where
  "models_find i Wildcard = None"
| "models_find i (Single c) = (if mc_matches i c then Some c else None)"
| "models_find i (Multi cs) = find (mc_matches i) cs"

fun models_supports :: "string \<Rightarrow> worker_models \<Rightarrow> bool" where
  "models_supports i Wildcard = True"
| "models_supports i m = (models_find i m \<noteq> None)"

fun models_from :: "model_card list \<Rightarrow> worker_models" where
  "models_from [] = Wildcard"
| "models_from [c] = Single c"
| "models_from cs = Multi cs"

record health_check_config =
  h_timeout_secs :: u64
  h_check_interval_secs :: u64
  h_success_threshold :: u32
  h_failure_threshold :: u32
  h_disable_health_check :: bool

definition default_health_check_config :: health_check_config where
  "default_health_check_config =
     \<lparr>h_timeout_secs = 30, h_check_interval_secs = 60, h_success_threshold = 2,
      h_failure_threshold = 3, h_disable_health_check = False\<rparr>"

text \<open>The parts of \<open>WorkerSpec\<close> and \<open>WorkerMetadata\<close> that routing reads.\<close>

record worker_spec =
  sp_url :: string
  sp_worker_type :: worker_type
  sp_connection_mode :: connection_mode
  sp_runtime_type :: runtime_type
  sp_models :: worker_models
  sp_label_model_id :: "string option"
  sp_provider :: "provider_type option"

definition UNKNOWN_MODEL_ID :: string where "UNKNOWN_MODEL_ID = ''unknown''"

text \<open>The map of active routing keys is an association list; its length is the map's \<open>len\<close>.\<close>

type_synonym routing_keys = "(string \<times> usize) list"

definition rk_value :: "routing_keys \<Rightarrow> nat" where
  "rk_value m = length m"

definition rk_increment :: "string \<Rightarrow> routing_keys \<Rightarrow> routing_keys" where
  "rk_increment k m = AList.update k ((case map_of m k of None \<Rightarrow> 0 | Some c \<Rightarrow> c) + 1) m"

definition rk_decrement :: "string \<Rightarrow> routing_keys \<Rightarrow> routing_keys" where
  "rk_decrement k m =
     (case map_of m k of
        None \<Rightarrow> m
      | Some c \<Rightarrow>
          if 0 < c then (if c - 1 = 0 then AList.delete k m else AList.update k (c - 1) m) else m)"

record worker_runtime =
  rt_status :: u8
  rt_consecutive_failures :: usize
  rt_consecutive_successes :: usize
  rt_total_pending_probes :: usize
  rt_load_counter :: usize
  rt_processed_counter :: usize
  rt_routing_keys :: routing_keys
  rt_revision :: u64

definition new_runtime :: "worker_status \<Rightarrow> worker_runtime" where
  "new_runtime initial_status =
     \<lparr>rt_status = status_as_u8 initial_status, rt_consecutive_failures = 0, rt_consecutive_successes = 0,
      rt_total_pending_probes = 0, rt_load_counter = 0, rt_processed_counter = 0,
      rt_routing_keys = [], rt_revision = 0\<rparr>"

record basic_worker =
  w_spec :: worker_spec
  w_health_config :: health_check_config
  w_runtime :: nat
  w_breaker :: nat
  w_models_override :: worker_models
  w_resilience :: resolved_resilience

record worker_heap =
  objs :: "nat \<Rightarrow> basic_worker"
  runtimes :: "nat \<Rightarrow> worker_runtime"
  breakers :: "nat \<Rightarrow> circuit_breaker"

definition runtime_of :: "worker_heap \<Rightarrow> nat \<Rightarrow> worker_runtime" where
  "runtime_of h ob = runtimes h (w_runtime (objs h ob))"

definition breaker_of :: "worker_heap \<Rightarrow> nat \<Rightarrow> circuit_breaker" where
  "breaker_of h ob = breakers h (w_breaker (objs h ob))"

definition update_runtime :: "(worker_runtime \<Rightarrow> worker_runtime) \<Rightarrow> nat \<Rightarrow> worker_heap \<Rightarrow> worker_heap" where
  "update_runtime f ob h =
     (let r = w_runtime (objs h ob) in h\<lparr>runtimes := (runtimes h)(r := f (runtimes h r))\<rparr>)"

definition update_breaker :: "circuit_breaker \<Rightarrow> nat \<Rightarrow> worker_heap \<Rightarrow> worker_heap" where
  "update_breaker cb ob h = h\<lparr>breakers := (breakers h)(w_breaker (objs h ob) := cb)\<rparr>"

definition url :: "worker_heap \<Rightarrow> nat \<Rightarrow> string" where
  "url h ob = sp_url (w_spec (objs h ob))"

definition worker_type_of :: "worker_heap \<Rightarrow> nat \<Rightarrow> worker_type" where
  "worker_type_of h ob = sp_worker_type (w_spec (objs h ob))"

definition connection_mode_of :: "worker_heap \<Rightarrow> nat \<Rightarrow> connection_mode" where
  "connection_mode_of h ob = sp_connection_mode (w_spec (objs h ob))"

definition status :: "worker_heap \<Rightarrow> nat \<Rightarrow> worker_status" where
  "status h ob = from_u8 (rt_status (runtime_of h ob))"

definition revision :: "worker_heap \<Rightarrow> nat \<Rightarrow> u64" where
  "revision h ob = rt_revision (runtime_of h ob)"

definition set_status :: "worker_status \<Rightarrow> nat \<Rightarrow> worker_heap \<Rightarrow> worker_heap" where
  "set_status s = update_runtime (\<lambda>r. r\<lparr>rt_status := status_as_u8 s\<rparr>)"

definition bump_revision :: "nat \<Rightarrow> worker_heap \<Rightarrow> worker_heap" where
  "bump_revision = update_runtime (\<lambda>r. r\<lparr>rt_revision := rt_revision r + 1\<rparr>)"

definition is_healthy :: "worker_heap \<Rightarrow> nat \<Rightarrow> bool" where
  "is_healthy h ob \<longleftrightarrow> status h ob = Ready"

definition consecutive_failures_increment :: "nat \<Rightarrow> worker_heap \<Rightarrow> usize \<times> worker_heap" where
  "consecutive_failures_increment ob h =
     (rt_consecutive_failures (runtime_of h ob) + 1,
      update_runtime (\<lambda>r. r\<lparr>rt_consecutive_failures := rt_consecutive_failures r + 1\<rparr>) ob h)"

definition consecutive_failures_reset :: "nat \<Rightarrow> worker_heap \<Rightarrow> worker_heap" where
  "consecutive_failures_reset = update_runtime (\<lambda>r. r\<lparr>rt_consecutive_failures := 0\<rparr>)"

definition consecutive_successes_increment :: "nat \<Rightarrow> worker_heap \<Rightarrow> usize \<times> worker_heap" where
  "consecutive_successes_increment ob h =
     (rt_consecutive_successes (runtime_of h ob) + 1,
      update_runtime (\<lambda>r. r\<lparr>rt_consecutive_successes := rt_consecutive_successes r + 1\<rparr>) ob h)"

definition consecutive_successes_reset :: "nat \<Rightarrow> worker_heap \<Rightarrow> worker_heap" where
  "consecutive_successes_reset = update_runtime (\<lambda>r. r\<lparr>rt_consecutive_successes := 0\<rparr>)"

definition total_pending_probes :: "worker_heap \<Rightarrow> nat \<Rightarrow> usize" where
  "total_pending_probes h ob = rt_total_pending_probes (runtime_of h ob)"

definition total_pending_probes_increment :: "nat \<Rightarrow> worker_heap \<Rightarrow> worker_heap" where
  "total_pending_probes_increment =
     update_runtime (\<lambda>r. r\<lparr>rt_total_pending_probes := rt_total_pending_probes r + 1\<rparr>)"

definition total_pending_probes_reset :: "nat \<Rightarrow> worker_heap \<Rightarrow> worker_heap" where
  "total_pending_probes_reset = update_runtime (\<lambda>r. r\<lparr>rt_total_pending_probes := 0\<rparr>)"

definition load :: "worker_heap \<Rightarrow> nat \<Rightarrow> usize" where
  "load h ob = rt_load_counter (runtime_of h ob)"

definition increment_load :: "nat \<Rightarrow> worker_heap \<Rightarrow> worker_heap" where
  "increment_load = update_runtime (\<lambda>r. r\<lparr>rt_load_counter := rt_load_counter r + 1\<rparr>)"

definition decrement_load :: "nat \<Rightarrow> worker_heap \<Rightarrow> worker_heap" where
  "decrement_load =
     update_runtime (\<lambda>r. if rt_load_counter r = 0 then r else r\<lparr>rt_load_counter := rt_load_counter r - 1\<rparr>)"

definition routing_key_load :: "worker_heap \<Rightarrow> nat \<Rightarrow> nat" where
  "routing_key_load h ob = rk_value (rt_routing_keys (runtime_of h ob))"

definition increment_routing_key_load :: "string \<Rightarrow> nat \<Rightarrow> worker_heap \<Rightarrow> worker_heap" where
  "increment_routing_key_load k = update_runtime (\<lambda>r. r\<lparr>rt_routing_keys := rk_increment k (rt_routing_keys r)\<rparr>)"

definition decrement_routing_key_load :: "string \<Rightarrow> nat \<Rightarrow> worker_heap \<Rightarrow> worker_heap" where
  "decrement_routing_key_load k = update_runtime (\<lambda>r. r\<lparr>rt_routing_keys := rk_decrement k (rt_routing_keys r)\<rparr>)"

definition increment_processed :: "nat \<Rightarrow> worker_heap \<Rightarrow> worker_heap" where
  "increment_processed = update_runtime (\<lambda>r. r\<lparr>rt_processed_counter := rt_processed_counter r + 1\<rparr>)"

text \<open>A clock reading for the breaker is a pair: the timeout check's, and the transition's.\<close>

type_synonym cb_clock = "u64 \<times> u64"

definition circuit_breaker_can_execute :: "cb_clock \<Rightarrow> nat \<Rightarrow> worker_heap \<Rightarrow> bool \<times> worker_heap" where
  "circuit_breaker_can_execute c ob h =
     (case can_execute (fst c) (snd c) (breaker_of h ob) of (ok, cb) \<Rightarrow> (ok, update_breaker cb ob h))"

definition record_circuit_breaker_outcome :: "cb_clock \<Rightarrow> bool \<Rightarrow> nat \<Rightarrow> worker_heap \<Rightarrow> worker_heap" where
  "record_circuit_breaker_outcome c success ob h =
     update_breaker (cb_record_outcome (fst c) (snd c) success (breaker_of h ob)) ob h"

definition is_available :: "cb_clock \<Rightarrow> nat \<Rightarrow> worker_heap \<Rightarrow> bool \<times> worker_heap" where
  "is_available c ob h = (if is_healthy h ob then circuit_breaker_can_execute c ob h else (False, h))"

definition record_outcome :: "cb_clock \<Rightarrow> u16 \<Rightarrow> nat \<Rightarrow> worker_heap \<Rightarrow> worker_heap" where
  "record_outcome c status_code ob h =
     (let is_failure = status_code \<in> retryable_status_codes (w_resilience (objs h ob))
      in record_circuit_breaker_outcome c (\<not> is_failure) ob h)"

text \<open>\<open>install_shared_state_from_basic\<close>: the new object takes over runtime and, if its configuration is the same, breaker.\<close>

definition inherit_shared_state_from :: "nat \<Rightarrow> nat \<Rightarrow> worker_heap \<Rightarrow> worker_heap" where
  "inherit_shared_state_from ob other h =
     (let h = bump_revision other h;
          w = (objs h ob)\<lparr>w_runtime := w_runtime (objs h other)\<rparr>;
          w = (if cb_config (breaker_of h other) = cb_config (breakers h (w_breaker w))
               then w\<lparr>w_breaker := w_breaker (objs h other)\<rparr> else w)
      in h\<lparr>objs := (objs h)(ob := w)\<rparr>)"

definition supports_model :: "worker_heap \<Rightarrow> nat \<Rightarrow> string \<Rightarrow> bool" where
  "supports_model h ob model_id =
     (let ov = w_models_override (objs h ob)
      in if \<not> is_wildcard ov then models_supports model_id ov
         else models_supports model_id (sp_models (w_spec (objs h ob))))"

definition models :: "worker_heap \<Rightarrow> nat \<Rightarrow> model_card list" where
  "models h ob =
     (let ov = w_models_override (objs h ob)
      in if is_wildcard ov then models_all (sp_models (w_spec (objs h ob))) else models_all ov)"

definition set_models :: "model_card list \<Rightarrow> nat \<Rightarrow> worker_heap \<Rightarrow> worker_heap" where
  "set_models ms ob h = h\<lparr>objs := (objs h)(ob := (objs h ob)\<lparr>w_models_override := models_from ms\<rparr>)\<rparr>"

definition model_id :: "worker_heap \<Rightarrow> nat \<Rightarrow> string" where
  "model_id h ob =
     (case models_primary (sp_models (w_spec (objs h ob))) of
        Some c \<Rightarrow> mc_id c
      | None \<Rightarrow> (case sp_label_model_id (w_spec (objs h ob)) of Some l \<Rightarrow> l | None \<Rightarrow> UNKNOWN_MODEL_ID))"

text \<open>\<open>WorkerLoadGuard\<close>: its creation and its drop; \<open>key\<close> is the routing key of the request.\<close>

definition guard_new :: "nat \<Rightarrow> string option \<Rightarrow> worker_heap \<Rightarrow> worker_heap" where
  "guard_new ob key h =
     (let h = increment_load ob h
      in case key of None \<Rightarrow> h | Some k \<Rightarrow> increment_routing_key_load k ob h)"

definition guard_drop :: "nat \<Rightarrow> string option \<Rightarrow> worker_heap \<Rightarrow> worker_heap" where
  "guard_drop ob key h =
     (let h = decrement_load ob h
      in case key of None \<Rightarrow> h | Some k \<Rightarrow> decrement_routing_key_load k ob h)"

text \<open>
  \<open>get_healthy_worker_indices\<close> of \<open>policies/mod.rs\<close>: asking a breaker may half-open it, so the
  heap is threaded through; \<open>clk i\<close> is the clock when entry \<open>i\<close> is asked.
\<close>

fun healthy_from :: "(nat \<Rightarrow> cb_clock) \<Rightarrow> nat \<Rightarrow> nat list \<Rightarrow> worker_heap \<Rightarrow> nat list \<times> worker_heap" where
  "healthy_from clk i [] h = ([], h)"
| "healthy_from clk i (ob # obs) h =
     (case is_available (clk i) ob h of
        (ok, h) \<Rightarrow> (case healthy_from clk (Suc i) obs h of (is, h) \<Rightarrow> (if ok then i # is else is, h)))"

definition get_healthy_worker_indices ::
  "(nat \<Rightarrow> cb_clock) \<Rightarrow> nat list \<Rightarrow> worker_heap \<Rightarrow> nat list \<times> worker_heap" where
  "get_healthy_worker_indices clk workers h = healthy_from clk 0 workers h"

definition normalize_model_key :: "string \<Rightarrow> string" where
  "normalize_model_key m = (if m = [] then UNKNOWN_MODEL_ID else m)"

text \<open>
  Load guards over time: a guard is created for a worker object, dropped, and a worker object
  without live guards takes over the state of another one, as a same-URL replacement does.
\<close>

datatype guard_event =
    NewGuard nat "string option"
  | DropGuard nat
  | TakeOver nat nat

fun guard_step :: "worker_heap \<times> (nat \<times> string option) list \<Rightarrow> guard_event \<Rightarrow> worker_heap \<times> (nat \<times> string option) list" where
  "guard_step (h, gs) (NewGuard ob k) = (guard_new ob k h, (ob, k) # gs)"
| "guard_step (h, gs) (DropGuard j) =
     (if j < length gs then (guard_drop (fst (gs ! j)) (snd (gs ! j)) h, remove1 (gs ! j) gs) else (h, gs))"
| "guard_step (h, gs) (TakeOver new old) =
     (if new \<in> fst ` set gs then (h, gs) else (inherit_shared_state_from new old h, gs))"

definition guards_on :: "worker_heap \<Rightarrow> (nat \<times> string option) list \<Rightarrow> nat \<Rightarrow> (nat \<times> string option) list" where
  "guards_on h gs r = filter (\<lambda>g. w_runtime (objs h (fst g)) = r) gs"

definition key_count :: "worker_heap \<Rightarrow> (nat \<times> string option) list \<Rightarrow> nat \<Rightarrow> string \<Rightarrow> nat" where
  "key_count h gs r k = length (filter (\<lambda>g. snd g = Some k) (guards_on h gs r))"

definition rk_ok :: "routing_keys \<Rightarrow> (string \<Rightarrow> nat) \<Rightarrow> bool" where
  "rk_ok m f \<longleftrightarrow> distinct (map fst m) \<and> (\<forall>k. map_of m k = (if f k = 0 then None else Some (of_nat (f k))))"

definition guard_inv :: "worker_heap \<times> (nat \<times> string option) list \<Rightarrow> bool" where
  "guard_inv = (\<lambda>(h, gs). \<forall>r. rt_load_counter (runtimes h r) = of_nat (length (guards_on h gs r)) \<and>
     rk_ok (rt_routing_keys (runtimes h r)) (key_count h gs r))"

definition idle_heap :: "worker_heap \<Rightarrow> bool" where
  "idle_heap h \<longleftrightarrow> (\<forall>r. rt_load_counter (runtimes h r) = 0 \<and> rt_routing_keys (runtimes h r) = [])"

definition breaker_open :: "worker_heap \<Rightarrow> nat \<Rightarrow> bool" where
  "breaker_open h ob \<longleftrightarrow> from_int (cb_state (breaker_of h ob)) = Open"

definition demo_spec :: "string \<Rightarrow> worker_models \<Rightarrow> worker_spec" where
  "demo_spec u ms =
     \<lparr>sp_url = u, sp_worker_type = Regular, sp_connection_mode = Http, sp_runtime_type = External,
      sp_models = ms, sp_label_model_id = None, sp_provider = None\<rparr>"

definition demo_worker :: "string \<Rightarrow> worker_models \<Rightarrow> nat \<Rightarrow> basic_worker" where
  "demo_worker u ms i =
     \<lparr>w_spec = demo_spec u ms, w_health_config = default_health_check_config, w_runtime = i, w_breaker = i,
      w_models_override = Wildcard, w_resilience = default_resolved_resilience\<rparr>"

text \<open>Worker objects with runtimes and breakers of their own, all at the same URL.\<close>

definition demo_heap :: worker_heap where
  "demo_heap =
     \<lparr>objs = demo_worker ''http://w'' Wildcard, runtimes = (\<lambda>_. new_runtime Ready),
      breakers = (\<lambda>_. new_circuit_breaker 0)\<rparr>"

section \<open>Lemmas\<close>

lemma unat_of_nat_small: "n < 2 ^ 64 \<Longrightarrow> unat (of_nat n :: 64 word) = n"
  by (simp add: unsigned_of_nat take_bit_nat_eq_self)

lemma of_nat_Suc_nonzero: "Suc n < 2 ^ 64 \<Longrightarrow> (of_nat (Suc n) :: 64 word) \<noteq> 0"
  using unat_of_nat_small [of "Suc n"] by (metis nat.distinct(1) unsigned_0)

lemma from_u8_as_u8 [simp]: "from_u8 (status_as_u8 s) = s"
  by (cases s) (simp_all add: from_u8_def try_from_u8_def)

lemma update_runtime_frame [simp]:
  "objs (update_runtime f ob h) = objs h" "breakers (update_runtime f ob h) = breakers h"
  "runtimes (update_runtime f ob h) = (runtimes h)(w_runtime (objs h ob) := f (runtimes h (w_runtime (objs h ob))))"
  by (simp_all add: update_runtime_def Let_def)

lemma update_breaker_frame [simp]:
  "objs (update_breaker cb ob h) = objs h" "runtimes (update_breaker cb ob h) = runtimes h"
  "breakers (update_breaker cb ob h) = (breakers h)(w_breaker (objs h ob) := cb)"
  by (simp_all add: update_breaker_def)

lemma rk_value_card:
  assumes "rk_ok m f"
  shows "rk_value m = card {k. f k \<noteq> 0}"
proof -
  have "{k. f k \<noteq> 0} = fst ` set m"
    using assms by (force simp: rk_ok_def dom_map_of_conv_image_fst [symmetric] dom_def split: if_splits)
  moreover have "card (fst ` set m) = length m"
    using assms distinct_card [of "map fst m"] by (simp add: rk_ok_def)
  ultimately show ?thesis by (simp add: rk_value_def)
qed

lemma rk_ok_increment: "rk_ok m f \<Longrightarrow> Suc (f k) < 2 ^ 64 \<Longrightarrow> rk_ok (rk_increment k m) (f(k := Suc (f k)))"
  by (auto simp: rk_ok_def rk_increment_def distinct_update update_conv' split: option.splits)

lemma rk_ok_decrement:
  assumes "rk_ok m f" "f k = Suc n" "Suc n < 2 ^ 64"
  shows "rk_ok (rk_decrement k m) (f(k := n))"
proof -
  have c: "map_of m k = Some (of_nat (Suc n))" using assms by (simp add: rk_ok_def)
  have pos: "0 < (of_nat (Suc n) :: usize)"
    using of_nat_Suc_nonzero [OF assms(3)] by (simp only: word_gt_0 not_False_eq_True)
  have c1: "(of_nat (Suc n) :: usize) - 1 = of_nat n" by simp
  have z: "((of_nat n :: usize) = 0) = (n = 0)"
    using of_nat_Suc_nonzero [of "n - 1"] assms(3) by (cases n) (simp_all del: of_nat_Suc)
  have d: "distinct (map fst (AList.delete k m))" using assms(1) by (simp add: rk_ok_def distinct_delete)
  have dec: "rk_decrement k m = (if n = 0 then AList.delete k m else AList.update k (of_nat n) m)"
    unfolding rk_decrement_def c option.case if_P [OF pos] c1 z ..
  show ?thesis
    using assms(1) d unfolding dec
    by (auto simp: rk_ok_def distinct_update update_conv' delete_conv')
qed

lemma guards_on_Cons:
  "guards_on h (g # gs) r = (if w_runtime (objs h (fst g)) = r then g # guards_on h gs r else guards_on h gs r)"
  by (simp add: guards_on_def)

lemma guards_on_objs: "objs h' = objs h \<Longrightarrow> guards_on h' gs r = guards_on h gs r"
  by (simp add: guards_on_def)

lemma key_count_objs: "objs h' = objs h \<Longrightarrow> key_count h' gs r = key_count h gs r"
  by (rule ext) (simp add: key_count_def guards_on_def)

lemma guards_update_runtime [simp]:
  "guards_on (update_runtime f ob h) gs r = guards_on h gs r"
  "key_count (update_runtime f ob h) gs r = key_count h gs r"
  by (simp_all add: guards_on_def key_count_def fun_eq_iff)

lemma key_count_Cons:
  "key_count h ((ob, key) # gs) r =
     (if w_runtime (objs h ob) = r then
        (case key of None \<Rightarrow> key_count h gs r | Some k \<Rightarrow> (key_count h gs r)(k := Suc (key_count h gs r k)))
      else key_count h gs r)"
  by (rule ext) (auto simp: key_count_def guards_on_Cons split: option.splits)

lemma key_count_le: "key_count h gs r k \<le> length gs" "length (guards_on h gs r) \<le> length gs"
proof -
  show le: "length (guards_on h gs r) \<le> length gs" by (simp add: guards_on_def)
  show "key_count h gs r k \<le> length gs"
    unfolding key_count_def by (rule order.trans [OF length_filter_le le])
qed

lemma guard_new_inv:
  assumes inv: "guard_inv (h, gs)" and b: "Suc (length gs) < 2 ^ 64"
  shows "guard_inv (guard_new ob key h, (ob, key) # gs)"
proof -
  have o: "objs (guard_new ob key h) = objs h"
    by (simp add: guard_new_def increment_load_def increment_routing_key_load_def Let_def split: option.splits)
  let ?r = "w_runtime (objs h ob)"
  have lt: "Suc (key_count h gs ?r k) < 2 ^ 64" for k
    using key_count_le(1) [of h gs ?r k] b by linarith
  have inv': "rt_load_counter (runtimes h r) = of_nat (length (guards_on h gs r))"
    "rk_ok (rt_routing_keys (runtimes h r)) (key_count h gs r)" for r
    using inv by (simp_all add: guard_inv_def)
  show ?thesis
    unfolding guard_inv_def prod.case guards_on_objs [OF o] key_count_objs [OF o] guards_on_Cons key_count_Cons fst_conv
  proof (intro allI conjI)
    fix r
    show "rt_load_counter (runtimes (guard_new ob key h) r) =
        of_nat (length (if ?r = r then (ob, key) # guards_on h gs r else guards_on h gs r))"
      using inv'(1) [of r] inv'(1) [of ?r]
      by (cases key)
         (simp_all add: guard_new_def increment_load_def increment_routing_key_load_def)
    show "rk_ok (rt_routing_keys (runtimes (guard_new ob key h) r))
      (if ?r = r then (case key of None \<Rightarrow> key_count h gs r
          | Some k \<Rightarrow> (key_count h gs r)(k := Suc (key_count h gs r k)))
       else key_count h gs r)"
      using inv'(2) [of r] rk_ok_increment [OF inv'(2) [of ?r] lt]
      by (cases key)
         (auto simp: guard_new_def increment_load_def increment_routing_key_load_def)
  qed
qed

lemma length_filter_remove1:
  "x \<in> set xs \<Longrightarrow> P x \<Longrightarrow> length (filter P xs) = Suc (length (filter P (remove1 x xs)))"
  by (induction xs) auto

lemma filter_remove1_other: "\<not> P x \<Longrightarrow> filter P (remove1 x xs) = filter P xs"
  by (induction xs) auto

lemma key_count_alt:
  "key_count h gs r k = length (filter (\<lambda>g. w_runtime (objs h (fst g)) = r \<and> snd g = Some k) gs)"
  by (simp add: key_count_def guards_on_def conj_commute)

lemma key_count_remove1:
  assumes "(ob, key) \<in> set gs"
  shows "w_runtime (objs h ob) = r \<Longrightarrow> key = Some k \<Longrightarrow>
      key_count h gs r k = Suc (key_count h (remove1 (ob, key) gs) r k)"
    and "w_runtime (objs h ob) \<noteq> r \<or> key \<noteq> Some k \<Longrightarrow>
      key_count h (remove1 (ob, key) gs) r k = key_count h gs r k"
  unfolding key_count_alt
  by (rule length_filter_remove1 [OF assms]; simp) (subst filter_remove1_other; auto)

lemma guard_drop_inv:
  assumes inv: "guard_inv (h, gs)" and b: "length gs < 2 ^ 64" and g: "(ob, key) \<in> set gs"
  shows "guard_inv (guard_drop ob key h, remove1 (ob, key) gs)"
proof -
  let ?r = "w_runtime (objs h ob)" and ?gs = "remove1 (ob, key) gs"
  have o: "objs (guard_drop ob key h) = objs h"
    by (cases key) (simp_all add: guard_drop_def decrement_load_def decrement_routing_key_load_def)
  have inv': "rt_load_counter (runtimes h r) = of_nat (length (guards_on h gs r))"
    "rk_ok (rt_routing_keys (runtimes h r)) (key_count h gs r)" for r
    using inv by (simp_all add: guard_inv_def)
  have len: "length (guards_on h gs ?r) = Suc (length (guards_on h ?gs ?r))"
    unfolding guards_on_def by (rule length_filter_remove1 [OF g]) simp
  have lt: "Suc (length (guards_on h ?gs ?r)) < 2 ^ 64"
    using key_count_le(2) [of h gs ?r] b unfolding len by linarith
  have load: "rt_load_counter (runtimes h ?r) - 1 = of_nat (length (guards_on h ?gs ?r))"
    "rt_load_counter (runtimes h ?r) \<noteq> 0"
    using of_nat_Suc_nonzero [OF lt] by (simp_all add: inv'(1) len)
  have keys: "rk_ok (case key of None \<Rightarrow> rt_routing_keys (runtimes h ?r)
      | Some k \<Rightarrow> rk_decrement k (rt_routing_keys (runtimes h ?r))) (key_count h ?gs ?r)"
  proof (cases key)
    case None
    then have "key_count h ?gs ?r = key_count h gs ?r"
      by (intro ext key_count_remove1(2) [OF g]) simp
    with None inv'(2) [of ?r] show ?thesis by simp
  next
    case (Some k)
    note k = key_count_remove1(1) [OF g refl Some, of h]
    have "key_count h ?gs ?r = (key_count h gs ?r)(k := key_count h ?gs ?r k)"
      by (rule ext) (use key_count_remove1(2) [OF g] Some in auto)
    moreover have "Suc (key_count h ?gs ?r k) < 2 ^ 64"
      using key_count_le(1) [of h gs ?r k] b unfolding k by linarith
    ultimately show ?thesis using rk_ok_decrement [OF inv'(2) k] Some by simp
  qed
  show ?thesis
    unfolding guard_inv_def prod.case guards_on_objs [OF o] key_count_objs [OF o]
  proof (intro allI conjI)
    fix r
    have other: "r \<noteq> ?r \<Longrightarrow> guards_on h ?gs r = guards_on h gs r"
      unfolding guards_on_def by (rule filter_remove1_other) simp
    show "rt_load_counter (runtimes (guard_drop ob key h) r) = of_nat (length (guards_on h ?gs r))"
      using load other inv'(1) [of r]
      by (cases key) (auto simp: guard_drop_def decrement_load_def decrement_routing_key_load_def)
    have "r \<noteq> ?r \<Longrightarrow> key_count h ?gs r = key_count h gs r"
      by (intro ext key_count_remove1(2) [OF g]) simp
    then show "rk_ok (rt_routing_keys (runtimes (guard_drop ob key h) r)) (key_count h ?gs r)"
      using keys inv'(2) [of r]
      by (cases key) (auto simp: guard_drop_def decrement_load_def decrement_routing_key_load_def)
  qed
qed

lemma take_over_inv:
  assumes inv: "guard_inv (h, gs)" and new: "new \<notin> fst ` set gs"
  shows "guard_inv (inherit_shared_state_from new old h, gs)"
proof -
  let ?h = "inherit_shared_state_from new old h"
  have "g \<in> set gs \<Longrightarrow> objs ?h (fst g) = objs h (fst g)" for g
    using new by (auto simp: inherit_shared_state_from_def Let_def bump_revision_def)
  then have g: "guards_on ?h gs r = guards_on h gs r" for r
    unfolding guards_on_def by (intro filter_cong) auto
  have "rt_load_counter (runtimes ?h r) = rt_load_counter (runtimes h r)"
    "rt_routing_keys (runtimes ?h r) = rt_routing_keys (runtimes h r)" for r
    by (simp_all add: inherit_shared_state_from_def Let_def bump_revision_def)
  moreover have "key_count ?h gs r = key_count h gs r" for r by (rule ext) (simp add: key_count_def g)
  ultimately show ?thesis using inv by (simp add: guard_inv_def g)
qed

lemma guard_run_inv:
  assumes "guard_inv (h, gs)" "length gs + length es < 2 ^ 64"
  shows "guard_inv (foldl guard_step (h, gs) es)"
  using assms
proof (induction es arbitrary: h gs)
  case (Cons e es)
  obtain h' gs' where s: "guard_step (h, gs) e = (h', gs')" by (cases "guard_step (h, gs) e")
  have "guard_inv (h', gs') \<and> length gs' \<le> Suc (length gs)"
  proof (cases e)
    case (NewGuard ob k)
    with s Cons.prems guard_new_inv [of h gs ob k] show ?thesis by auto
  next
    case (DropGuard j)
    show ?thesis
    proof (cases "j < length gs")
      case True
      then have "(fst (gs ! j), snd (gs ! j)) \<in> set gs" by simp
      from guard_drop_inv [OF Cons.prems(1) _ this] Cons.prems(2) True s DropGuard
      show ?thesis by (auto simp: length_remove1)
    qed (use s DropGuard Cons.prems in auto)
  next
    case (TakeOver new old)
    with s Cons.prems take_over_inv [of h gs new old] show ?thesis by (auto split: if_splits)
  qed
  with Cons.IH [of h' gs'] Cons.prems(2) s show ?case by simp
qed simp

lemma guard_run_length: "length (snd (foldl guard_step s es)) \<le> length (snd s) + length es"
proof (induction es arbitrary: s)
  case (Cons e es)
  have "length (snd (guard_step s e)) \<le> Suc (length (snd s))"
    by (cases s; cases e) (auto simp: length_remove1)
  with Cons.IH [of "guard_step s e"] show ?case by simp
qed simp

lemma can_execute_open:
  "fst (can_execute n n' cb) = (from_int (cb_state (snd (can_execute n n' cb))) \<noteq> Open)"
  "from_int (cb_state cb) \<noteq> Open \<Longrightarrow> can_execute n n' cb = (True, cb)"
  by (auto simp: can_execute_def check_and_update_state_returning_def Let_def split: circuit_state.splits)

lemma is_available_spec:
  assumes "is_available c ob h = (ok, h')"
  shows "objs h' = objs h" "runtimes h' = runtimes h"
    "ok \<longleftrightarrow> is_healthy h ob \<and> \<not> breaker_open h' ob"
    "\<not> breaker_open h x \<Longrightarrow> \<not> breaker_open h' x"
proof -
  let ?e = "can_execute (fst c) (snd c) (breaker_of h ob)"
  have split: "circuit_breaker_can_execute c ob h = (fst ?e, update_breaker (snd ?e) ob h)"
    by (simp add: circuit_breaker_can_execute_def split: prod.splits)
  show "objs h' = objs h" "runtimes h' = runtimes h"
    using assms by (auto simp: is_available_def split split: if_splits)
  show "ok \<longleftrightarrow> is_healthy h ob \<and> \<not> breaker_open h' ob"
    using assms can_execute_open(1) [of "fst c" "snd c" "breaker_of h ob"]
    by (auto simp: is_available_def split breaker_open_def breaker_of_def split: if_splits)
  show "\<not> breaker_open h x \<Longrightarrow> \<not> breaker_open h' x"
    using assms can_execute_open(2) [of "breaker_of h ob" "fst c" "snd c"]
    by (cases "is_healthy h ob"; cases "w_breaker (objs h x) = w_breaker (objs h ob)")
       (auto simp: is_available_def split breaker_open_def breaker_of_def split: if_splits)
qed

lemma healthy_from_spec:
  assumes "healthy_from clk i obs h = (is, h')"
  shows "objs h' = objs h \<and> runtimes h' = runtimes h \<and> (\<forall>x. \<not> breaker_open h x \<longrightarrow> \<not> breaker_open h' x) \<and>
    sorted_wrt (<) is \<and>
    (\<forall>j \<in> set is. i \<le> j \<and> j < i + length obs \<and> is_healthy h (obs ! (j - i)) \<and> \<not> breaker_open h' (obs ! (j - i))) \<and>
    (\<forall>j < length obs. is_healthy h (obs ! j) \<longrightarrow> \<not> breaker_open h (obs ! j) \<longrightarrow> i + j \<in> set is)"
  using assms
proof (induction obs arbitrary: i h "is" h')
  case (Cons ob obs)
  obtain ok h1 where a: "is_available (clk i) ob h = (ok, h1)" by (cases "is_available (clk i) ob h")
  obtain is1 h2 where b: "healthy_from clk (Suc i) obs h1 = (is1, h2)" by (cases "healthy_from clk (Suc i) obs h1")
  note av = is_available_spec [OF a] and IH = Cons.IH [OF b]
  have res: "is = (if ok then i # is1 else is1)" "h' = h2" using Cons.prems a b by auto
  have healthy: "is_healthy h1 x = is_healthy h x" for x
    by (simp add: is_healthy_def status_def runtime_of_def av(1,2))
  have open2: "\<not> breaker_open h x \<Longrightarrow> \<not> breaker_open h2 x" for x using av(4) IH by blast
  have head: "ok \<Longrightarrow> is_healthy h ob \<and> \<not> breaker_open h2 ob" using av(3) IH by blast
  have tail: "Suc i \<le> j \<and> j < Suc i + length obs \<and> is_healthy h ((ob # obs) ! (j - i)) \<and> \<not> breaker_open h2 ((ob # obs) ! (j - i))"
    if "j \<in> set is1" for j
  proof -
    from that IH have j: "Suc i \<le> j" "j < Suc i + length obs" "is_healthy h1 (obs ! (j - Suc i))"
      "\<not> breaker_open h2 (obs ! (j - Suc i))" by blast+
    then have "j - i = Suc (j - Suc i)" by simp
    with j healthy show ?thesis by simp
  qed
  have compl: "i + j \<in> set is" if j: "j < length (ob # obs)" "is_healthy h ((ob # obs) ! j)"
    "\<not> breaker_open h ((ob # obs) ! j)" for j
  proof (cases j)
    case 0
    with j av(3,4) have ok by simp
    with 0 show ?thesis by (simp add: res)
  next
    case (Suc k)
    with j av(4) healthy IH have "Suc i + k \<in> set is1" by simp
    with Suc show ?thesis by (simp add: res)
  qed
  have "sorted_wrt (<) is" using IH tail by (force simp: res)
  moreover have "\<forall>j \<in> set is. i \<le> j \<and> j < i + length (ob # obs) \<and> is_healthy h ((ob # obs) ! (j - i)) \<and> \<not> breaker_open h' ((ob # obs) ! (j - i))"
  proof
    fix j assume "j \<in> set is"
    then consider "ok" "j = i" | "j \<in> set is1" by (auto simp: res split: if_splits)
    then show "i \<le> j \<and> j < i + length (ob # obs) \<and> is_healthy h ((ob # obs) ! (j - i)) \<and> \<not> breaker_open h' ((ob # obs) ! (j - i))"
      using head tail [of j] by cases (auto simp: res(2))
  qed
  ultimately show ?case using IH av(1,2) open2 compl unfolding res(2) by simp
qed simp

lemma healthy_indices:
  assumes "get_healthy_worker_indices clk obs h = (is, h')"
  shows "objs h' = objs h" "runtimes h' = runtimes h" "sorted_wrt (<) is"
    "i \<in> set is \<Longrightarrow> i < length obs \<and> is_healthy h (obs ! i) \<and> \<not> breaker_open h' (obs ! i)"
    "i < length obs \<Longrightarrow> is_healthy h (obs ! i) \<Longrightarrow> \<not> breaker_open h (obs ! i) \<Longrightarrow> i \<in> set is"
  using healthy_from_spec [of clk 0 obs h "is" h'] assms unfolding get_healthy_worker_indices_def
  by auto

section \<open>Properties\<close>

text \<open>
  C5: load accounting. Starting from idle runtimes, after any sequence of guard creations,
  guard drops and takeovers of shared state by a replacement object, the load of a worker is
  the number of live guards on objects that share its runtime, the replaced object included,
  and its routing-key load is the number of distinct routing keys among them.
\<close>

theorem load_counts_live_guards:
  assumes "idle_heap h" and "length es < 2 ^ 64"
  shows "case foldl guard_step (h, []) es of (h', gs) \<Rightarrow>
     unat (load h' ob) = length (filter (\<lambda>g. w_runtime (objs h' (fst g)) = w_runtime (objs h' ob)) gs) \<and>
     routing_key_load h' ob =
       card {k. \<exists>g \<in> set gs. w_runtime (objs h' (fst g)) = w_runtime (objs h' ob) \<and> snd g = Some k}"
proof -
  obtain h' gs where run: "foldl guard_step (h, []) es = (h', gs)" by (cases "foldl guard_step (h, []) es")
  have init: "guard_inv (h, [])"
    using assms(1) by (simp add: guard_inv_def idle_heap_def guards_on_def key_count_def rk_ok_def)
  have inv: "guard_inv (h', gs)" using guard_run_inv [OF init, of es] assms(2) run by simp
  have len: "length gs \<le> length es"
    using guard_run_length [of "(h, [])" es] run by simp
  let ?r = "w_runtime (objs h' ob)"
  have "length (guards_on h' gs ?r) < 2 ^ 64" using key_count_le(2) [of h' gs ?r] len assms(2) by linarith
  with inv have "unat (load h' ob) = length (guards_on h' gs ?r)"
    by (simp only: guard_inv_def prod.case load_def runtime_of_def unat_of_nat_small)
  moreover have "{k. key_count h' gs ?r k \<noteq> 0} =
      {k. \<exists>g \<in> set gs. w_runtime (objs h' (fst g)) = ?r \<and> snd g = Some k}"
    by (auto simp: key_count_alt filter_empty_conv)
  moreover have "routing_key_load h' ob = card {k. key_count h' gs ?r k \<noteq> 0}"
    unfolding routing_key_load_def runtime_of_def using inv by (intro rk_value_card) (simp add: guard_inv_def)
  ultimately show ?thesis by (simp add: run guards_on_def)
qed

text \<open>Two objects; the second takes over the first while a request of the first is in flight.\<close>

theorem load_counts_live_guards_witness:
  "case foldl guard_step (demo_heap, []) [NewGuard 0 (Some ''a''), TakeOver 1 0, NewGuard 1 (Some ''b'')] of
     (h', gs) \<Rightarrow> unat (load h' 1) = 2"
proof -
  have "idle_heap demo_heap" by (simp add: idle_heap_def demo_heap_def new_runtime_def)
  from load_counts_live_guards [OF this, of "[NewGuard 0 (Some ''a''), TakeOver 1 0, NewGuard 1 (Some ''b'')]" 1]
  show ?thesis
    by (simp add: guard_new_def increment_load_def increment_routing_key_load_def inherit_shared_state_from_def
        Let_def bump_revision_def split: if_splits)
qed

end
