(* ===== verification/SelectionPolicies.thy ===== *)
theory SelectionPolicies
  imports Workers
begin

text \<open>
  Load-balancing policies that choose among the available workers: round robin, random, power
  of two choices and manual routing (\<open>model_gateway/src/policies/round_robin.rs\<close>,
  \<open>random.rs\<close>, \<open>power_of_two.rs\<close>, \<open>manual.rs\<close>), and the contracts that policies promise to the
  routers, as locales. A draw of \<open>random_range(0..n)\<close> is an arbitrary number reduced modulo
  \<open>n\<close>, so every outcome of the generator is one of the model.
\<close>

section \<open>Model\<close>

text \<open>
  What a policy sees of the request headers: \<open>None\<close> for an absent header, \<open>Some None\<close> for one whose
  value is not text, and \<open>Some (Some s)\<close> for the text of its first value.
\<close>

type_synonym header_map = "string \<Rightarrow> string option option"

definition extract_header_value :: "header_map option \<Rightarrow> string \<Rightarrow> string option" where
  "extract_header_value headers name =
     (case headers of
        None \<Rightarrow> None
      | Some h \<Rightarrow>
          (case h name of
             Some (Some v) \<Rightarrow> if v = [] then None else Some v
           | _ \<Rightarrow> None))"

definition extract_target_worker :: "header_map option \<Rightarrow> string option" where
  "extract_target_worker headers = extract_header_value headers ''x-smg-target-worker''"

definition extract_routing_key :: "header_map option \<Rightarrow> string option" where
  "extract_routing_key headers = extract_header_value headers ''x-smg-routing-key''"

definition random_range :: "nat \<Rightarrow> nat \<Rightarrow> nat" where
  "random_range draw n = draw mod n"

record round_robin_policy =
  counter :: usize

definition rr_new :: round_robin_policy where
  "rr_new = \<lparr>counter = 0\<rparr>"

definition rr_select_worker ::
  "(nat \<Rightarrow> cb_clock) \<Rightarrow> nat list \<Rightarrow> round_robin_policy \<times> worker_heap \<Rightarrow>
   nat option \<times> round_robin_policy \<times> worker_heap" where
  "rr_select_worker clk workers = (\<lambda>(p, h).
     case get_healthy_worker_indices clk workers h of
       (healthy_indices, h) \<Rightarrow>
         if healthy_indices = [] then (None, p, h)
         else
           (let count = counter p;
                selected_idx = unat (count mod of_nat (length healthy_indices))
            in (Some (healthy_indices ! selected_idx), p\<lparr>counter := count + 1\<rparr>, h)))"

definition rr_reset :: "round_robin_policy \<Rightarrow> round_robin_policy" where
  "rr_reset p = p\<lparr>counter := 0\<rparr>"

definition random_select_worker ::
  "nat \<Rightarrow> (nat \<Rightarrow> cb_clock) \<Rightarrow> nat list \<Rightarrow> unit \<times> worker_heap \<Rightarrow> nat option \<times> unit \<times> worker_heap" where
  "random_select_worker draw clk workers = (\<lambda>(p, h).
     case get_healthy_worker_indices clk workers h of
       (healthy_indices, h) \<Rightarrow>
         if healthy_indices = [] then (None, p, h)
         else (Some (healthy_indices ! random_range draw (length healthy_indices)), p, h))"

text \<open>\<open>WorkerLoadResponse\<close>, with the token usage of each data-parallel rank.\<close>

definition effective_token_usage :: "(rat \<Rightarrow> rat) \<Rightarrow> rat list \<Rightarrow> rat" where
  "effective_token_usage rnd loads =
     (if loads = [] then 0
      else rnd (foldl (\<lambda>a x. rnd (a + x)) 0 loads / rnd (of_nat (length loads))))"

record power_of_two_policy =
  cached_loads :: "string \<rightharpoonup> rat list"

definition p2_new :: power_of_two_policy where
  "p2_new = \<lparr>cached_loads = Map.empty\<rparr>"

definition p2_loads ::
  "(rat \<Rightarrow> rat) \<Rightarrow> power_of_two_policy \<Rightarrow> worker_heap \<Rightarrow> nat \<Rightarrow> nat \<Rightarrow> rat \<times> rat" where
  "p2_loads rnd p h w1 w2 =
     (case (cached_loads p (url h w1), cached_loads p (url h w2)) of
        (Some r1, Some r2) \<Rightarrow> (effective_token_usage rnd r1, effective_token_usage rnd r2)
      | _ \<Rightarrow> (rnd (of_nat (unat (load h w1))), rnd (of_nat (unat (load h w2)))))"

definition p2_select_worker ::
  "(rat \<Rightarrow> rat) \<Rightarrow> nat \<times> nat \<Rightarrow> (nat \<Rightarrow> cb_clock) \<Rightarrow> nat list \<Rightarrow> power_of_two_policy \<times> worker_heap \<Rightarrow>
   nat option \<times> power_of_two_policy \<times> worker_heap" where
  "p2_select_worker rnd draws clk workers = (\<lambda>(p, h).
     case get_healthy_worker_indices clk workers h of
       (healthy_indices, h) \<Rightarrow>
         if healthy_indices = [] then (None, p, h)
         else if length healthy_indices = 1 then (Some (healthy_indices ! 0), p, h)
         else
           (let n = length healthy_indices;
                idx1 = random_range (fst draws) n;
                idx2 = (idx1 + 1 + random_range (snd draws) (n - 1)) mod n;
                worker_idx1 = healthy_indices ! idx1;
                worker_idx2 = healthy_indices ! idx2;
                (load1, load2) = p2_loads rnd p h (workers ! worker_idx1) (workers ! worker_idx2);
                selected_idx = (if load1 \<le> load2 then worker_idx1 else worker_idx2)
            in (Some selected_idx, p, increment_processed (workers ! selected_idx) h)))"

definition p2_update_loads :: "(string \<rightharpoonup> rat list) \<Rightarrow> power_of_two_policy \<Rightarrow> power_of_two_policy" where
  "p2_update_loads loads p = p\<lparr>cached_loads := cached_loads p ++ loads\<rparr>"

datatype manual_assignment_mode = Random | MinLoad | MinGroup

datatype execution_branch = NoHealthyWorkers | OccupiedHit | OccupiedMiss | Vacant | NoRoutingId

definition MAX_CANDIDATE_WORKERS :: nat where "MAX_CANDIDATE_WORKERS = 2"

record manual_node =
  candi_worker_urls :: "string list"
  last_access :: nat

text \<open>\<open>push_bounded\<close>: the loop removes the oldest entries until there is room.\<close>

fun make_room :: "string list \<Rightarrow> string list" where
  "make_room [] = []"
| "make_room (u # us) = (if MAX_CANDIDATE_WORKERS \<le> length (u # us) then make_room us else u # us)"

definition push_bounded :: "string \<Rightarrow> manual_node \<Rightarrow> manual_node" where
  "push_bounded u node = node\<lparr>candi_worker_urls := make_room (candi_worker_urls node) @ [u]\<rparr>"

record manual_policy =
  routing_map :: "string \<rightharpoonup> manual_node"
  assignment_mode :: manual_assignment_mode

text \<open>The eviction that the periodic task runs.\<close>

definition manual_evict :: "duration \<Rightarrow> nat \<Rightarrow> manual_policy \<Rightarrow> manual_policy" where
  "manual_evict max_idle now p =
     p\<lparr>routing_map := (\<lambda>r. case routing_map p r of
         None \<Rightarrow> None
       | Some node \<Rightarrow> if now - last_access node < max_idle then Some node else None)\<rparr>"

definition find_worker_index_by_url :: "worker_heap \<Rightarrow> nat list \<Rightarrow> string \<Rightarrow> nat option" where
  "find_worker_index_by_url h workers u = position (\<lambda>w. url h w = u) workers"

fun find_healthy_worker :: "worker_heap \<Rightarrow> string list \<Rightarrow> nat list \<Rightarrow> nat list \<Rightarrow> nat option" where
  "find_healthy_worker h [] workers healthy_indices = None"
| "find_healthy_worker h (u # us) workers healthy_indices =
     (case find_worker_index_by_url h workers u of
        Some idx \<Rightarrow>
          if idx \<in> set healthy_indices then Some idx else find_healthy_worker h us workers healthy_indices
      | None \<Rightarrow> find_healthy_worker h us workers healthy_indices)"

text \<open>One round of the loop of \<open>select_min_by\<close>, then its choice among the candidates.\<close>

definition min_step :: "(nat \<Rightarrow> nat) \<Rightarrow> nat option \<times> nat list \<Rightarrow> nat \<Rightarrow> nat option \<times> nat list" where
  "min_step get_value = (\<lambda>(min_val, candidates) idx.
     case min_val of
       None \<Rightarrow> (Some (get_value idx), [idx])
     | Some m \<Rightarrow>
         if get_value idx < m then (Some (get_value idx), [idx])
         else if get_value idx = m then (min_val, candidates @ [idx])
         else (min_val, candidates))"

definition select_min_by :: "nat \<Rightarrow> nat list \<Rightarrow> (nat \<Rightarrow> nat) \<Rightarrow> nat" where
  "select_min_by draw indices get_value =
     (let candidates = snd (foldl (min_step get_value) (None, []) indices)
      in if length candidates = 1 then candidates ! 0
         else candidates ! random_range draw (length candidates))"

definition manual_select_new_worker ::
  "nat \<Rightarrow> manual_policy \<Rightarrow> worker_heap \<Rightarrow> nat list \<Rightarrow> nat list \<Rightarrow> nat" where
  "manual_select_new_worker draw p h workers healthy_indices =
     (case assignment_mode p of
        Random \<Rightarrow> healthy_indices ! random_range draw (length healthy_indices)
      | MinLoad \<Rightarrow> select_min_by draw healthy_indices (\<lambda>i. unat (load h (workers ! i)))
      | MinGroup \<Rightarrow> select_min_by draw healthy_indices (\<lambda>i. routing_key_load h (workers ! i)))"

definition select_by_routing_id ::
  "nat \<Rightarrow> nat \<Rightarrow> manual_policy \<Rightarrow> worker_heap \<Rightarrow> nat list \<Rightarrow> string \<Rightarrow> nat list \<Rightarrow>
   nat \<times> execution_branch \<times> manual_policy" where
  "select_by_routing_id draw now p h workers routing_id healthy_indices =
     (case routing_map p routing_id of
        Some node \<Rightarrow>
          (let node = node\<lparr>last_access := now\<rparr>
           in case find_healthy_worker h (candi_worker_urls node) workers healthy_indices of
                Some idx \<Rightarrow> (idx, OccupiedHit, p\<lparr>routing_map := (routing_map p)(routing_id \<mapsto> node)\<rparr>)
              | None \<Rightarrow>
                  (let selected_idx = manual_select_new_worker draw p h workers healthy_indices;
                       node = push_bounded (url h (workers ! selected_idx)) node
                   in (selected_idx, OccupiedMiss, p\<lparr>routing_map := (routing_map p)(routing_id \<mapsto> node)\<rparr>)))
      | None \<Rightarrow>
          (let selected_idx = manual_select_new_worker draw p h workers healthy_indices;
               node = \<lparr>candi_worker_urls = [url h (workers ! selected_idx)], last_access = now\<rparr>
           in (selected_idx, Vacant, p\<lparr>routing_map := (routing_map p)(routing_id \<mapsto> node)\<rparr>)))"

definition manual_select_worker_impl ::
  "nat \<times> nat \<times> header_map option \<Rightarrow> (nat \<Rightarrow> cb_clock) \<Rightarrow> nat list \<Rightarrow> manual_policy \<times> worker_heap \<Rightarrow>
   (nat option \<times> execution_branch) \<times> manual_policy \<times> worker_heap" where
  "manual_select_worker_impl inp clk workers = (\<lambda>(p, h).
     case inp of (draw, now, headers) \<Rightarrow>
       (case get_healthy_worker_indices clk workers h of
          (healthy_indices, h) \<Rightarrow>
            if healthy_indices = [] then ((None, NoHealthyWorkers), p, h)
            else
              (case extract_routing_key headers of
                 Some routing_id \<Rightarrow>
                   (case select_by_routing_id draw now p h workers routing_id healthy_indices of
                      (idx, branch, p) \<Rightarrow> ((Some idx, branch), p, h))
               | None \<Rightarrow>
                   ((Some (manual_select_new_worker draw p h workers healthy_indices), NoRoutingId), p, h))))"

definition manual_select_worker ::
  "nat \<times> nat \<times> header_map option \<Rightarrow> (nat \<Rightarrow> cb_clock) \<Rightarrow> nat list \<Rightarrow> manual_policy \<times> worker_heap \<Rightarrow>
   nat option \<times> manual_policy \<times> worker_heap" where
  "manual_select_worker inp clk workers s =
     (case manual_select_worker_impl inp clk workers s of ((result, _), s') \<Rightarrow> (result, s'))"

text \<open>Consecutive selections, for the fairness of round robin.\<close>

fun rr_run :: "(nat \<Rightarrow> cb_clock) list \<Rightarrow> nat list \<Rightarrow> round_robin_policy \<times> worker_heap \<Rightarrow> nat option list" where
  "rr_run [] workers s = []"
| "rr_run (clk # clks) workers s =
     (case rr_select_worker clk workers s of (r, s) \<Rightarrow> r # rr_run clks workers s)"

section \<open>Contracts\<close>

text \<open>
  What every policy promises: the index it returns is one of the slice and names a worker
  that was ready. The slice has a length that fits a \<open>usize\<close>, as every slice has.
\<close>

locale status_policy =
  fixes select :: "'i \<Rightarrow> (nat \<Rightarrow> cb_clock) \<Rightarrow> nat list \<Rightarrow> 'p \<times> worker_heap \<Rightarrow> nat option \<times> 'p \<times> worker_heap"
  assumes select_ready:
    "length obs < 2 ^ 64 \<Longrightarrow> select inp clk obs (p, h) = (Some i, p', h') \<Longrightarrow>
       i < length obs \<and> is_healthy h (obs ! i)"
begin

text \<open>Over a sequence of requests on the same slice, only ready workers are ever chosen.\<close>

fun choices :: "('i \<times> (nat \<Rightarrow> cb_clock)) list \<Rightarrow> nat list \<Rightarrow> 'p \<times> worker_heap \<Rightarrow> (nat option \<times> worker_heap) list" where
  "choices [] obs s = []"
| "choices ((inp, clk) # rs) obs s =
     (case select inp clk obs s of (r, s') \<Rightarrow> (r, snd s) # choices rs obs s')"

lemma choices_ready:
  assumes "length obs < 2 ^ 64" "(Some i, h) \<in> set (choices rs obs s)"
  shows "i < length obs \<and> is_healthy h (obs ! i)"
  using assms(2)
proof (induction rs arbitrary: s)
  case (Cons r rs)
  obtain inp clk where r: "r = (inp, clk)" by (cases r)
  obtain p h0 where s: "s = (p, h0)" by (cases s)
  obtain x p' h' where sel: "select inp clk obs (p, h0) = (x, p', h')" by (metis prod_cases3)
  from Cons.prems consider "x = Some i" "h = h0" | "(Some i, h) \<in> set (choices rs obs (p', h'))"
    by (auto simp: r s sel)
  then show ?case
  proof cases
    case 1
    with select_ready [OF assms(1)] sel show ?thesis by blast
  next
    case 2
    then show ?thesis by (rule Cons.IH)
  qed
qed simp

end

text \<open>
  What a policy that consults the circuit breakers promises on top: the breaker of the chosen
  worker lets requests through, and no worker is chosen only if every ready one has an open
  breaker.
\<close>

locale available_policy = status_policy select
  for select :: "'i \<Rightarrow> (nat \<Rightarrow> cb_clock) \<Rightarrow> nat list \<Rightarrow> 'p \<times> worker_heap \<Rightarrow> nat option \<times> 'p \<times> worker_heap" +
  assumes select_executable:
    "length obs < 2 ^ 64 \<Longrightarrow> select inp clk obs (p, h) = (Some i, p', h') \<Longrightarrow> \<not> breaker_open h' (obs ! i)"
  and select_complete:
    "select inp clk obs (p, h) = (None, p', h') \<Longrightarrow> j < length obs \<Longrightarrow> is_healthy h (obs ! j) \<Longrightarrow>
       breaker_open h (obs ! j)"
begin

lemma select_serves:
  assumes len: "length obs < 2 ^ 64" and j: "j < length obs" "is_healthy h (obs ! j)" "\<not> breaker_open h (obs ! j)"
  obtains i p' h' where "select inp clk obs (p, h) = (Some i, p', h')" "i < length obs"
    "is_healthy h (obs ! i)" "\<not> breaker_open h' (obs ! i)"
proof -
  obtain x p' h' where sel: "select inp clk obs (p, h) = (x, p', h')" by (metis prod_cases3)
  have "x \<noteq> None" using select_complete [of inp clk obs p h p' h' j] sel j by auto
  then obtain i where "x = Some i" by auto
  with sel that select_ready [OF len] select_executable [OF len] show ?thesis by blast
qed

end

text \<open>
  Policies that filter with \<open>get_healthy_worker_indices\<close> and then pick an entry of the
  non-empty result satisfy both contracts; the pick may bump runtime counters.
\<close>

lemma healthy_pick:
  assumes "get_healthy_worker_indices clk obs h = (is, h1)" and "i \<in> set is"
    and "\<And>x. breaker_open h' x = breaker_open h1 x"
  shows "i < length obs \<and> is_healthy h (obs ! i)" "\<not> breaker_open h' (obs ! i)"
  using healthy_indices(4) [OF assms(1,2)] assms(3) by auto

lemma no_healthy:
  assumes "get_healthy_worker_indices clk obs h = ([], h1)" "j < length obs" "is_healthy h (obs ! j)"
  shows "breaker_open h (obs ! j)"
  using healthy_indices(5) [OF assms(1,2,3)] by auto

lemma mod_index: "n < 2 ^ 64 \<Longrightarrow> 0 < n \<Longrightarrow> unat ((c :: usize) mod of_nat n) = unat c mod n"
  by (simp add: unat_mod_distrib unat_of_nat_small)

lemma healthy_length:
  assumes "get_healthy_worker_indices clk obs h = (is, h1)" shows "length is \<le> length obs"
proof -
  have "distinct is" using healthy_indices(3) [OF assms] by (simp add: strict_sorted_iff)
  then have "length is = card (set is)" by (simp add: distinct_card)
  also have "\<dots> \<le> card {..<length obs}"
    using healthy_indices(4) [OF assms] by (intro card_mono) auto
  finally show ?thesis by simp
qed

lemma rr_select_index:
  assumes "length obs < 2 ^ 64" "get_healthy_worker_indices clk obs h = (is, h1)" "is \<noteq> []"
  shows "rr_select_worker clk obs (p, h) =
    (Some (is ! (unat (counter p) mod length is)), p\<lparr>counter := counter p + 1\<rparr>, h1)"
proof -
  have "length is < 2 ^ 64" using healthy_length [OF assms(2)] assms(1) by linarith
  with assms(2,3) show ?thesis by (simp add: rr_select_worker_def Let_def mod_index)
qed

interpretation rr: available_policy "\<lambda>_ :: unit. rr_select_worker"
proof
  fix obs :: "nat list" and clk p h i p' h' j and u :: unit
  obtain ix h1 where g: "get_healthy_worker_indices clk obs h = (ix, h1)"
    by (cases "get_healthy_worker_indices clk obs h")
  {
    assume "length obs < 2 ^ 64" "rr_select_worker clk obs (p, h) = (Some i, p', h')"
    then have "i \<in> set ix \<and> h' = h1"
      using rr_select_index [OF _ g, of p] g by (cases "ix = []") (auto simp: rr_select_worker_def)
    then show "i < length obs \<and> is_healthy h (obs ! i)" "\<not> breaker_open h' (obs ! i)"
      using healthy_pick [OF g, of i h1] by auto
  }
  assume "rr_select_worker clk obs (p, h) = (None, p', h')" "j < length obs" "is_healthy h (obs ! j)"
  then show "breaker_open h (obs ! j)"
    using no_healthy [of clk obs h h1 j] g by (auto simp: rr_select_worker_def Let_def split: if_splits)
qed

lemma random_range_less: "0 < n \<Longrightarrow> random_range d n < n"
  by (simp add: random_range_def)

interpretation random: available_policy random_select_worker
proof
  fix d clk and obs :: "nat list" and p h i p' h' j
  obtain ix h1 where g: "get_healthy_worker_indices clk obs h = (ix, h1)"
    by (cases "get_healthy_worker_indices clk obs h")
  {
    assume "random_select_worker d clk obs (p, h) = (Some i, p', h')"
    then have "i \<in> set ix \<and> h' = h1"
      using g random_range_less by (auto simp: random_select_worker_def split: if_splits)
    then show "i < length obs \<and> is_healthy h (obs ! i)" "\<not> breaker_open h' (obs ! i)"
      using healthy_pick [OF g, of i h1] by auto
  }
  assume "random_select_worker d clk obs (p, h) = (None, p', h')" "j < length obs" "is_healthy h (obs ! j)"
  then show "breaker_open h (obs ! j)"
    using no_healthy [of clk obs h h1 j] g by (auto simp: random_select_worker_def split: if_splits)
qed

lemma breaker_open_runtime [simp]: "breaker_open (update_runtime f ob h) x = breaker_open h x"
  by (simp add: breaker_open_def breaker_of_def)

lemma p2_second_differs:
  fixes a n r :: nat
  assumes "a < n" "r < n - 1"
  shows "(a + 1 + r) mod n \<noteq> a"
proof (cases "a + 1 + r < n")
  case False
  moreover have "a + 1 + r - n < n" using assms by arith
  ultimately have "(a + 1 + r) mod n = a + 1 + r - n" by (metis le_mod_geq mod_less not_le)
  with assms False show ?thesis by arith
qed simp

text \<open>The choice of power of two: two different available workers and the one that compares lower.\<close>

lemma p2_select_choice:
  assumes g: "get_healthy_worker_indices clk obs h = (ix, h1)" and two: "2 \<le> length ix"
  obtains a b where "a \<in> set ix" "b \<in> set ix" "a \<noteq> b"
    "p2_select_worker rnd draws clk obs (p, h) =
      (let (load1, load2) = p2_loads rnd p h1 (obs ! a) (obs ! b); i = (if load1 \<le> load2 then a else b)
       in (Some i, p, increment_processed (obs ! i) h1))"
proof -
  let ?n = "length ix"
  define i1 where "i1 = random_range (fst draws) ?n"
  define i2 where "i2 = (i1 + 1 + random_range (snd draws) (?n - 1)) mod ?n"
  have n: "0 < ?n" using two by linarith
  then have lt: "i1 < ?n" "i2 < ?n" unfolding i1_def i2_def by (rule random_range_less, simp)
  have "i2 \<noteq> i1"
    unfolding i2_def using lt(1) two by (intro p2_second_differs random_range_less) auto
  moreover have "distinct ix" using healthy_indices(3) [OF g] by (simp add: strict_sorted_iff)
  ultimately have "ix ! i1 \<noteq> ix ! i2" using lt by (simp add: nth_eq_iff_index_eq)
  moreover have "p2_select_worker rnd draws clk obs (p, h) =
      (let (load1, load2) = p2_loads rnd p h1 (obs ! (ix ! i1)) (obs ! (ix ! i2));
           i = (if load1 \<le> load2 then ix ! i1 else ix ! i2)
       in (Some i, p, increment_processed (obs ! i) h1))"
    using two g by (auto simp: p2_select_worker_def i1_def i2_def Let_def split: prod.splits)
  ultimately show ?thesis using that [of "ix ! i1" "ix ! i2"] lt by simp
qed

lemma p2_select_cases:
  assumes g: "get_healthy_worker_indices clk obs h = (ix, h1)"
    and s: "p2_select_worker rnd draws clk obs (p, h) = (r, p', h')"
  shows "ix = [] \<and> r = None \<or> (\<exists>i \<in> set ix. r = Some i \<and> (\<forall>x. breaker_open h' x = breaker_open h1 x))"
proof -
  consider "ix = []" | x where "ix = [x]" | "2 \<le> length ix"
    by (cases ix rule: remdups_adj.cases) auto
  then show ?thesis
  proof cases
    case 3
    obtain a b where ab: "a \<in> set ix" "b \<in> set ix" "p2_select_worker rnd draws clk obs (p, h) =
      (let (load1, load2) = p2_loads rnd p h1 (obs ! a) (obs ! b); i = (if load1 \<le> load2 then a else b)
       in (Some i, p, increment_processed (obs ! i) h1))" by (rule p2_select_choice [OF g 3])
    with s show ?thesis by (auto simp: increment_processed_def Let_def split: prod.splits if_splits)
  qed (use g s in \<open>auto simp: p2_select_worker_def\<close>)
qed

interpretation p2: available_policy "\<lambda>(rnd, draws). p2_select_worker rnd draws"
proof
  fix inp :: "(rat \<Rightarrow> rat) \<times> nat \<times> nat" and clk and obs :: "nat list" and p h i p' h' j
  obtain rnd draws where inp: "inp = (rnd, draws)" by (cases inp)
  obtain ix h1 where g: "get_healthy_worker_indices clk obs h = (ix, h1)"
    by (cases "get_healthy_worker_indices clk obs h")
  {
    assume "(case inp of (rnd, draws) \<Rightarrow> p2_select_worker rnd draws) clk obs (p, h) = (Some i, p', h')"
    then have "i \<in> set ix" "\<And>x. breaker_open h' x = breaker_open h1 x"
      using p2_select_cases [OF g, of rnd draws p "Some i" p' h'] inp by auto
    then show "i < length obs \<and> is_healthy h (obs ! i)" "\<not> breaker_open h' (obs ! i)"
      using healthy_pick [OF g] by auto
  }
  assume "(case inp of (rnd, draws) \<Rightarrow> p2_select_worker rnd draws) clk obs (p, h) = (None, p', h')"
    "j < length obs" "is_healthy h (obs ! j)"
  then show "breaker_open h (obs ! j)"
    using no_healthy [of clk obs h h1 j] p2_select_cases [OF g] g inp by fastforce
qed

lemma min_step_candidates:
  "foldl (min_step f) (None, []) xs =
     (if xs = [] then (None, []) else (Some (Min (f ` set xs)), filter (\<lambda>x. f x = Min (f ` set xs)) xs))"
proof (induction xs rule: rev_induct)
  case (snoc x xs)
  show ?case
  proof (cases "xs = []")
    case True
    then show ?thesis by (simp add: min_step_def)
  next
    case False
    define m where "m = Min (f ` set xs)"
    have Min: "Min (f ` set (xs @ [x])) = min (f x) m" using False by (simp add: m_def)
    have le: "y \<in> set xs \<Longrightarrow> m \<le> f y" for y by (simp add: m_def)
    have fold: "foldl (min_step f) (None, []) (xs @ [x]) = min_step f (Some m, filter (\<lambda>y. f y = m) xs) x"
      using snoc.IH False by (simp add: m_def)
    have empty: "f x < m \<Longrightarrow> filter (\<lambda>y. f y = f x) xs = []"
      using le by (metis (mono_tags, lifting) filter_False leD)
    show ?thesis
      unfolding fold Min by (cases "f x" m rule: linorder_cases) (simp_all add: min_step_def empty)
  qed
qed simp

lemma select_min_by_least:
  assumes "xs \<noteq> []"
  shows "select_min_by d xs f \<in> set xs \<and> (\<forall>y \<in> set xs. f (select_min_by d xs f) \<le> f y)"
proof -
  let ?c = "filter (\<lambda>x. f x = Min (f ` set xs)) xs"
  have "Min (f ` set xs) \<in> f ` set xs" using assms by (intro Min_in) auto
  then have ne: "?c \<noteq> []" by (auto simp: filter_empty_conv)
  have "select_min_by d xs f = ?c ! (if length ?c = 1 then 0 else random_range d (length ?c))"
    by (simp add: select_min_by_def min_step_candidates assms)
  also have "\<dots> \<in> set ?c" using ne by (intro nth_mem) (auto simp: random_range_less)
  finally show ?thesis by simp
qed

lemma manual_new_worker_in: "ix \<noteq> [] \<Longrightarrow> manual_select_new_worker d p h obs ix \<in> set ix"
  using select_min_by_least [of ix d]
  by (auto simp: manual_select_new_worker_def random_range_less split: manual_assignment_mode.splits)

lemma find_healthy_worker_in: "find_healthy_worker h us obs ix = Some i \<Longrightarrow> i \<in> set ix"
  by (induction us) (auto split: option.splits if_splits)

lemma select_by_routing_id_in:
  "ix \<noteq> [] \<Longrightarrow> select_by_routing_id d now p h obs rid ix = (i, b, p') \<Longrightarrow> i \<in> set ix"
  using manual_new_worker_in [of ix d p h obs] find_healthy_worker_in [of h _ obs ix]
  by (auto simp: select_by_routing_id_def Let_def split: option.splits)

lemma manual_select_cases:
  assumes g: "get_healthy_worker_indices clk obs h = (ix, h1)"
    and s: "manual_select_worker inp clk obs (p, h) = (r, p', h')"
  shows "ix = [] \<and> r = None \<or> (\<exists>i \<in> set ix. r = Some i \<and> h' = h1)"
  using assms manual_new_worker_in [of ix _ p h1 obs] select_by_routing_id_in [of ix _ _ p h1 obs]
  by (cases inp) (force simp: manual_select_worker_def manual_select_worker_impl_def
      split: prod.splits option.splits if_splits)

interpretation manual: available_policy manual_select_worker
proof
  fix inp :: "nat \<times> nat \<times> header_map option" and clk and obs :: "nat list" and p h i p' h' j
  obtain ix h1 where g: "get_healthy_worker_indices clk obs h = (ix, h1)"
    by (cases "get_healthy_worker_indices clk obs h")
  {
    assume "manual_select_worker inp clk obs (p, h) = (Some i, p', h')"
    then have "i \<in> set ix" "h' = h1" using manual_select_cases [OF g, of inp p "Some i" p' h'] by auto
    then show "i < length obs \<and> is_healthy h (obs ! i)" "\<not> breaker_open h' (obs ! i)"
      using healthy_pick [OF g, of i h1] by auto
  }
  assume "manual_select_worker inp clk obs (p, h) = (None, p', h')" "j < length obs" "is_healthy h (obs ! j)"
  then show "breaker_open h (obs ! j)"
    using no_healthy [of clk obs h h1 j] manual_select_cases [OF g] g by fastforce
qed

text \<open>While no ready worker has an open breaker, filtering changes nothing and keeps the ready ones.\<close>

lemma healthy_from_stable:
  assumes "\<forall>ob \<in> set obs. is_healthy h ob \<longrightarrow> \<not> breaker_open h ob"
  shows "healthy_from clk i obs h = (filter (\<lambda>j. is_healthy h (obs ! (j - i))) [i..<i + length obs], h)"
  using assms
proof (induction obs arbitrary: i)
  case (Cons ob obs)
  have av: "is_available (clk i) ob h = (is_healthy h ob, h)"
  proof (cases "is_healthy h ob")
    case True
    with Cons.prems have "can_execute (fst (clk i)) (snd (clk i)) (breaker_of h ob) = (True, breaker_of h ob)"
      by (intro can_execute_open(2)) (simp add: breaker_open_def)
    moreover have "update_breaker (breaker_of h ob) ob h = h"
      by (simp add: update_breaker_def breaker_of_def)
    ultimately show ?thesis using True by (simp add: is_available_def circuit_breaker_can_execute_def)
  qed (simp add: is_available_def)
  have "filter (\<lambda>j. is_healthy h (obs ! (j - Suc i))) [Suc i..<Suc i + length obs] =
      filter (\<lambda>j. is_healthy h ((ob # obs) ! (j - i))) [Suc i..<Suc i + length obs]"
    by (rule filter_cong) (auto simp: nth_Cons')
  moreover have "[i..<i + length (ob # obs)] = i # [Suc i..<Suc i + length obs]"
    by (simp add: upt_conv_Cons del: upt_Suc)
  ultimately show ?case using Cons.IH [of "Suc i"] Cons.prems av by simp
qed simp

definition ready_indices :: "worker_heap \<Rightarrow> nat list \<Rightarrow> nat list" where
  "ready_indices h obs = filter (\<lambda>i. is_healthy h (obs ! i)) [0..<length obs]"

lemma healthy_indices_stable:
  "\<forall>ob \<in> set obs. is_healthy h ob \<longrightarrow> \<not> breaker_open h ob \<Longrightarrow>
     get_healthy_worker_indices clk obs h = (ready_indices h obs, h)"
  by (simp add: get_healthy_worker_indices_def healthy_from_stable ready_indices_def)

lemma rr_run_stable:
  assumes len: "length obs < 2 ^ 64" and ok: "\<forall>ob \<in> set obs. is_healthy h ob \<longrightarrow> \<not> breaker_open h ob"
    and ne: "ready_indices h obs \<noteq> []" and c: "unat (counter p) + length clks < 2 ^ 64"
  shows "rr_run clks obs (p, h) =
    map (\<lambda>j. Some (ready_indices h obs ! ((unat (counter p) + j) mod length (ready_indices h obs)))) [0..<length clks]"
  using c
proof (induction clks arbitrary: p)
  case (Cons clk clks)
  have suc: "unat (counter p + 1) = Suc (unat (counter p))"
    using Cons.prems by (simp add: unat_word_ariths)
  have "rr_run (clk # clks) obs (p, h) =
      Some (ready_indices h obs ! (unat (counter p) mod length (ready_indices h obs)))
      # rr_run clks obs (p\<lparr>counter := counter p + 1\<rparr>, h)"
    by (simp add: rr_select_index [OF len healthy_indices_stable [OF ok] ne])
  also have "rr_run clks obs (p\<lparr>counter := counter p + 1\<rparr>, h) =
      map (\<lambda>j. Some (ready_indices h obs ! ((unat (counter p) + Suc j) mod length (ready_indices h obs))))
        [0..<length clks]"
    using Cons.IH [of "p\<lparr>counter := counter p + 1\<rparr>"] Cons.prems suc by simp
  finally show ?case
    by (simp add: upt_conv_Cons [of 0] map_Suc_upt [symmetric] del: upt_Suc)
qed simp

lemma count_list_distinct_1: "distinct xs \<Longrightarrow> x \<in> set xs \<Longrightarrow> count_list xs x = 1"
  by (induction xs) (auto simp: count_list_0_iff)

lemma count_round:
  assumes "distinct xs" "x \<in> set xs"
  shows "count_list (map (\<lambda>j. xs ! ((c + j) mod length xs)) [0..<m * length xs]) x = m"
proof (induction m)
  case (Suc m)
  let ?k = "length xs"
  have ne: "xs \<noteq> []" using assms(2) by auto
  have "[0..<m * ?k + ?k] = [0..<m * ?k] @ [m * ?k..<m * ?k + ?k]" by (rule upt_add_eq_append) simp
  moreover have "map (\<lambda>t. t + m * ?k) [0..<?k] = [m * ?k..<?k + m * ?k]" by (rule map_add_upt)
  ultimately have "[0..<Suc m * ?k] = [0..<m * ?k] @ map (\<lambda>t. t + m * ?k) [0..<?k]"
    by (simp only: add.commute mult_Suc)
  moreover have "map (\<lambda>t. xs ! ((c + (t + m * ?k)) mod ?k)) [0..<?k] = rotate c xs"
  proof (rule nth_equalityI)
    fix t assume "t < length (map (\<lambda>t. xs ! ((c + (t + m * ?k)) mod ?k)) [0..<?k])"
    moreover have "(c + (t + m * ?k)) mod ?k = (c + t) mod ?k"
      by (simp flip: add.assoc)
    ultimately show "map (\<lambda>t. xs ! ((c + (t + m * ?k)) mod ?k)) [0..<?k] ! t = rotate c xs ! t"
      by (simp add: nth_rotate)
  qed simp
  moreover have "count_list (rotate c xs) x = 1"
    using assms count_list_distinct_1 [of "rotate c xs"] by simp
  ultimately show ?case using Suc.IH by (simp add: comp_def)
qed simp

lemma position_distinct:
  "i < length xs \<Longrightarrow> distinct (map f xs) \<Longrightarrow> position (\<lambda>x. f x = f (xs ! i)) xs = Some i"
proof (induction xs arbitrary: i)
  case (Cons x xs)
  then show ?case by (cases i) (auto simp: nth_eq_iff_index_eq)
qed simp

lemma find_worker_self:
  "i < length obs \<Longrightarrow> distinct (map (url h) obs) \<Longrightarrow> find_worker_index_by_url h obs (url h (obs ! i)) = Some i"
  by (simp add: find_worker_index_by_url_def position_distinct)

lemma find_healthy_worker_append:
  "find_healthy_worker h (us @ vs) obs ix =
     (case find_healthy_worker h us obs ix of Some i \<Rightarrow> Some i | None \<Rightarrow> find_healthy_worker h vs obs ix)"
  by (induction us) (auto split: option.splits)

lemma make_room_suffix: "\<exists>ys. us = ys @ make_room us"
proof (induction us)
  case (Cons u us)
  then obtain ys where ys: "us = ys @ make_room us" by blast
  show ?case
  proof (cases "MAX_CANDIDATE_WORKERS \<le> length (u # us)")
    case True
    with ys have "u # us = (u # ys) @ make_room (u # us)" by simp
    then show ?thesis by blast
  next
    case False
    then have "u # us = [] @ make_room (u # us)" by simp
    then show ?thesis by blast
  qed
qed simp

lemma make_room_length: "length (make_room us) < MAX_CANDIDATE_WORKERS"
  by (induction us) (simp_all add: MAX_CANDIDATE_WORKERS_def Suc_le_eq)

text \<open>After a selection, the entry of the routing key leads back to the chosen worker.\<close>

lemma routing_id_remembers:
  assumes sel: "select_by_routing_id d now p h obs rid ix = (i, b, p')"
    and ix: "ix \<noteq> []" "set ix \<subseteq> {..<length obs}" and urls: "distinct (map (url h) obs)"
  shows "\<exists>node. routing_map p' rid = Some node \<and>
    find_healthy_worker h (candi_worker_urls node) obs ix = Some i"
proof -
  have new: "find_healthy_worker h [url h (obs ! j)] obs ix = Some j" if "j \<in> set ix" for j
    using that ix(2) find_worker_self [OF _ urls, of j] by auto
  have old: "find_healthy_worker h (make_room us) obs ix = None"
    if none: "find_healthy_worker h us obs ix = None" for us
  proof -
    obtain ys where "us = ys @ make_room us" using make_room_suffix by blast
    with none show ?thesis
      by (metis find_healthy_worker_append option.case_eq_if option.distinct(1) option.exhaust_sel)
  qed
  note in_ix = select_by_routing_id_in [OF ix(1) sel]
  show ?thesis
    using sel new [OF in_ix] old
    by (auto simp: select_by_routing_id_def Let_def push_bounded_def find_healthy_worker_append
        split: option.splits)
qed

section \<open>Properties\<close>

text \<open>
  whenever some worker of the slice is ready and its breaker is not open, round robin,
  random, power of two and manual routing all choose a worker, and the one they choose is an
  entry of the slice that is ready and whose breaker lets requests through; whatever the
  draws, the clock readings, the cached loads and the request.
\<close>

theorem policies_serve_available:
  assumes "length obs < 2 ^ 64" and "j < length obs" and "is_healthy h (obs ! j)" and "\<not> breaker_open h (obs ! j)"
  shows "(\<exists>i p' h'. rr_select_worker clk obs (rr, h) = (Some i, p', h') \<and>
            i < length obs \<and> is_healthy h (obs ! i) \<and> \<not> breaker_open h' (obs ! i)) \<and>
         (\<exists>i p' h'. random_select_worker draw clk obs (u, h) = (Some i, p', h') \<and>
            i < length obs \<and> is_healthy h (obs ! i) \<and> \<not> breaker_open h' (obs ! i)) \<and>
         (\<exists>i p' h'. p2_select_worker rnd draws clk obs (p2, h) = (Some i, p', h') \<and>
            i < length obs \<and> is_healthy h (obs ! i) \<and> \<not> breaker_open h' (obs ! i)) \<and>
         (\<exists>i p' h'. manual_select_worker inp clk obs (mp, h) = (Some i, p', h') \<and>
            i < length obs \<and> is_healthy h (obs ! i) \<and> \<not> breaker_open h' (obs ! i))"
proof (intro conjI)
  show "\<exists>i p' h'. rr_select_worker clk obs (rr, h) = (Some i, p', h') \<and>
      i < length obs \<and> is_healthy h (obs ! i) \<and> \<not> breaker_open h' (obs ! i)"
    by (rule rr.select_serves [OF assms, of clk rr]) blast
  show "\<exists>i p' h'. random_select_worker draw clk obs (u, h) = (Some i, p', h') \<and>
      i < length obs \<and> is_healthy h (obs ! i) \<and> \<not> breaker_open h' (obs ! i)"
    by (rule random.select_serves [OF assms, of draw clk u]) blast
  show "\<exists>i p' h'. p2_select_worker rnd draws clk obs (p2, h) = (Some i, p', h') \<and>
      i < length obs \<and> is_healthy h (obs ! i) \<and> \<not> breaker_open h' (obs ! i)"
    by (rule p2.select_serves [OF assms, of "(rnd, draws)" clk p2]) auto
  show "\<exists>i p' h'. manual_select_worker inp clk obs (mp, h) = (Some i, p', h') \<and>
      i < length obs \<and> is_healthy h (obs ! i) \<and> \<not> breaker_open h' (obs ! i)"
    by (rule manual.select_serves [OF assms, of inp clk mp]) blast
qed

lemma demo_ready: "is_healthy demo_heap ob" "\<not> breaker_open demo_heap ob"
  by (simp_all add: is_healthy_def status_def runtime_of_def demo_heap_def new_runtime_def from_u8_def try_from_u8_def
      breaker_open_def breaker_of_def new_circuit_breaker_def with_config_and_label_def)

theorem policies_serve_available_witness:
  "\<exists>i p' h'. rr_select_worker (\<lambda>_. (0, 0)) [0, 1] (rr_new, demo_heap) = (Some i, p', h') \<and> i < 2"
proof -
  have "length [0, 1 :: nat] < 2 ^ 64" "0 < length [0, 1 :: nat]" by simp_all
  from policies_serve_available [OF this demo_ready, THEN conjunct1, of "\<lambda>_. (0, 0)" rr_new]
  obtain i p' h' where "rr_select_worker (\<lambda>_. (0, 0)) [0, 1] (rr_new, demo_heap) = (Some i, p', h')"
    "i < length [0, 1 :: nat]" by blast
  then show ?thesis by auto
qed

text \<open>
  C12: round robin is fair. While the set of ready workers and their breakers do not change
  and the counter does not wrap around, any \<open>m\<close> full rounds of selections choose every ready
  worker exactly \<open>m\<close> times, from whatever counter value they start.
\<close>

theorem round_robin_fair:
  assumes "length obs < 2 ^ 64" and "\<forall>ob \<in> set obs. is_healthy h ob \<longrightarrow> \<not> breaker_open h ob"
    and "i \<in> set (ready_indices h obs)" and "length clks = m * length (ready_indices h obs)"
    and "unat (counter p) + length clks < 2 ^ 64"
  shows "count_list (rr_run clks obs (p, h)) (Some i) = m"
proof -
  let ?r = "ready_indices h obs"
  have ne: "?r \<noteq> []" using assms(3) by auto
  have "rr_run clks obs (p, h) = map Some (map (\<lambda>j. ?r ! ((unat (counter p) + j) mod length ?r)) [0..<m * length ?r])"
    using rr_run_stable [OF assms(1,2) ne assms(5)] assms(4) by (simp add: comp_def)
  moreover have "count_list (map Some xs) (Some i) = count_list xs i" for xs :: "nat list"
    by (induction xs) auto
  moreover have "distinct ?r" by (simp add: ready_indices_def)
  ultimately show ?thesis
    using count_round [of ?r i "unat (counter p)" m] assms(3) by (simp del: map_map)
qed

theorem round_robin_fair_witness:
  "count_list (rr_run (replicate 4 (\<lambda>_. (0, 0))) [0, 1] (rr_new, demo_heap)) (Some 1) = 2"
proof -
  have r: "ready_indices demo_heap [0, 1] = [0, 1]" by (simp add: ready_indices_def demo_ready)
  show ?thesis
    using round_robin_fair [of "[0, 1]" demo_heap 1 "replicate 4 (\<lambda>_. (0, 0))" 2 rr_new]
    by (simp only: r) (simp add: demo_ready rr_new_def)
qed

text \<open>
  power of two choices. With at least two available workers it compares two different
  ones and never sends the request to the one with more requests in flight when token usage
  is not known for both; its choice is counted as processed.
\<close>

theorem power_of_two_prefers_lower:
  assumes "ieee_rounding rnd" and "exact_below rnd (2 ^ 53)"
    and "get_healthy_worker_indices clk obs h = (ix, h1)" and "2 \<le> length ix"
    and "\<forall>i \<in> set ix. cached_loads p (url h1 (obs ! i)) = None \<and> unat (load h1 (obs ! i)) \<le> 2 ^ 53"
  shows "\<exists>a b. a \<in> set ix \<and> b \<in> set ix \<and> a \<noteq> b \<and> load h1 (obs ! a) \<le> load h1 (obs ! b) \<and>
    p2_select_worker rnd draws clk obs (p, h) = (Some a, p, increment_processed (obs ! a) h1)"
proof -
  obtain a b where ab: "a \<in> set ix" "b \<in> set ix" "a \<noteq> b" "p2_select_worker rnd draws clk obs (p, h) =
      (let (load1, load2) = p2_loads rnd p h1 (obs ! a) (obs ! b); i = (if load1 \<le> load2 then a else b)
       in (Some i, p, increment_processed (obs ! i) h1))" by (rule p2_select_choice [OF assms(3,4)])
  have exact: "i \<in> set ix \<Longrightarrow> rnd (of_nat (unat (load h1 (obs ! i)))) = of_nat (unat (load h1 (obs ! i)))" for i
    using exact_belowD [OF assms(2)] assms(5) by blast
  have "p2_loads rnd p h1 (obs ! a) (obs ! b) =
      (of_nat (unat (load h1 (obs ! a))), of_nat (unat (load h1 (obs ! b))))"
    using exact ab(1,2) assms(5) by (simp only: p2_loads_def option.case prod.case)
  then have sel: "p2_select_worker rnd draws clk obs (p, h) =
      (let i = (if load h1 (obs ! a) \<le> load h1 (obs ! b) then a else b)
       in (Some i, p, increment_processed (obs ! i) h1))"
    by (simp only: ab(4) Let_def prod.case of_nat_le_iff word_le_nat_alt)
  show ?thesis
  proof (cases "load h1 (obs ! a) \<le> load h1 (obs ! b)")
    case True
    with sel have "p2_select_worker rnd draws clk obs (p, h) = (Some a, p, increment_processed (obs ! a) h1)"
      by (simp only: if_True Let_def)
    with True ab(1-3) show ?thesis by blast
  next
    case False
    with sel have "p2_select_worker rnd draws clk obs (p, h) = (Some b, p, increment_processed (obs ! b) h1)"
      by (simp only: if_False Let_def)
    moreover have "load h1 (obs ! b) \<le> load h1 (obs ! a)" using False by (simp only: linear not_le less_imp_le)
    ultimately show ?thesis using ab(1-3) by blast
  qed
qed

theorem power_of_two_prefers_lower_witness:
  "\<exists>a b. a \<noteq> b \<and> fst (p2_select_worker (\<lambda>x. x) (0, 0) (\<lambda>_. (0, 0)) [0, 1] (p2_new, demo_heap)) = Some a"
proof -
  have g: "get_healthy_worker_indices (\<lambda>_. (0, 0)) [0, 1] demo_heap = ([0, 1], demo_heap)"
    using healthy_indices_stable [of "[0, 1]" demo_heap] by (simp add: demo_ready ready_indices_def)
  have "\<forall>i \<in> set [0, 1]. cached_loads p2_new (url demo_heap ([0, 1] ! i)) = None \<and>
      unat (load demo_heap ([0, 1] ! i)) \<le> 2 ^ 53"
    by (simp add: p2_new_def load_def runtime_of_def demo_heap_def new_runtime_def)
  from power_of_two_prefers_lower [OF ieee_rounding_id exact_below_id g _ this, of "(0, 0)"]
  obtain a b where "a \<noteq> b" "p2_select_worker (\<lambda>x. x) (0, 0) (\<lambda>_. (0, 0)) [0, 1] (p2_new, demo_heap) =
      (Some a, p2_new, increment_processed ([0, 1] ! a) demo_heap)" by auto
  then show ?thesis by (metis fst_conv)
qed

text \<open>
  session affinity of manual routing. A request with a routing key is sent to some
  available worker; as long as the same workers are available, every later request with that
  key goes to the same one, however the loads have changed in between. At most two candidates
  are remembered for a key.
\<close>

theorem manual_routing_is_sticky:
  assumes "get_healthy_worker_indices clk obs h = (ix, h1)" and "get_healthy_worker_indices clk' obs h2 = (ix, h3)"
    and "objs h2 = objs h1" and "distinct (map (url h) obs)" and "extract_routing_key headers = Some rid"
    and "manual_select_worker (d, now, headers) clk obs (p, h) = (Some i, p1, h1)"
  shows "fst (manual_select_worker (d', now', headers) clk' obs (p1, h2)) = Some i"
proof -
  have ix: "ix \<noteq> []"
    using manual_select_cases [OF assms(1,6)] by auto
  have sub: "set ix \<subseteq> {..<length obs}" using healthy_indices(4) [OF assms(1)] by auto
  have o: "objs h1 = objs h" "objs h3 = objs h2"
    using healthy_indices(1) [OF assms(1)] healthy_indices(1) [OF assms(2)] by simp_all
  have urls: "url h1 = url h" "url h3 = url h" using o assms(3) by (simp_all add: url_def fun_eq_iff)
  obtain b where sel: "select_by_routing_id d now p h1 obs rid ix = (i, b, p1)"
    using assms(1,5,6) ix
    by (auto simp: manual_select_worker_def manual_select_worker_impl_def split: prod.splits)
  obtain node where node: "routing_map p1 rid = Some node"
    "find_healthy_worker h1 (candi_worker_urls node) obs ix = Some i"
    using routing_id_remembers [OF sel ix sub] assms(4) urls by auto
  have find: "find_healthy_worker h3 us obs ix = find_healthy_worker h1 us obs ix" for us
    by (induction us) (simp_all add: find_worker_index_by_url_def urls split: option.splits)
  show ?thesis
    using assms(2,5) ix node find
    by (simp add: manual_select_worker_def manual_select_worker_impl_def select_by_routing_id_def Let_def)
qed

theorem manual_routing_is_sticky_witness:
  "fst (manual_select_worker (7, 5, Some (\<lambda>_. Some (Some ''k''))) (\<lambda>_. (9, 9)) [0]
     (snd (manual_select_worker (0, 0, Some (\<lambda>_. Some (Some ''k''))) (\<lambda>_. (0, 0)) [0]
        (\<lparr>routing_map = Map.empty, assignment_mode = MinLoad\<rparr>, demo_heap)))) = Some 0"
proof -
  let ?p = "\<lparr>routing_map = Map.empty, assignment_mode = MinLoad\<rparr>" and ?hd = "Some (\<lambda>_. Some (Some ''k''))"
  have g: "get_healthy_worker_indices clk [0] demo_heap = ([0], demo_heap)" for clk
    using healthy_indices_stable [of "[0]" demo_heap clk] by (simp add: demo_ready ready_indices_def)
  obtain r p1 h1 where s: "manual_select_worker (0, 0, ?hd) (\<lambda>_. (0, 0)) [0] (?p, demo_heap) = (r, p1, h1)"
    by (metis prod_cases3)
  with manual_select_cases [OF g this] have sel:
    "manual_select_worker (0, 0, ?hd) (\<lambda>_. (0, 0)) [0] (?p, demo_heap) = (Some 0, p1, demo_heap)" by auto
  have "extract_routing_key ?hd = Some ''k''"
    by (simp add: extract_routing_key_def extract_header_value_def)
  from manual_routing_is_sticky [OF g g refl _ this sel, of 7 5 "\<lambda>_. (9, 9)"] sel
  show ?thesis by simp
qed

end
