(* ===== verification/HashRing.thy ===== *)
theory HashRing
  imports SelectionPolicies
begin

text \<open>
  The consistent hash ring (\<open>model_gateway/src/worker/hash_ring.rs\<close>) and the two policies that
  use it: consistent hashing and prefix hashing (\<open>policies/consistent_hashing.rs\<close>,
  \<open>policies/prefix_hash.rs\<close>). The hash functions blake3 (its first eight bytes, little
  endian) and xxh3 are parameters. The sort of the ring is unstable: the order in which it leaves
  entries at the same position is a parameter too, and nothing is assumed of it.
\<close>

section \<open>Model\<close>

definition VIRTUAL_NODES_PER_WORKER :: nat where "VIRTUAL_NODES_PER_WORKER = 150"

text \<open>Decimal and zero-padded hexadecimal printing, as \<open>format!\<close> does it.\<close>

definition digit :: "nat \<Rightarrow> char" where
  "digit d = (if d < 10 then char_of (48 + d) else char_of (87 + d))"

fun show_nat :: "nat \<Rightarrow> string" where
  "show_nat n = (if n < 10 then [digit n] else show_nat (n div 10) @ [digit (n mod 10)])"

declare show_nat.simps [simp del]

definition show_hex16 :: "u64 \<Rightarrow> string" where
  "show_hex16 w = map (\<lambda>i. digit (unat w div 16 ^ (15 - i) mod 16)) [0..<16]"

type_synonym hash_ring = "(u64 \<times> string) list"

definition vnodes :: "(string \<Rightarrow> u64) \<Rightarrow> string \<Rightarrow> hash_ring" where
  "vnodes hash_position u =
     map (\<lambda>vnode. (hash_position (u @ ''#'' @ show_nat vnode), u)) [0..<VIRTUAL_NODES_PER_WORKER]"

text \<open>
  \<open>sort_unstable_by_key\<close> on the positions: sorted, with the entries of one position in whatever order
  \<open>tie\<close> puts them in. Every permutation sorted by position is the result for some \<open>tie\<close>; a \<open>tie\<close> that is
  not a permutation is ignored.
\<close>

definition sort_unstable :: "(hash_ring \<Rightarrow> hash_ring) \<Rightarrow> hash_ring \<Rightarrow> hash_ring" where
  "sort_unstable tie es = sort_key fst (if mset (tie es) = mset es then tie es else es)"

text \<open>What a ring is built with: the order of entries at one position, and the hash of the positions.\<close>

type_synonym ring_hash = "(hash_ring \<Rightarrow> hash_ring) \<times> (string \<Rightarrow> u64)"

definition new_ring :: "ring_hash \<Rightarrow> string list \<Rightarrow> hash_ring" where
  "new_ring hp urls = sort_unstable (fst hp) (concat (map (vnodes (snd hp)) urls))"

text \<open>\<open>partition_point\<close> on a sorted slice: the number of leading entries below the key.\<close>

definition partition_point :: "('a \<Rightarrow> bool) \<Rightarrow> 'a list \<Rightarrow> nat" where
  "partition_point p xs = length (takeWhile p xs)"

text \<open>The clockwise walk, \<open>n\<close> entries before the end; \<open>checked_urls\<close> has the URLs already asked.\<close>

fun ring_walk :: "(string \<Rightarrow> bool) \<Rightarrow> hash_ring \<Rightarrow> nat \<Rightarrow> nat \<Rightarrow> string list \<Rightarrow> string option" where
  "ring_walk healthy entries start 0 checked_urls = None"
| "ring_walk healthy entries start (Suc n) checked_urls =
     (let i = length entries - Suc n;
          u = snd (entries ! ((start + i) mod length entries))
      in if u \<in> set checked_urls then ring_walk healthy entries start n checked_urls
         else if healthy u then Some u
         else ring_walk healthy entries start n (u # checked_urls))"

definition find_healthy_url :: "(string \<Rightarrow> u64) \<Rightarrow> hash_ring \<Rightarrow> string \<Rightarrow> (string \<Rightarrow> bool) \<Rightarrow> string option" where
  "find_healthy_url hash_position entries key healthy =
     (if entries = [] then None
      else
        (let key_pos = hash_position key;
             start = partition_point (\<lambda>e. fst e < key_pos) entries
         in ring_walk healthy entries start (length entries) []))"

definition worker_count :: "hash_ring \<Rightarrow> nat" where
  "worker_count entries = length entries div max VIRTUAL_NODES_PER_WORKER 1"

text \<open>What a policy gets with a request: headers, tokens and the ring of the model.\<close>

record select_info =
  i_headers :: "header_map option"
  i_tokens :: "u32 list option"
  i_hash_ring :: "hash_ring option"

text \<open>The map from the URLs of ready workers to indices; a later worker overwrites an earlier one.\<close>

definition healthy_url_to_idx :: "worker_heap \<Rightarrow> nat list \<Rightarrow> string \<rightharpoonup> nat" where
  "healthy_url_to_idx h workers =
     map_of (rev (map (\<lambda>i. (url h (workers ! i), i)) (ready_indices h workers)))"

datatype ch_branch = ChNoHealthyWorkers | TargetWorkerHit | TargetWorkerMiss | RoutingKeyHit | RandomFallback

text \<open>
  The values of the URL map are collected in hash-map order and sorted: the indices that won
  their URL, in increasing order.
\<close>

definition find_by_consistent_hash ::
  "(string \<Rightarrow> u64) \<Rightarrow> worker_heap \<Rightarrow> nat list \<Rightarrow> select_info \<Rightarrow> string \<Rightarrow> nat option" where
  "find_by_consistent_hash hash_position h workers info key =
     (let m = healthy_url_to_idx h workers
      in if ready_indices h workers = [] then None
         else case i_hash_ring info of
           Some ring \<Rightarrow>
             (case find_healthy_url hash_position ring key (\<lambda>u. m u \<noteq> None) of
                None \<Rightarrow> None
              | Some u \<Rightarrow> m u)
         | None \<Rightarrow>
             (let healthy_indices = filter (\<lambda>i. m (url h (workers ! i)) = Some i) (ready_indices h workers);
                  idx = unat (hash_position key) mod length healthy_indices
              in Some (healthy_indices ! idx)))"

text \<open>\<open>str::parse::<usize>\<close>: an optional plus sign, then decimal digits, without overflow.\<close>

definition is_digit :: "char \<Rightarrow> bool" where
  "is_digit c \<longleftrightarrow> 48 \<le> (of_char c :: nat) \<and> (of_char c :: nat) \<le> 57"

definition parse_usize :: "string \<Rightarrow> nat option" where
  "parse_usize s =
     (let ds = (case s of [] \<Rightarrow> [] | c # cs \<Rightarrow> if c = CHR ''+'' then cs else s);
          n = foldl (\<lambda>a c. 10 * a + ((of_char c :: nat) - 48)) 0 ds
      in if ds \<noteq> [] \<and> list_all is_digit ds \<and> n < 2 ^ 64 then Some n else None)"

text \<open>The implicit routing key: the first present header of three, if it is non-empty text.\<close>

definition implicit_key :: "header_map option \<Rightarrow> string option" where
  "implicit_key headers =
     (case headers of
        None \<Rightarrow> None
      | Some hm \<Rightarrow>
          (let v = (case hm ''authorization'' of
                      Some v \<Rightarrow> Some v
                    | None \<Rightarrow> (case hm ''x-forwarded-for'' of Some v \<Rightarrow> Some v | None \<Rightarrow> hm ''cookie''))
           in case v of Some (Some s) \<Rightarrow> if s = [] then None else Some s | _ \<Rightarrow> None))"

definition ch_select_worker_impl ::
  "(string \<Rightarrow> u64) \<Rightarrow> nat \<Rightarrow> worker_heap \<Rightarrow> nat list \<Rightarrow> select_info \<Rightarrow> nat option \<times> ch_branch" where
  "ch_select_worker_impl hash_position draw h workers info =
     (if workers = [] then (None, ChNoHealthyWorkers)
      else case extract_target_worker (i_headers info) of
        Some idx_str \<Rightarrow>
          (case parse_usize idx_str of
             Some idx \<Rightarrow>
               if idx < length workers \<and> is_healthy h (workers ! idx) then (Some idx, TargetWorkerHit)
               else (None, TargetWorkerMiss)
           | None \<Rightarrow> (None, TargetWorkerMiss))
      | None \<Rightarrow>
          (case (case extract_routing_key (i_headers info) of
                   Some k \<Rightarrow> Some k | None \<Rightarrow> implicit_key (i_headers info)) of
             Some key \<Rightarrow>
               (case find_by_consistent_hash hash_position h workers info key of
                  Some idx \<Rightarrow> (Some idx, RoutingKeyHit)
                | None \<Rightarrow> (None, ChNoHealthyWorkers))
           | None \<Rightarrow>
               (let healthy = ready_indices h workers
                in if length healthy = 0 then (None, ChNoHealthyWorkers)
                   else (Some (healthy ! random_range draw (length healthy)), RandomFallback))))"

definition ch_select_worker ::
  "(string \<Rightarrow> u64) \<times> nat \<times> select_info \<Rightarrow> (nat \<Rightarrow> cb_clock) \<Rightarrow> nat list \<Rightarrow> unit \<times> worker_heap \<Rightarrow>
   nat option \<times> unit \<times> worker_heap" where
  "ch_select_worker inp clk workers = (\<lambda>(p, h).
     case inp of (hash_position, draw, info) \<Rightarrow>
       (fst (ch_select_worker_impl hash_position draw h workers info), p, h))"

record prefix_hash_config =
  prefix_token_count :: usize
  load_factor :: rat

definition default_prefix_hash_config :: prefix_hash_config where
  "default_prefix_hash_config = \<lparr>prefix_token_count = 256, load_factor = 5 / 4\<rparr>"

datatype ph_branch = PhNoHealthyWorkers | NoTokens | RingHit | LoadBalanceWalk | FallbackLeastLoad

text \<open>\<open>bytemuck::cast_slice\<close> of tokens to bytes on a little-endian machine.\<close>

definition le_bytes :: "u32 \<Rightarrow> u8 list" where
  "le_bytes w = map (\<lambda>i. of_nat (unat w div 256 ^ i)) [0..<4]"

definition compute_prefix_hash :: "(u8 list \<Rightarrow> u64) \<Rightarrow> prefix_hash_config \<Rightarrow> u32 list \<Rightarrow> u64" where
  "compute_prefix_hash xxh3 cfg tokens =
     (let prefix_len = min (length tokens) (unat (prefix_token_count cfg))
      in xxh3 (concat (map le_bytes (take prefix_len tokens))))"

definition load_ok :: "(rat \<Rightarrow> rat) \<Rightarrow> prefix_hash_config \<Rightarrow> usize \<Rightarrow> usize \<Rightarrow> nat \<Rightarrow> bool" where
  "load_ok rnd cfg worker_load total_load num_workers =
     (if total_load = 0 \<or> num_workers = 0 then True
      else
        (let avg_load = rnd (rnd (of_nat (unat (total_load + 1))) / rnd (of_nat num_workers));
             threshold = rnd (avg_load * load_factor cfg)
         in rnd (of_nat (unat worker_load)) \<le> threshold))"

definition find_worker_with_load_balance ::
  "(rat \<Rightarrow> rat) \<Rightarrow> (string \<Rightarrow> u64) \<Rightarrow> prefix_hash_config \<Rightarrow> worker_heap \<Rightarrow> nat list \<Rightarrow> select_info \<Rightarrow> u64 \<Rightarrow>
   nat option \<times> ph_branch" where
  "find_worker_with_load_balance rnd hash_position cfg h workers info prefix_hash =
     (let healthy_workers = ready_indices h workers;
          load_of = (\<lambda>i. load h (workers ! i));
          total_load = sum_list (map load_of healthy_workers);
          num_workers = length healthy_workers;
          ok = (\<lambda>i. load_ok rnd cfg (load_of i) total_load num_workers);
          m = healthy_url_to_idx h workers;
          fallback = (min_by_key load_of healthy_workers, FallbackLeastLoad)
      in if healthy_workers = [] then (None, PhNoHealthyWorkers)
         else case i_hash_ring info of
           None \<Rightarrow> fallback
         | Some ring \<Rightarrow>
             (case find_healthy_url hash_position ring (show_hex16 prefix_hash) (\<lambda>u. m u \<noteq> None) of
                None \<Rightarrow> fallback
              | Some initial_url \<Rightarrow>
                  (case m initial_url of
                     None \<Rightarrow> fallback
                   | Some idx \<Rightarrow>
                       if ok idx then (Some idx, RingHit)
                       else case min_by_key load_of (filter ok healthy_workers) of
                              Some idx' \<Rightarrow> (Some idx', LoadBalanceWalk)
                            | None \<Rightarrow> (Some idx, LoadBalanceWalk))))"

definition ph_select_worker_impl ::
  "(rat \<Rightarrow> rat) \<Rightarrow> (string \<Rightarrow> u64) \<Rightarrow> (u8 list \<Rightarrow> u64) \<Rightarrow> prefix_hash_config \<Rightarrow> worker_heap \<Rightarrow> nat list \<Rightarrow>
   select_info \<Rightarrow> nat option \<times> ph_branch" where
  "ph_select_worker_impl rnd hash_position xxh3 cfg h workers info =
     (if workers = [] then (None, PhNoHealthyWorkers)
      else case i_tokens info of
        Some t \<Rightarrow>
          if t = [] then (None, NoTokens)
          else find_worker_with_load_balance rnd hash_position cfg h workers info (compute_prefix_hash xxh3 cfg t)
      | None \<Rightarrow> (None, NoTokens))"

definition ph_select_worker ::
  "(rat \<Rightarrow> rat) \<times> (string \<Rightarrow> u64) \<times> (u8 list \<Rightarrow> u64) \<times> select_info \<Rightarrow> (nat \<Rightarrow> cb_clock) \<Rightarrow> nat list \<Rightarrow>
   prefix_hash_config \<times> worker_heap \<Rightarrow> nat option \<times> prefix_hash_config \<times> worker_heap" where
  "ph_select_worker inp clk workers = (\<lambda>(cfg, h).
     case inp of (rnd, hash_position, xxh3, info) \<Rightarrow>
       (fst (ph_select_worker_impl rnd hash_position xxh3 cfg h workers info), cfg, h))"

text \<open>The entries of a ring in the order in which a key visits them.\<close>

definition clockwise :: "u64 \<Rightarrow> hash_ring \<Rightarrow> hash_ring" where
  "clockwise k es = filter (\<lambda>e. k \<le> fst e) es @ filter (\<lambda>e. fst e < k) es"

section \<open>Lemmas\<close>

lemma ring_walk_find:
  assumes "n \<le> length es" and "\<forall>u \<in> set checked. \<not> healthy u"
  shows "ring_walk healthy es start n checked = find healthy (map snd (drop (length es - n) (rotate start es)))"
  using assms
proof (induction n arbitrary: checked)
  case (Suc n)
  let ?i = "length es - Suc n"
  have i: "?i < length (rotate start es)" using Suc.prems(1) by simp
  have drop: "drop ?i (rotate start es) = es ! ((start + ?i) mod length es) # drop (length es - n) (rotate start es)"
    using Cons_nth_drop_Suc [OF i] Suc.prems(1) by (simp add: nth_rotate Suc_diff_Suc)
  show ?case
    unfolding drop using Suc.IH Suc.prems by (auto simp: Let_def)
qed simp

lemma rotate_takeWhile: "rotate (length (takeWhile p xs)) xs = dropWhile p xs @ takeWhile p xs"
proof (cases "length (takeWhile p xs) = length xs")
  case True
  then have "takeWhile p xs = xs" by (metis takeWhile_eq_take take_all order.refl)
  then show ?thesis by (metis append_Nil2 append_Nil rotate_length01 rotate_append takeWhile_dropWhile_id self_append_conv)
next
  case False
  then have "length (takeWhile p xs) < length xs" by (metis length_takeWhile_le le_neq_implies_less)
  then show ?thesis by (simp add: rotate_drop_take flip: takeWhile_eq_take dropWhile_eq_drop)
qed

lemma sorted_split:
  "sorted (map fst es) \<Longrightarrow>
     takeWhile (\<lambda>e. fst e < k) es = filter (\<lambda>e. fst e < k) es \<and>
     dropWhile (\<lambda>e. fst e < k) es = filter (\<lambda>e. k \<le> fst e) es"
  for k :: "'a :: linorder"
proof (induction es)
  case (Cons e es)
  show ?case
  proof (cases "fst e < k")
    case False
    then have "\<forall>e' \<in> set (e # es). k \<le> fst e'" using Cons.prems by auto
    then have "filter (\<lambda>e. fst e < k) (e # es) = []" "filter (\<lambda>e. k \<le> fst e) (e # es) = e # es"
      by (auto simp: filter_empty_conv filter_id_conv)
    with False show ?thesis by simp
  qed (use Cons in auto)
qed simp

lemma find_healthy_url_find:
  assumes "sorted (map fst es)"
  shows "find_healthy_url hash es key healthy = find healthy (map snd (clockwise (hash key) es))"
  using sorted_split [OF assms, of "hash key"]
  by (simp add: find_healthy_url_def Let_def ring_walk_find partition_point_def rotate_takeWhile clockwise_def)

lemma sort_unstable_mset [simp]: "mset (sort_unstable tie es) = mset es"
  by (simp add: sort_unstable_def)

lemma sort_unstable_sorted [simp]: "sorted (map fst (sort_unstable tie es))"
  by (simp add: sort_unstable_def)

lemma sort_unstable_onto:
  assumes "mset es' = mset es" "sorted (map fst es')"
  shows "\<exists>tie. sort_unstable tie es = es'"
  using assms by (intro exI [of _ "\<lambda>_. es'"]) (simp add: sort_unstable_def sort_key_id_if_sorted)

lemma new_ring_sorted [simp]: "sorted (map fst (new_ring hp urls))"
  by (simp add: new_ring_def)

lemma new_ring_mset: "mset (new_ring hp urls) = mset (concat (map (vnodes (snd hp)) urls))"
  by (simp add: new_ring_def)

lemma vnodes_url: "e \<in> set (vnodes hash u) \<Longrightarrow> snd e = u"
  by (auto simp: vnodes_def)

lemma vnodes_nonempty: "\<exists>p. (p, u) \<in> set (vnodes hash u)"
proof
  show "(hash (u @ ''#'' @ show_nat 0), u) \<in> set (vnodes hash u)"
    by (simp add: vnodes_def VIRTUAL_NODES_PER_WORKER_def image_iff) force
qed

lemma new_ring_urls: "snd ` set (new_ring hp urls) = set urls"
proof -
  have "set (new_ring hp urls) = set (concat (map (vnodes (snd hp)) urls))"
    by (metis new_ring_mset set_mset_mset)
  then show ?thesis using vnodes_url vnodes_nonempty by force
qed

text \<open>Positions that only one URL has: then the order of entries at one position does not matter.\<close>

definition no_shared_positions :: "(string \<Rightarrow> u64) \<Rightarrow> string list \<Rightarrow> bool" where
  "no_shared_positions hash urls \<longleftrightarrow>
     (\<forall>e \<in> set (concat (map (vnodes hash) urls)). \<forall>e' \<in> set (concat (map (vnodes hash) urls)).
        fst e = fst e' \<longrightarrow> snd e = snd e')"

lemma sorted_unique:
  assumes "mset es = mset es'" "sorted (map fst es)" "sorted (map fst es')"
    and "inj_on fst (set es)"
  shows "es = es'"
  using assms
proof (induction es arbitrary: es')
  case (Cons e es)
  then obtain e' es2 where es': "es' = e' # es2" by (cases es') auto
  have "set (e # es) = set es'" using Cons.prems(1) by (metis set_mset_mset)
  then have mem: "e \<in> set es'" "e' \<in> set (e # es)" by (auto simp: es')
  then have "fst e = fst e'" using Cons.prems(2,3) by (auto simp: es' intro: antisym)
  with mem(2) Cons.prems(4) have "e = e'" by (meson inj_onD list.set_intros(1))
  with Cons es' show ?case by auto
qed simp

lemma new_ring_remove:
  assumes "no_shared_positions hash urls"
  shows "new_ring (tie', hash) (filter p urls) = filter (\<lambda>e. p (snd e)) (new_ring (tie, hash) urls)"
proof (rule sorted_unique)
  have "filter (\<lambda>e. p (snd e)) (vnodes hash u) = (if p u then vnodes hash u else [])" for u
    using vnodes_url [of _ hash u] by (auto simp: filter_id_conv filter_empty_conv)
  then have flt: "filter (\<lambda>e. p (snd e)) (concat (map (vnodes hash) urls)) = concat (map (vnodes hash) (filter p urls))"
    by (induction urls) auto
  show "mset (new_ring (tie', hash) (filter p urls)) = mset (filter (\<lambda>e. p (snd e)) (new_ring (tie, hash) urls))"
    by (simp add: new_ring_mset mset_filter flip: flt)
  show "sorted (map fst (filter (\<lambda>e. p (snd e)) (new_ring (tie, hash) urls)))"
    by (rule sorted_filter) simp
  have "set (new_ring (tie', hash) (filter p urls)) \<subseteq> set (concat (map (vnodes hash) urls))"
    by (metis flt filter_is_subset new_ring_mset set_mset_mset snd_conv)
  with assms show "inj_on fst (set (new_ring (tie', hash) (filter p urls)))"
    unfolding no_shared_positions_def by (intro inj_onI prod_eqI) blast+
qed simp

lemma find_filter: "find p xs = Some u \<Longrightarrow> q u \<Longrightarrow> find p (filter q xs) = Some u"
  by (induction xs) (auto split: if_splits)

lemma clockwise_filter: "clockwise k (filter p es) = filter p (clockwise k es)"
  by (simp add: clockwise_def conj_commute)

lemma set_clockwise [simp]: "set (clockwise k es) = set es"
  by (auto simp: clockwise_def)

lemma set_ready_indices: "i \<in> set (ready_indices h obs) \<longleftrightarrow> i < length obs \<and> is_healthy h (obs ! i)"
  by (auto simp: ready_indices_def)

lemma healthy_url_to_idx_ready:
  "healthy_url_to_idx h obs u = Some i \<Longrightarrow> i \<in> set (ready_indices h obs) \<and> url h (obs ! i) = u"
  by (auto simp: healthy_url_to_idx_def dest: map_of_SomeD)

lemma healthy_url_to_idx_dom:
  "i \<in> set (ready_indices h obs) \<Longrightarrow> healthy_url_to_idx h obs (url h (obs ! i)) \<noteq> None"
  unfolding healthy_url_to_idx_def map_of_eq_None_iff by (auto simp: image_image)

lemma winners_nonempty:
  assumes "ready_indices h obs \<noteq> []"
  shows "filter (\<lambda>i. healthy_url_to_idx h obs (url h (obs ! i)) = Some i) (ready_indices h obs) \<noteq> []"
proof -
  obtain i where "i \<in> set (ready_indices h obs)" using assms by (meson last_in_set)
  then obtain j where "healthy_url_to_idx h obs (url h (obs ! i)) = Some j"
    using healthy_url_to_idx_dom by blast
  with healthy_url_to_idx_ready [OF this] show ?thesis by (force simp: filter_empty_conv)
qed

lemma find_by_consistent_hash_ready:
  assumes "find_by_consistent_hash hash h obs info key = Some i"
  shows "i \<in> set (ready_indices h obs)"
proof (cases "i_hash_ring info")
  case None
  let ?w = "filter (\<lambda>i. healthy_url_to_idx h obs (url h (obs ! i)) = Some i) (ready_indices h obs)"
  from assms None have ne: "ready_indices h obs \<noteq> []" by (auto simp: find_by_consistent_hash_def Let_def)
  with assms None have "i = ?w ! (unat (hash key) mod length ?w)"
    by (simp add: find_by_consistent_hash_def Let_def)
  also have "\<dots> \<in> set ?w" using winners_nonempty [OF ne] by (intro nth_mem) simp
  finally show ?thesis by simp
next
  case (Some ring)
  with assms show ?thesis
    by (auto simp: find_by_consistent_hash_def Let_def dest: healthy_url_to_idx_ready split: if_splits option.splits)
qed

interpretation ch: status_policy ch_select_worker
proof
  fix obs :: "nat list" and inp :: "(string \<Rightarrow> u64) \<times> nat \<times> select_info" and clk p h i p' h'
  assume "ch_select_worker inp clk obs (p, h) = (Some i, p', h')"
  then obtain hash d info where "fst (ch_select_worker_impl hash d h obs info) = Some i"
    by (cases inp) (auto simp: ch_select_worker_def)
  then show "i < length obs \<and> is_healthy h (obs ! i)"
    using find_by_consistent_hash_ready [of hash h obs info _ i] random_range_less [of "length (ready_indices h obs)" d]
      nth_mem [of "random_range d (length (ready_indices h obs))" "ready_indices h obs"]
    by (auto simp: ch_select_worker_impl_def Let_def set_ready_indices split: option.splits if_splits)
qed

lemma ph_select_ready:
  assumes "fst (find_worker_with_load_balance rnd hash cfg h obs info ph) = Some i"
  shows "i \<in> set (ready_indices h obs)"
  using assms
  by (auto simp: find_worker_with_load_balance_def Let_def split: if_splits option.splits
      dest: healthy_url_to_idx_ready min_by_key_SomeD)

interpretation ph: status_policy ph_select_worker
proof
  fix obs :: "nat list" and inp :: "(rat \<Rightarrow> rat) \<times> (string \<Rightarrow> u64) \<times> (u8 list \<Rightarrow> u64) \<times> select_info" and clk p h i p' h'
  assume "ph_select_worker inp clk obs (p, h) = (Some i, p', h')"
  then show "i < length obs \<and> is_healthy h (obs ! i)"
    by (cases inp) (auto simp: ph_select_worker_def ph_select_worker_impl_def set_ready_indices [symmetric]
        dest: ph_select_ready split: if_splits option.splits)
qed

text \<open>The load bound only depends on the load of the worker, and lower loads pass it more easily.\<close>

lemma load_ok_mono:
  assumes "ieee_rounding rnd" "l \<le> l'" "load_ok rnd cfg l' t n"
  shows "load_ok rnd cfg l t n"
proof -
  have "rnd (of_nat (unat l)) \<le> rnd (of_nat (unat l'))"
    using assms(2) by (intro rnd_mono [OF assms(1)] of_nat_mono) (simp only: word_le_nat_alt)
  with assms(3) show ?thesis unfolding load_ok_def Let_def by (auto intro: order.trans)
qed

lemma ring_lookup_nonempty:
  assumes "u \<in> set urls" "healthy u"
  shows "find_healthy_url hash (new_ring hp urls) key healthy \<noteq> None"
proof -
  have "u \<in> set (map snd (clockwise (hash key) (new_ring hp urls)))" using assms(1) by (simp add: new_ring_urls)
  with assms(2) show ?thesis
    using find_healthy_url_find [OF new_ring_sorted, of hash hp urls key healthy] by (auto simp: find_None_iff)
qed

section \<open>Properties\<close>

text \<open>
  C8: a lookup on the ring returns the URL of the first entry, clockwise from the position of
  the key and around the end, whose worker is healthy: the index arithmetic and the set of
  URLs already asked only avoid repeated questions. It finds nothing exactly when no URL of the
  ring is healthy.
\<close>

theorem ring_lookup_first_healthy:
  "find_healthy_url hash (new_ring (tie, hash) urls) key healthy =
     find healthy (map snd (clockwise (hash key) (new_ring (tie, hash) urls))) \<and>
   (find_healthy_url hash (new_ring (tie, hash) urls) key healthy = None \<longleftrightarrow> filter healthy urls = [])"
proof -
  have f: "find_healthy_url hash (new_ring (tie, hash) urls) key healthy =
      find healthy (map snd (clockwise (hash key) (new_ring (tie, hash) urls)))"
    by (rule find_healthy_url_find) simp
  have "set (map snd (clockwise (hash key) (new_ring (tie, hash) urls))) = set urls"
    by (simp add: new_ring_urls)
  then show ?thesis unfolding f by (auto simp: find_None_iff filter_empty_conv)
qed

text \<open>
  C11: consistent hashing moves few keys. If no two URLs share a ring position, removing a worker from
  the ring leaves the choice unchanged for every key that was not assigned to it, so adding one
  only moves keys to the new worker; this holds for any order in which the two sorts leave entries
  of one position. A worker that becomes unhealthy only loses its own keys.
\<close>

theorem ring_minimal_disruption:
  assumes "no_shared_positions hash urls"
    and "find_healthy_url hash (new_ring (tie, hash) urls) key healthy = Some u" and "u \<noteq> x"
  shows "find_healthy_url hash (new_ring (tie', hash) (filter (\<lambda>v. v \<noteq> x) urls)) key healthy = Some u \<and>
    find_healthy_url hash (new_ring (tie, hash) urls) key (\<lambda>v. healthy v \<and> v \<noteq> x) = Some u"
proof -
  let ?es = "map snd (clockwise (hash key) (new_ring (tie, hash) urls))"
  note look = find_healthy_url_find [OF new_ring_sorted]
  have find: "find healthy ?es = Some u" using assms(2) by (simp add: look)
  have "map snd (clockwise (hash key) (new_ring (tie', hash) (filter (\<lambda>v. v \<noteq> x) urls))) = filter (\<lambda>v. v \<noteq> x) ?es"
    by (simp add: new_ring_remove [OF assms(1), of tie' _ tie] clockwise_filter filter_map comp_def)
  moreover have "find (\<lambda>v. healthy v \<and> v \<noteq> x) es = Some u" if "find healthy es = Some u" for es
    using that assms(3) by (induction es) (auto split: if_splits)
  ultimately show ?thesis
    using find_filter [OF find, of "\<lambda>v. v \<noteq> x"] find assms(3) by (simp add: look)
qed

text \<open>Positions by the first letter of the URL; the entries of one URL all share a position.\<close>

definition first_letter :: "string \<Rightarrow> u64" where
  "first_letter s = (case s of [] \<Rightarrow> 0 | c # _ \<Rightarrow> of_nat (of_char c))"

lemma first_letter_vnodes:
  "e \<in> set (vnodes first_letter [c]) \<Longrightarrow> e = (of_nat (of_char c), [c])"
  by (auto simp: vnodes_def first_letter_def)

lemma first_letter_ok: "no_shared_positions first_letter [''a'', ''b'']"
proof -
  have mem: "e \<in> {(97, ''a''), (98, ''b'')}" if "e \<in> set (concat (map (vnodes first_letter) [''a'', ''b'']))" for e
    using that by (auto dest: first_letter_vnodes)
  have "snd e = snd e'" if "e \<in> set (concat (map (vnodes first_letter) [''a'', ''b'']))"
    "e' \<in> set (concat (map (vnodes first_letter) [''a'', ''b'']))" "fst e = fst e'" for e e'
    using that(3) that(1,2) [THEN mem] by auto
  then show ?thesis unfolding no_shared_positions_def by blast
qed

theorem ring_minimal_disruption_witness:
  "find_healthy_url first_letter (new_ring (rev, first_letter) (filter (\<lambda>v. v \<noteq> ''b'') [''a'', ''b''])) ''k'' (\<lambda>v. v = ''a'')
     = Some ''a''"
proof -
  let ?ring = "new_ring (rev, first_letter) [''a'', ''b'']"
  have "find_healthy_url first_letter ?ring ''k'' (\<lambda>v. v = ''a'') \<noteq> None"
    using ring_lookup_nonempty [of "''a''" "[''a'', ''b'']" "\<lambda>v. v = ''a''"] by simp
  then obtain u where u: "find_healthy_url first_letter ?ring ''k'' (\<lambda>v. v = ''a'') = Some u"
    by blast
  then have "find (\<lambda>v. v = ''a'') (map snd (clockwise (first_letter ''k'') ?ring)) = Some u"
    using find_healthy_url_find [OF new_ring_sorted] by simp
  then have "u = ''a''" by (auto simp: find_Some_iff)
  with ring_minimal_disruption [OF first_letter_ok u, of "''b''" rev] show ?thesis by simp
qed

text \<open>
  consistent hashing and prefix hashing only choose entries of the slice that are ready.
  (They do not consult the circuit breakers.)
\<close>

theorem hash_policies_choose_ready:
  assumes "length obs < 2 ^ 64"
    and "fst (ch_select_worker (hash, draw, info) clk obs ((), h)) = Some i \<or>
      fst (ph_select_worker (rnd, hash, xxh3, info) clk obs (cfg, h)) = Some i"
  shows "i < length obs \<and> is_healthy h (obs ! i)"
  using assms(2)
proof
  assume "fst (ch_select_worker (hash, draw, info) clk obs ((), h)) = Some i"
  then obtain p' h' where "ch_select_worker (hash, draw, info) clk obs ((), h) = (Some i, p', h')"
    by (metis prod.collapse)
  then show ?thesis by (rule ch.select_ready [OF assms(1)])
next
  assume "fst (ph_select_worker (rnd, hash, xxh3, info) clk obs (cfg, h)) = Some i"
  then obtain p' h' where "ph_select_worker (rnd, hash, xxh3, info) clk obs (cfg, h) = (Some i, p', h')"
    by (metis prod.collapse)
  then show ?thesis by (rule ph.select_ready [OF assms(1)])
qed

theorem hash_policies_choose_ready_witness:
  "is_healthy demo_heap ([3 :: nat] ! 0)"
proof -
  have "fst (ch_select_worker (\<lambda>_. 0, 0, \<lparr>i_headers = None, i_tokens = None, i_hash_ring = None\<rparr>) (\<lambda>_. (0, 0)) [3] ((), demo_heap)) = Some 0"
    by (simp add: ch_select_worker_def ch_select_worker_impl_def extract_target_worker_def extract_routing_key_def
        extract_header_value_def implicit_key_def ready_indices_def demo_ready random_range_def)
  then show ?thesis
    using hash_policies_choose_ready [of "[3]" "\<lambda>_. 0" 0 "\<lparr>i_headers = None, i_tokens = None, i_hash_ring = None\<rparr>"
        "\<lambda>_. (0, 0)" demo_heap 0] by simp
qed

text \<open>
  prefix hashing respects its load bound. If the load of some ready worker is within
  \<open>load_factor\<close> times the average (counting the incoming request), so is the load of the worker
  that it chooses, whether the ring, the overload walk or the fallback chose it.
\<close>

theorem prefix_hash_bounded_load:
  assumes "ieee_rounding rnd" and "j \<in> set (ready_indices h obs)"
    and "load_ok rnd cfg (load h (obs ! j)) (sum_list (map (\<lambda>i. load h (obs ! i)) (ready_indices h obs)))
      (length (ready_indices h obs))"
    and "fst (ph_select_worker_impl rnd hash xxh3 cfg h obs info) = Some i"
  shows "load_ok rnd cfg (load h (obs ! i)) (sum_list (map (\<lambda>i. load h (obs ! i)) (ready_indices h obs)))
    (length (ready_indices h obs))"
proof -
  let ?ok = "\<lambda>i. load_ok rnd cfg (load h (obs ! i)) (sum_list (map (\<lambda>i. load h (obs ! i)) (ready_indices h obs)))
    (length (ready_indices h obs))"
  obtain pre where sel: "fst (find_worker_with_load_balance rnd hash cfg h obs info pre) = Some i"
    using assms(4) by (auto simp: ph_select_worker_impl_def split: option.splits if_splits)
  have "filter ?ok (ready_indices h obs) \<noteq> []" using assms(2,3) by (auto simp: filter_empty_conv)
  with sel consider "?ok i" | "min_by_key (\<lambda>i. load h (obs ! i)) (filter ?ok (ready_indices h obs)) = Some i"
    | "min_by_key (\<lambda>i. load h (obs ! i)) (ready_indices h obs) = Some i"
    by (auto simp: find_worker_with_load_balance_def Let_def split: option.splits if_splits)
  then show ?thesis
  proof cases
    case 2
    then show ?thesis by (auto dest!: min_by_key_SomeD)
  next
    case 3
    then have "load h (obs ! i) \<le> load h (obs ! j)" using min_by_key_SomeD assms(2) by fastforce
    then show ?thesis by (rule load_ok_mono [OF assms(1) _ assms(3)])
  qed
qed

theorem prefix_hash_bounded_load_witness:
  "load_ok (\<lambda>x. x) default_prefix_hash_config (load demo_heap 5) 0 1"
proof -
  let ?info = "\<lparr>i_headers = None, i_tokens = Some [7], i_hash_ring = None\<rparr>"
  have r: "ready_indices demo_heap [5] = [0]" by (simp add: ready_indices_def demo_ready)
  have l: "load demo_heap 5 = 0" by (simp add: load_def runtime_of_def demo_heap_def new_runtime_def)
  have "fst (ph_select_worker_impl (\<lambda>x. x) (\<lambda>_. 0) (\<lambda>_. 0) default_prefix_hash_config demo_heap [5] ?info) = Some 0"
    by (simp add: ph_select_worker_impl_def find_worker_with_load_balance_def r Let_def)
  with prefix_hash_bounded_load [OF ieee_rounding_id, of 0 demo_heap "[5]" default_prefix_hash_config "\<lambda>_. 0" "\<lambda>_. 0" ?info 0]
  show ?thesis by (simp add: r l load_ok_def)
qed

end
