(* ===== verification/Registry.thy ===== *)
theory Registry
  imports HashRing
begin

text \<open>
  The worker registry (\<open>model_gateway/src/worker/registry.rs\<close>): the map of workers by id, and the
  indexes that are kept beside it: model index, hash rings, type and connection indexes, URL map.
  Concurrent maps that the code iterates over are association lists, whose order stands for the
  iteration order; the others are maps. A new id (a UUID) is an argument. The per-worker lock
  covers each mutation completely, so that a mutation is one step here. The broadcast channel is
  the list of the events sent; the calls on the mesh manager are logged in the same way.
\<close>

section \<open>Model\<close>

type_synonym worker_id = string

datatype worker_event =
  Registered worker_id nat
| Removed worker_id nat
| Replaced worker_id nat nat
| StatusChanged worker_id nat worker_status worker_status

datatype mesh_call =
  SyncWorkerState worker_id string string bool worker_spec
| RemoveWorkerState worker_id

record worker_descriptor =
  d_worker_id :: worker_id
  d_status :: worker_status
  d_disable_health_check :: bool
  d_check_interval_secs :: u64

record worker_registry =
  r_workers :: "(worker_id \<times> nat) list"
  r_model_index :: "(string \<times> nat list) list"
  r_hash_rings :: "string \<rightharpoonup> hash_ring"
  r_type_workers :: "worker_type \<rightharpoonup> worker_id list"
  r_connection_workers :: "connection_mode \<rightharpoonup> worker_id list"
  r_url_to_id :: "(string \<times> worker_id) list"
  r_mesh_sync :: "mesh_call list option"
  r_model_retry_configs :: "string \<rightharpoonup> retry_config"
  r_events :: "worker_event list"

definition new_registry :: worker_registry where
  "new_registry =
     \<lparr>r_workers = [], r_model_index = [], r_hash_rings = Map.empty, r_type_workers = Map.empty,
      r_connection_workers = Map.empty, r_url_to_id = [], r_mesh_sync = None,
      r_model_retry_configs = Map.empty, r_events = []\<rparr>"

subsection \<open>Reads\<close>

definition get_worker :: "worker_registry \<Rightarrow> worker_id \<Rightarrow> nat option" where
  "get_worker r i = map_of (r_workers r) i"

definition get_by_url :: "worker_registry \<Rightarrow> string \<Rightarrow> nat option" where
  "get_by_url r u = Option.bind (map_of (r_url_to_id r) u) (get_worker r)"

definition get_url_by_id :: "worker_heap \<Rightarrow> worker_registry \<Rightarrow> worker_id \<Rightarrow> string option" where
  "get_url_by_id h r i =
     (case get_worker r i of
        Some ob \<Rightarrow> Some (url h ob)
      | None \<Rightarrow> map_option fst (find (\<lambda>e. snd e = i) (r_url_to_id r)))"

definition get_hash_ring :: "worker_registry \<Rightarrow> string \<Rightarrow> hash_ring option" where
  "get_hash_ring r m = r_hash_rings r m"

definition get_by_model :: "worker_registry \<Rightarrow> string \<Rightarrow> nat list" where
  "get_by_model r m = (case map_of (r_model_index r) m of Some ws \<Rightarrow> ws | None \<Rightarrow> [])"

definition ids_or_empty :: "('k \<rightharpoonup> worker_id list) \<Rightarrow> 'k \<Rightarrow> worker_id list" where
  "ids_or_empty ix k = (case ix k of Some ids \<Rightarrow> ids | None \<Rightarrow> [])"

definition get_by_type :: "worker_registry \<Rightarrow> worker_type \<Rightarrow> nat list" where
  "get_by_type r t = List.map_filter (get_worker r) (ids_or_empty (r_type_workers r) t)"

definition get_by_connection :: "worker_registry \<Rightarrow> connection_mode \<Rightarrow> nat list" where
  "get_by_connection r c = List.map_filter (get_worker r) (ids_or_empty (r_connection_workers r) c)"

definition get_prefill_workers :: "worker_registry \<Rightarrow> nat list" where
  "get_prefill_workers r = get_by_type r Prefill"

definition get_decode_workers :: "worker_registry \<Rightarrow> nat list" where
  "get_decode_workers r = get_by_type r Decode"

definition get_all :: "worker_registry \<Rightarrow> nat list" where
  "get_all r = map snd (r_workers r)"

definition get_all_with_ids :: "worker_registry \<Rightarrow> (worker_id \<times> nat) list" where
  "get_all_with_ids r = r_workers r"

definition get_all_urls :: "worker_heap \<Rightarrow> worker_registry \<Rightarrow> string list" where
  "get_all_urls h r = map (\<lambda>e. url h (snd e)) (r_workers r)"

definition get_workers_filtered ::
  "worker_heap \<Rightarrow> worker_registry \<Rightarrow> string option \<Rightarrow> worker_type option \<Rightarrow> connection_mode option \<Rightarrow>
   runtime_type option \<Rightarrow> bool \<Rightarrow> nat list" where
  "get_workers_filtered h r m t c rt healthy_only =
     (let workers = (case m of Some model \<Rightarrow> get_by_model r model | None \<Rightarrow> get_all r)
      in filter (\<lambda>w.
           if (case t of Some wtype \<Rightarrow> worker_type_of h w \<noteq> wtype | None \<Rightarrow> False) then False
           else if (case c of Some conn \<Rightarrow> connection_mode_of h w \<noteq> conn | None \<Rightarrow> False) then False
           else if (case rt of Some rt \<Rightarrow> sp_runtime_type (w_spec (objs h w)) \<noteq> rt | None \<Rightarrow> False) then False
           else if healthy_only \<and> \<not> is_healthy h w then False
           else True) workers)"

definition reconcile_snapshot :: "worker_heap \<Rightarrow> worker_registry \<Rightarrow> worker_descriptor list" where
  "reconcile_snapshot h r =
     map (\<lambda>(i, w).
       \<lparr>d_worker_id = i, d_status = status h w,
        d_disable_health_check = h_disable_health_check (w_health_config (objs h w)),
        d_check_interval_secs = h_check_interval_secs (w_health_config (objs h w))\<rparr>) (r_workers r)"

definition get_models :: "worker_registry \<Rightarrow> string list" where
  "get_models r = map fst (filter (\<lambda>e. snd e \<noteq> []) (r_model_index r))"

definition registry_len :: "worker_registry \<Rightarrow> nat" where
  "registry_len r = length (r_workers r)"

record registry_stats =
  total_workers :: nat
  total_models :: nat
  healthy_workers :: nat
  unhealthy_workers :: nat
  total_load :: usize
  regular_workers :: nat
  prefill_workers :: nat
  decode_workers :: nat
  http_workers :: nat
  grpc_workers :: nat
  circuit_breaker_open :: nat
  circuit_breaker_half_open :: nat

definition stats_step :: "worker_heap \<Rightarrow> registry_stats \<Rightarrow> worker_id \<times> nat \<Rightarrow> registry_stats" where
  "stats_step h s e =
     (let w = snd e;
          s = (if is_healthy h w then s\<lparr>healthy_workers := healthy_workers s + 1\<rparr> else s);
          s = s\<lparr>total_load := total_load s + load h w\<rparr>;
          s = (case worker_type_of h w of
                 Regular \<Rightarrow> s\<lparr>regular_workers := regular_workers s + 1\<rparr>
               | Prefill \<Rightarrow> s\<lparr>prefill_workers := prefill_workers s + 1\<rparr>
               | Decode \<Rightarrow> s\<lparr>decode_workers := decode_workers s + 1\<rparr>);
          s = (case connection_mode_of h w of
                 Http \<Rightarrow> s\<lparr>http_workers := http_workers s + 1\<rparr>
               | Grpc \<Rightarrow> s\<lparr>grpc_workers := grpc_workers s + 1\<rparr>)
      in case from_int (cb_state (breaker_of h w)) of
           Open \<Rightarrow> s\<lparr>circuit_breaker_open := circuit_breaker_open s + 1\<rparr>
         | HalfOpen \<Rightarrow> s\<lparr>circuit_breaker_half_open := circuit_breaker_half_open s + 1\<rparr>
         | Closed \<Rightarrow> s)"

definition registry_stats_of :: "worker_heap \<Rightarrow> worker_registry \<Rightarrow> registry_stats" where
  "registry_stats_of h r =
     (let n = length (r_workers r);
          s = foldl (stats_step h)
                \<lparr>total_workers = n, total_models = length (filter (\<lambda>e. snd e \<noteq> []) (r_model_index r)),
                 healthy_workers = 0, unhealthy_workers = 0, total_load = 0, regular_workers = 0,
                 prefill_workers = 0, decode_workers = 0, http_workers = 0, grpc_workers = 0,
                 circuit_breaker_open = 0, circuit_breaker_half_open = 0\<rparr> (r_workers r)
      in s\<lparr>unhealthy_workers := n - healthy_workers s\<rparr>)"

definition get_worker_distribution :: "worker_registry \<Rightarrow> nat \<times> nat" where
  "get_worker_distribution r =
     (let regular_count = length (ids_or_empty (r_type_workers r) Regular)
      in (regular_count, length (r_workers r) - regular_count))"

definition get_retry_config :: "worker_registry \<Rightarrow> string \<Rightarrow> retry_config option" where
  "get_retry_config r m = r_model_retry_configs r m"

subsection \<open>Internal helpers\<close>

fun dedup :: "'a list \<Rightarrow> 'a list \<Rightarrow> 'a list" where
  "dedup seen [] = []"
| "dedup seen (x # xs) = (if x \<in> set seen then dedup seen xs else x # dedup (x # seen) xs)"

definition worker_model_ids :: "worker_heap \<Rightarrow> nat \<Rightarrow> string list" where
  "worker_model_ids h w =
     (let model_ids = dedup [] (map mc_id (models h w))
      in if model_ids = [] then [model_id h w] else model_ids)"

definition rebuild_hash_ring :: "ring_hash \<Rightarrow> worker_heap \<Rightarrow> string \<Rightarrow> worker_registry \<Rightarrow> worker_registry" where
  "rebuild_hash_ring hp h m r =
     (case map_of (r_model_index r) m of
        Some workers \<Rightarrow> r\<lparr>r_hash_rings := (r_hash_rings r)(m \<mapsto> new_ring hp (map (url h) workers))\<rparr>
      | None \<Rightarrow> r\<lparr>r_hash_rings := (r_hash_rings r)(m := None)\<rparr>)"

definition add_worker_to_model_index :: "worker_heap \<Rightarrow> nat \<Rightarrow> string \<Rightarrow> worker_registry \<Rightarrow> worker_registry" where
  "add_worker_to_model_index h w m r =
     (let ws = (case map_of (r_model_index r) m of
                  Some existing \<Rightarrow> filter (\<lambda>x. url h x \<noteq> url h w) existing @ [w]
                | None \<Rightarrow> [w])
      in r\<lparr>r_model_index := AList.update m ws (r_model_index r)\<rparr>)"

definition remove_worker_from_model_index ::
  "ring_hash \<Rightarrow> worker_heap \<Rightarrow> string \<Rightarrow> string \<Rightarrow> worker_registry \<Rightarrow> worker_registry" where
  "remove_worker_from_model_index hp h u m r =
     (let r = (case map_of (r_model_index r) m of
                 None \<Rightarrow> r
               | Some entry \<Rightarrow>
                   (let new_workers = filter (\<lambda>x. url h x \<noteq> u) entry
                    in if new_workers = [] then r\<lparr>r_model_index := AList.delete m (r_model_index r)\<rparr>
                       else r\<lparr>r_model_index := AList.update m new_workers (r_model_index r)\<rparr>))
      in rebuild_hash_ring hp h m r)"

text \<open>The bodies of the loops over models in \<open>register_inner\<close>, \<open>replace\<close> and \<open>remove\<close>.\<close>

definition join_model :: "ring_hash \<Rightarrow> worker_heap \<Rightarrow> nat \<Rightarrow> string \<Rightarrow> worker_registry \<Rightarrow> worker_registry" where
  "join_model hp h w m r = rebuild_hash_ring hp h m (add_worker_to_model_index h w m r)"

definition leave_model :: "ring_hash \<Rightarrow> worker_heap \<Rightarrow> string \<Rightarrow> string \<Rightarrow> worker_registry \<Rightarrow> worker_registry" where
  "leave_model hp h u m r =
     (let r = remove_worker_from_model_index hp h u m r
      in if map_of (r_model_index r) m \<in> {None, Some []}
         then r\<lparr>r_model_retry_configs := (r_model_retry_configs r)(m := None)\<rparr> else r)"

definition push_id :: "worker_id \<Rightarrow> 'k \<Rightarrow> ('k \<rightharpoonup> worker_id list) \<Rightarrow> ('k \<rightharpoonup> worker_id list)" where
  "push_id i k ix = ix(k \<mapsto> ids_or_empty ix k @ [i])"

definition retain_other_ids :: "worker_id \<Rightarrow> 'k \<Rightarrow> ('k \<rightharpoonup> worker_id list) \<Rightarrow> ('k \<rightharpoonup> worker_id list)" where
  "retain_other_ids i k ix = (case ix k of None \<Rightarrow> ix | Some ids \<Rightarrow> ix(k \<mapsto> filter (\<lambda>j. j \<noteq> i) ids))"

definition send_event :: "worker_event \<Rightarrow> worker_registry \<Rightarrow> worker_registry" where
  "send_event e r = r\<lparr>r_events := r_events r @ [e]\<rparr>"

definition call_mesh :: "mesh_call \<Rightarrow> worker_registry \<Rightarrow> worker_registry" where
  "call_mesh c r = (case r_mesh_sync r of None \<Rightarrow> r | Some cs \<Rightarrow> r\<lparr>r_mesh_sync := Some (cs @ [c])\<rparr>)"

definition sync_worker_state :: "worker_heap \<Rightarrow> worker_id \<Rightarrow> nat \<Rightarrow> worker_registry \<Rightarrow> worker_registry" where
  "sync_worker_state h i w = call_mesh (SyncWorkerState i (model_id h w) (url h w) (is_healthy h w) (w_spec (objs h w)))"

subsection \<open>Mutations\<close>

definition register_inner ::
  "ring_hash \<Rightarrow> worker_id \<Rightarrow> worker_heap \<Rightarrow> nat \<Rightarrow> bool \<Rightarrow> worker_registry \<Rightarrow> worker_id option \<times> worker_registry" where
  "register_inner hp fresh h w sync_mesh r =
     (let (i, r) = (case map_of (r_url_to_id r) (url h w) of
                      Some i \<Rightarrow> (i, r)
                    | None \<Rightarrow> (fresh, r\<lparr>r_url_to_id := AList.update (url h w) fresh (r_url_to_id r)\<rparr>))
      in if map_of (r_workers r) i \<noteq> None then (None, r)
         else
           (let r = r\<lparr>r_workers := AList.update i w (r_workers r)\<rparr>;
                r = fold (join_model hp h w) (worker_model_ids h w) r;
                r = r\<lparr>r_type_workers := push_id i (worker_type_of h w) (r_type_workers r)\<rparr>;
                r = r\<lparr>r_connection_workers := push_id i (connection_mode_of h w) (r_connection_workers r)\<rparr>;
                r = (if sync_mesh then sync_worker_state h i w r else r)
            in (Some i, send_event (Registered i w) r)))"

definition register :: "ring_hash \<Rightarrow> worker_id \<Rightarrow> worker_heap \<Rightarrow> nat \<Rightarrow> worker_registry \<Rightarrow> worker_id option \<times> worker_registry" where
  "register hp fresh h w r = register_inner hp fresh h w True r"

definition move_id :: "worker_id \<Rightarrow> 'k \<Rightarrow> 'k \<Rightarrow> ('k \<rightharpoonup> worker_id list) \<Rightarrow> ('k \<rightharpoonup> worker_id list)" where
  "move_id i old new ix = (if old \<noteq> new then push_id i new (retain_other_ids i old ix) else ix)"

definition replace ::
  "ring_hash \<Rightarrow> worker_id \<Rightarrow> nat \<Rightarrow> worker_registry \<times> worker_heap \<Rightarrow> bool \<times> worker_registry \<times> worker_heap" where
  "replace hp i new = (\<lambda>(r, h).
     case map_of (r_workers r) i of
       None \<Rightarrow> (False, r, h)
     | Some old \<Rightarrow>
         (let old_models = worker_model_ids h old;
              new_models = worker_model_ids h new
          in if url h old \<noteq> url h new then (False, r, h)
             else
               (let h = inherit_shared_state_from new old h;
                    r = r\<lparr>r_workers := AList.update i new (r_workers r)\<rparr>;
                    r = fold (leave_model hp h (url h old)) (filter (\<lambda>m. m \<notin> set new_models) old_models) r;
                    r = fold (join_model hp h new) (filter (\<lambda>m. m \<notin> set old_models) new_models) r;
                    r = fold (join_model hp h new) (filter (\<lambda>m. m \<in> set new_models) old_models) r;
                    r = r\<lparr>r_type_workers := move_id i (worker_type_of h old) (worker_type_of h new) (r_type_workers r)\<rparr>;
                    r = r\<lparr>r_connection_workers :=
                          move_id i (connection_mode_of h old) (connection_mode_of h new) (r_connection_workers r)\<rparr>;
                    r = sync_worker_state h i new r
                in (True, send_event (Replaced i old new) r, h))))"

text \<open>The last branch is the recovery of the code from an inconsistent URL map.\<close>

definition register_or_replace ::
  "ring_hash \<Rightarrow> (nat \<Rightarrow> worker_id) \<Rightarrow> nat \<Rightarrow> worker_registry \<times> worker_heap \<Rightarrow> worker_id \<times> worker_registry \<times> worker_heap" where
  "register_or_replace hp fresh w = (\<lambda>(r, h).
     case register hp (fresh 0) h w r of
       (Some i, r) \<Rightarrow> (i, r, h)
     | (None, r) \<Rightarrow>
         (case map_of (r_url_to_id r) (url h w) of
            Some existing_id \<Rightarrow> (existing_id, snd (replace hp existing_id w (r, h)))
          | None \<Rightarrow>
              (let r = r\<lparr>r_url_to_id := AList.delete (url h w) (r_url_to_id r)\<rparr>;
                   (res, r) = register hp (fresh 1) h w r
               in (case res of Some i \<Rightarrow> i | None \<Rightarrow> fresh 2, r, h))))"

definition transition_status_inner ::
  "worker_id \<Rightarrow> u64 option \<Rightarrow> worker_status \<Rightarrow> worker_registry \<times> worker_heap \<Rightarrow>
   (worker_status \<times> worker_status) option \<times> worker_registry \<times> worker_heap" where
  "transition_status_inner i expected_revision new_status = (\<lambda>(r, h).
     case map_of (r_workers r) i of
       None \<Rightarrow> (None, r, h)
     | Some w \<Rightarrow>
         if (case expected_revision of Some rv \<Rightarrow> revision h w \<noteq> rv | None \<Rightarrow> False) then (None, r, h)
         else
           (let old_status = status h w
            in if old_status = new_status then (None, r, h)
               else (Some (old_status, new_status), send_event (StatusChanged i w old_status new_status) r,
                     set_status new_status w h)))"

definition transition_status ::
  "worker_id \<Rightarrow> worker_status \<Rightarrow> worker_registry \<times> worker_heap \<Rightarrow>
   (worker_status \<times> worker_status) option \<times> worker_registry \<times> worker_heap" where
  "transition_status i new_status = transition_status_inner i None new_status"

definition transition_status_if_revision ::
  "worker_id \<Rightarrow> u64 \<Rightarrow> worker_status \<Rightarrow> worker_registry \<times> worker_heap \<Rightarrow>
   (worker_status \<times> worker_status) option \<times> worker_registry \<times> worker_heap" where
  "transition_status_if_revision i rv new_status = transition_status_inner i (Some rv) new_status"

text \<open>\<open>f\<close> is the closure of the caller: it may change the counters of the worker.\<close>

definition apply_if_revision ::
  "worker_id \<Rightarrow> u64 \<Rightarrow> (nat \<Rightarrow> worker_heap \<Rightarrow> ('a \<times> worker_status option) \<times> worker_heap) \<Rightarrow>
   worker_registry \<times> worker_heap \<Rightarrow>
   ('a \<times> (worker_status \<times> worker_status) option) option \<times> worker_registry \<times> worker_heap" where
  "apply_if_revision i expected_revision f = (\<lambda>(r, h).
     case map_of (r_workers r) i of
       None \<Rightarrow> (None, r, h)
     | Some w \<Rightarrow>
         if revision h w \<noteq> expected_revision then (None, r, h)
         else
           (let old_status = status h w;
                ((result, candidate_status), h) = f w h
            in case candidate_status of
                 Some new_status \<Rightarrow>
                   if new_status \<noteq> old_status
                   then (Some (result, Some (old_status, new_status)),
                         send_event (StatusChanged i w old_status new_status) r, set_status new_status w h)
                   else (Some (result, None), r, h)
               | None \<Rightarrow> (Some (result, None), r, h)))"

definition set_model_retry_config :: "string \<Rightarrow> retry_config \<Rightarrow> bool \<Rightarrow> worker_registry \<Rightarrow> worker_registry" where
  "set_model_retry_config m config enabled r =
     (let config = (if \<not> enabled then config\<lparr>max_retries := 1\<rparr> else config)
      in r\<lparr>r_model_retry_configs := (r_model_retry_configs r)(m \<mapsto> config)\<rparr>)"

definition reserve_id_for_url :: "worker_id \<Rightarrow> string \<Rightarrow> worker_registry \<Rightarrow> worker_id \<times> worker_registry" where
  "reserve_id_for_url fresh u r =
     (case map_of (r_url_to_id r) u of
        Some i \<Rightarrow> (i, r)
      | None \<Rightarrow> (fresh, r\<lparr>r_url_to_id := AList.update u fresh (r_url_to_id r)\<rparr>))"

definition set_mesh_sync :: "mesh_call list option \<Rightarrow> worker_registry \<Rightarrow> worker_registry" where
  "set_mesh_sync m r = r\<lparr>r_mesh_sync := m\<rparr>"

definition remove ::
  "ring_hash \<Rightarrow> worker_id \<Rightarrow> worker_registry \<times> worker_heap \<Rightarrow> nat option \<times> worker_registry \<times> worker_heap" where
  "remove hp i = (\<lambda>(r, h).
     case map_of (r_workers r) i of
       None \<Rightarrow> (None, r, h)
     | Some w \<Rightarrow>
         (let r = r\<lparr>r_workers := AList.delete i (r_workers r)\<rparr>;
              r = r\<lparr>r_url_to_id := AList.delete (url h w) (r_url_to_id r)\<rparr>;
              r = fold (leave_model hp h (url h w)) (worker_model_ids h w) r;
              r = r\<lparr>r_type_workers := retain_other_ids i (worker_type_of h w) (r_type_workers r)\<rparr>;
              r = r\<lparr>r_connection_workers := retain_other_ids i (connection_mode_of h w) (r_connection_workers r)\<rparr>;
              h = (if status h w = Ready then set_status NotReady w h else h);
              r = call_mesh (RemoveWorkerState i) r
          in (Some w, send_event (Removed i w) r, h)))"

definition remove_by_url ::
  "ring_hash \<Rightarrow> string \<Rightarrow> worker_registry \<times> worker_heap \<Rightarrow> nat option \<times> worker_registry \<times> worker_heap" where
  "remove_by_url hp u = (\<lambda>(r, h).
     case map_of (r_url_to_id r) u of None \<Rightarrow> (None, r, h) | Some i \<Rightarrow> remove hp i (r, h))"

text \<open>
  A worker state received from the mesh: its URL and health, and the worker \<open>built\<close> that the
  builder makes of its spec (or of its URL and model), already placed in the heap.
\<close>

definition on_remote_worker_state ::
  "ring_hash \<Rightarrow> worker_id \<Rightarrow> string \<Rightarrow> bool \<Rightarrow> nat \<Rightarrow> worker_registry \<times> worker_heap \<Rightarrow> worker_registry \<times> worker_heap" where
  "on_remote_worker_state hp fresh u health built = (\<lambda>(r, h).
     case get_by_url r u of
       Some existing \<Rightarrow>
         (if health then (r, set_status Ready existing h)
          else if status h existing = Ready then (r, set_status NotReady existing h)
          else (r, h))
     | None \<Rightarrow>
         (let h = (if health then set_status Ready built h else h)
          in (snd (register_inner hp fresh h built False r), h)))"

text \<open>
  The contract of an operation on an index: it changes the entry of its own key by \<open>F\<close> and no
  other entry, and keeps the index well formed.
\<close>

locale index_update =
  fixes good :: "'s \<Rightarrow> bool" and look :: "'s \<Rightarrow> 'k \<Rightarrow> 'v" and upd :: "'k \<Rightarrow> 's \<Rightarrow> 's"
    and F :: "'v \<Rightarrow> 'v"
  assumes good_upd: "good s \<Longrightarrow> good (upd k s)"
    and look_upd: "good s \<Longrightarrow> look (upd k s) k' = (if k' = k then F (look s k) else look s k')"
    and F_idem: "F (F v) = F v"
begin

lemma good_fold: "good s \<Longrightarrow> good (fold upd ks s)"
  by (induction ks arbitrary: s) (simp_all add: good_upd)

lemma look_fold: "good s \<Longrightarrow> look (fold upd ks s) k = (if k \<in> set ks then F (look s k) else look s k)"
  by (induction ks arbitrary: s) (auto simp: good_upd look_upd F_idem)

end

definition static_on :: "nat set \<Rightarrow> worker_heap \<Rightarrow> worker_heap \<Rightarrow> bool" where
  "static_on obs h h' \<longleftrightarrow> (\<forall>ob \<in> obs. w_spec (objs h' ob) = w_spec (objs h ob) \<and>
     w_models_override (objs h' ob) = w_models_override (objs h ob))"

definition registered :: "worker_registry \<Rightarrow> nat set" where
  "registered r = snd ` set (r_workers r)"

definition serving :: "worker_heap \<Rightarrow> worker_registry \<Rightarrow> string \<Rightarrow> nat set" where
  "serving h r m = {ob \<in> registered r. m \<in> set (worker_model_ids h ob)}"

definition ids_ok :: "worker_heap \<Rightarrow> worker_registry \<Rightarrow> bool" where
  "ids_ok h r \<longleftrightarrow> distinct (map fst (r_workers r)) \<and> distinct (map fst (r_url_to_id r)) \<and>
     distinct (map snd (r_url_to_id r)) \<and>
     (\<forall>(i, ob) \<in> set (r_workers r). (url h ob, i) \<in> set (r_url_to_id r))"

definition ix_good :: "ring_hash \<Rightarrow> worker_heap \<Rightarrow> worker_registry \<Rightarrow> bool" where
  "ix_good hp h r \<longleftrightarrow> distinct (map fst (r_model_index r)) \<and>
     (\<forall>m. map_of (r_model_index r) m \<noteq> Some [] \<and> distinct (map (url h) (get_by_model r m)) \<and>
       r_hash_rings r m = map_option (\<lambda>ws. new_ring hp (map (url h) ws)) (map_of (r_model_index r) m))"

definition keyed_ok :: "(nat \<Rightarrow> 'k) \<Rightarrow> (worker_id \<times> nat) list \<Rightarrow> ('k \<rightharpoonup> worker_id list) \<Rightarrow> bool" where
  "keyed_ok f ws ix \<longleftrightarrow> (\<forall>k. distinct (ids_or_empty ix k) \<and>
     set (ids_or_empty ix k) = {i. \<exists>ob. (i, ob) \<in> set ws \<and> f ob = k})"

definition reg_inv :: "ring_hash \<Rightarrow> worker_registry \<times> worker_heap \<Rightarrow> bool" where
  "reg_inv hp = (\<lambda>(r, h). ids_ok h r \<and> ix_good hp h r \<and> (\<forall>m. set (get_by_model r m) = serving h r m) \<and>
     keyed_ok (worker_type_of h) (r_workers r) (r_type_workers r) \<and>
     keyed_ok (connection_mode_of h) (r_workers r) (r_connection_workers r))"

text \<open>What a subscriber reconstructs from the events; \<open>None\<close> when an event does not fit.\<close>

fun apply_event :: "worker_event \<Rightarrow> (worker_id \<rightharpoonup> nat) \<Rightarrow> (worker_id \<rightharpoonup> nat) option" where
  "apply_event (Registered i w) m = (if m i = None then Some (m(i \<mapsto> w)) else None)"
| "apply_event (Removed i w) m = (if m i = Some w then Some (m(i := None)) else None)"
| "apply_event (Replaced i old new) m = (if m i = Some old then Some (m(i \<mapsto> new)) else None)"
| "apply_event (StatusChanged i w s s') m = (if m i = Some w \<and> s \<noteq> s' then Some m else None)"

fun replay :: "worker_event list \<Rightarrow> (worker_id \<rightharpoonup> nat) \<Rightarrow> (worker_id \<rightharpoonup> nat) option" where
  "replay [] m = Some m"
| "replay (e # es) m = Option.bind (apply_event e m) (replay es)"

text \<open>
  The registry at work: mutations with new ids, and changes of the heap that leave the URLs, types
  and model lists of the registered workers alone (traffic, probes, newly built workers). The same
  goes for the closure that \<open>apply_if_revision\<close> runs; the value it hands to its caller plays no part.
  Each mutation is one step: the locks serialise the mutations of one worker id, and no step is
  interleaved with another. The late discovery of models (\<open>set_models\<close>) is not a step.
\<close>

inductive reg_step :: "ring_hash \<Rightarrow> worker_registry \<times> worker_heap \<Rightarrow> worker_registry \<times> worker_heap \<Rightarrow> bool"
  for hp where
  step_register: "fresh \<notin> snd ` set (r_url_to_id r) \<Longrightarrow> reg_step hp (r, h) (snd (register_inner hp fresh h w sm r), h)"
| step_replace: "reg_step hp s (snd (replace hp i w s))"
| step_remove: "reg_step hp s (snd (remove hp i s))"
| step_transition: "reg_step hp s (snd (transition_status_inner i rv st s))"
| step_apply: "(\<And>w. static_on (registered r) h (snd (f w h))) \<Longrightarrow>
    reg_step hp (r, h) (snd (apply_if_revision i rv (f :: nat \<Rightarrow> worker_heap \<Rightarrow> (unit \<times> worker_status option) \<times> worker_heap) (r, h)))"
| step_reserve: "fresh \<notin> snd ` set (r_url_to_id r) \<Longrightarrow> reg_step hp (r, h) (snd (reserve_id_for_url fresh u r), h)"
| step_retry: "reg_step hp (r, h) (set_model_retry_config m c en r, h)"
| step_mesh: "reg_step hp (r, h) (set_mesh_sync cs r, h)"
| step_heap: "static_on (registered r) h h' \<Longrightarrow> reg_step hp (r, h) (r, h')"

section \<open>Lemmas\<close>

lemma set_dedup: "set (dedup seen xs) = set xs - set seen"
  by (induction xs arbitrary: seen) auto

lemma distinct_dedup: "distinct (dedup seen xs)"
  by (induction xs arbitrary: seen) (auto simp: set_dedup)

lemma static_onD:
  assumes "static_on obs h h'" "ob \<in> obs"
  shows "url h' ob = url h ob" "worker_type_of h' ob = worker_type_of h ob"
    "connection_mode_of h' ob = connection_mode_of h ob" "worker_model_ids h' ob = worker_model_ids h ob"
    "model_id h' ob = model_id h ob"
proof -
  have eqs: "w_spec (objs h' ob) = w_spec (objs h ob)" "w_models_override (objs h' ob) = w_models_override (objs h ob)"
    using assms by (simp_all add: static_on_def)
  show "url h' ob = url h ob" "worker_type_of h' ob = worker_type_of h ob"
    "connection_mode_of h' ob = connection_mode_of h ob" "worker_model_ids h' ob = worker_model_ids h ob"
    "model_id h' ob = model_id h ob"
    unfolding url_def worker_type_of_def connection_mode_of_def worker_model_ids_def models_def model_id_def eqs
    by (rule refl)+
qed

lemma static_on_refl [simp]: "static_on obs h h"
  by (simp add: static_on_def)

lemma static_on_subset: "static_on UNIV h h' \<Longrightarrow> static_on obs h h'"
  by (simp add: static_on_def)

lemma static_set_status [simp]: "static_on obs h (set_status s w h)"
  by (simp add: static_on_def set_status_def)

lemma static_inherit [simp]: "static_on obs h (inherit_shared_state_from new old h)"
  by (simp add: static_on_def inherit_shared_state_from_def bump_revision_def Let_def)

lemma set_alist_update:
  "distinct (map fst al) \<Longrightarrow> set (AList.update k v al) = insert (k, v) {p \<in> set al. fst p \<noteq> k}"
  by (induction al) (auto simp: image_iff)

lemma set_alist_delete: "set (AList.delete k al) = {p \<in> set al. fst p \<noteq> k}"
  by (auto simp: AList.delete_eq)

lemma distinct_map_delete: "distinct (map f al) \<Longrightarrow> distinct (map f (AList.delete k al))"
  by (simp add: AList.delete_eq distinct_map_filter)

lemma alist_update_new: "k \<notin> fst ` set al \<Longrightarrow> AList.update k v al = al @ [(k, v)]"
  by (induction al) auto

lemma keyed_ok_push:
  assumes "keyed_ok f ws ix" "i \<notin> fst ` set ws"
  shows "keyed_ok f (AList.update i w ws) (push_id i (f w) ix)"
  using assms by (force simp: keyed_ok_def push_id_def ids_or_empty_def alist_update_new)

lemma keyed_ok_retain:
  assumes "keyed_ok f ws ix" "distinct (map fst ws)" "(i, w) \<in> set ws"
  shows "keyed_ok f (AList.delete i ws) (retain_other_ids i (f w) ix)"
proof -
  have "ob = w" if "(i, ob) \<in> set ws" for ob using assms(2,3) that by (metis map_of_is_SomeI option.inject)
  moreover have "ids_or_empty (retain_other_ids i (f w) ix) k =
      (if k = f w then filter (\<lambda>j. j \<noteq> i) (ids_or_empty ix k) else ids_or_empty ix k)" for k
    by (auto simp: retain_other_ids_def ids_or_empty_def split: option.splits)
  ultimately show ?thesis
    using assms(1) unfolding keyed_ok_def by (auto simp: set_alist_delete)
qed

lemma keyed_ok_move:
  assumes "keyed_ok f ws ix" "distinct (map fst ws)" "(i, old) \<in> set ws"
  shows "keyed_ok f (AList.update i new ws) (move_id i (f old) (f new) ix)"
proof -
  have ws: "set (AList.update i new ws) = insert (i, new) (set (AList.delete i ws))"
    using assms(2) by (simp add: set_alist_update set_alist_delete)
  have only: "ob = old" if "(i, ob) \<in> set ws" for ob using assms(2,3) that by (metis map_of_is_SomeI option.inject)
  show ?thesis
  proof (cases "f old = f new")
    case True
    have "(\<exists>ob. (j, ob) \<in> set (AList.update i new ws) \<and> f ob = k) \<longleftrightarrow> (\<exists>ob. (j, ob) \<in> set ws \<and> f ob = k)" for j k
    proof (cases "j = i")
      case True
      have "(\<exists>ob. (i, ob) \<in> set ws \<and> f ob = k) \<longleftrightarrow> f old = k" using only assms(3) by blast
      with \<open>f old = f new\<close> True show ?thesis by (simp add: ws set_alist_delete)
    qed (simp add: ws set_alist_delete)
    with assms(1) True show ?thesis by (simp add: keyed_ok_def move_id_def)
  next
    case False
    have "keyed_ok f (AList.update i new (AList.delete i ws)) (push_id i (f new) (retain_other_ids i (f old) ix))"
      using keyed_ok_push [OF keyed_ok_retain [OF assms]] by (simp add: set_alist_delete image_iff)
    moreover have "set (AList.update i new (AList.delete i ws)) = set (AList.update i new ws)"
      using assms(2) by (auto simp: ws set_alist_update distinct_map_delete set_alist_delete)
    ultimately show ?thesis using False by (simp add: move_id_def keyed_ok_def)
  qed
qed

subsection \<open>The model index\<close>

lemma rebuild_frame [simp]:
  "r_workers (rebuild_hash_ring hp h m r) = r_workers r" "r_model_index (rebuild_hash_ring hp h m r) = r_model_index r"
  "r_type_workers (rebuild_hash_ring hp h m r) = r_type_workers r"
  "r_connection_workers (rebuild_hash_ring hp h m r) = r_connection_workers r"
  "r_url_to_id (rebuild_hash_ring hp h m r) = r_url_to_id r" "r_events (rebuild_hash_ring hp h m r) = r_events r"
  by (simp_all add: rebuild_hash_ring_def split: option.splits)

lemma rebuild_rings:
  "r_hash_rings (rebuild_hash_ring hp h m r) =
     (r_hash_rings r)(m := map_option (\<lambda>ws. new_ring hp (map (url h) ws)) (map_of (r_model_index r) m))"
  by (auto simp: rebuild_hash_ring_def split: option.splits)

lemma join_frame [simp]:
  "r_workers (join_model hp h w m r) = r_workers r" "r_type_workers (join_model hp h w m r) = r_type_workers r"
  "r_connection_workers (join_model hp h w m r) = r_connection_workers r"
  "r_url_to_id (join_model hp h w m r) = r_url_to_id r" "r_events (join_model hp h w m r) = r_events r"
  by (simp_all add: join_model_def add_worker_to_model_index_def Let_def)

lemma leave_frame [simp]:
  "r_workers (leave_model hp h u m r) = r_workers r" "r_type_workers (leave_model hp h u m r) = r_type_workers r"
  "r_connection_workers (leave_model hp h u m r) = r_connection_workers r"
  "r_url_to_id (leave_model hp h u m r) = r_url_to_id r" "r_events (leave_model hp h u m r) = r_events r"
  by (simp_all add: leave_model_def remove_worker_from_model_index_def Let_def split: option.splits)

lemma fold_frame:
  assumes "\<And>x s. g (f x s) = g s"
  shows "g (fold f xs s) = g s"
  using assms by (induction xs arbitrary: s) simp_all

lemmas fold_join_frame [simp] = join_frame [THEN fold_frame [where f = "join_model hp h w" for hp h w]]
lemmas fold_leave_frame [simp] = leave_frame [THEN fold_frame [where f = "leave_model hp h u" for hp h u]]

lemma join_index:
  "r_model_index (join_model hp h w m r) =
     AList.update m (filter (\<lambda>x. url h x \<noteq> url h w) (get_by_model r m) @ [w]) (r_model_index r)"
  by (auto simp: join_model_def add_worker_to_model_index_def get_by_model_def Let_def split: option.splits)

lemma join_rings:
  "r_hash_rings (join_model hp h w m r) =
     (r_hash_rings r)(m \<mapsto> new_ring hp (map (url h) (filter (\<lambda>x. url h x \<noteq> url h w) (get_by_model r m) @ [w])))"
  by (auto simp: join_model_def rebuild_rings add_worker_to_model_index_def get_by_model_def Let_def AList.update_conv'
      split: option.splits)

lemma join_lookup:
  "get_by_model (join_model hp h w m r) k =
     (if k = m then filter (\<lambda>x. url h x \<noteq> url h w) (get_by_model r m) @ [w] else get_by_model r k)"
  by (simp add: get_by_model_def [of "join_model hp h w m r"] join_index AList.update_conv')
    (simp add: get_by_model_def)

lemma distinct_url_filter: "distinct (map f xs) \<Longrightarrow> distinct (map f (filter P xs))"
  by (rule distinct_map_filter)

interpretation join: index_update "ix_good hp h" get_by_model "join_model hp h w"
  "\<lambda>ws. filter (\<lambda>x. url h x \<noteq> url h w) ws @ [w]" for hp h w
proof
  fix r k assume g: "ix_good hp h r"
  show "ix_good hp h (join_model hp h w k r)"
    using g unfolding ix_good_def join_rings join_lookup
    by (auto simp: join_index AList.update_conv' distinct_update distinct_map_filter)
  show "get_by_model (join_model hp h w k r) k' =
      (if k' = k then filter (\<lambda>x. url h x \<noteq> url h w) (get_by_model r k) @ [w] else get_by_model r k')" for k'
    by (rule join_lookup)
qed auto

lemma leave_index:
  "map_of (r_model_index (leave_model hp h u m r)) =
     (if filter (\<lambda>x. url h x \<noteq> u) (get_by_model r m) = [] \<and> map_of (r_model_index r) m \<noteq> None
      then (map_of (r_model_index r))(m := None)
      else if map_of (r_model_index r) m = None then map_of (r_model_index r)
      else (map_of (r_model_index r))(m \<mapsto> filter (\<lambda>x. url h x \<noteq> u) (get_by_model r m)))"
  by (auto simp: leave_model_def remove_worker_from_model_index_def get_by_model_def Let_def AList.update_conv'
      AList.delete_conv' split: option.splits)

lemma leave_index_distinct:
  "distinct (map fst (r_model_index r)) \<Longrightarrow> distinct (map fst (r_model_index (leave_model hp h u m r)))"
  by (auto simp: leave_model_def remove_worker_from_model_index_def Let_def distinct_update distinct_delete split: option.splits)

lemma leave_rings:
  "r_hash_rings (leave_model hp h u m r) = (r_hash_rings r)
     (m := map_option (\<lambda>ws. new_ring hp (map (url h) ws)) (map_of (r_model_index (leave_model hp h u m r)) m))"
  by (simp add: leave_model_def remove_worker_from_model_index_def Let_def rebuild_rings split: option.splits)

lemma leave_lookup:
  "get_by_model (leave_model hp h u m r) k =
     (if k = m then filter (\<lambda>x. url h x \<noteq> u) (get_by_model r m) else get_by_model r k)"
  by (auto simp: get_by_model_def [of "leave_model hp h u m r"] leave_index) (auto simp: get_by_model_def)

interpretation leave: index_update "ix_good hp h" get_by_model "leave_model hp h u"
  "\<lambda>ws. filter (\<lambda>x. url h x \<noteq> u) ws" for hp h u
proof
  fix r k assume g: "ix_good hp h r"
  show "ix_good hp h (leave_model hp h u k r)"
    unfolding ix_good_def leave_lookup
  proof (intro conjI allI)
    show "distinct (map fst (r_model_index (leave_model hp h u k r)))"
      using g by (simp add: ix_good_def leave_index_distinct)
    fix m
    show "map_of (r_model_index (leave_model hp h u k r)) m \<noteq> Some []"
      using g by (auto simp: ix_good_def leave_index)
    show "distinct (map (url h) (if m = k then filter (\<lambda>x. url h x \<noteq> u) (get_by_model r k) else get_by_model r m))"
      using g by (simp add: ix_good_def distinct_map_filter)
    show "r_hash_rings (leave_model hp h u k r) m =
        map_option (\<lambda>ws. new_ring hp (map (url h) ws)) (map_of (r_model_index (leave_model hp h u k r)) m)"
      using g by (auto simp: ix_good_def leave_rings leave_index)
  qed
  show "get_by_model (leave_model hp h u k r) k' =
      (if k' = k then filter (\<lambda>x. url h x \<noteq> u) (get_by_model r k) else get_by_model r k')" for k'
    by (rule leave_lookup)
qed auto

subsection \<open>Preservation\<close>

lemma ids_ok_url:
  assumes "ids_ok h r" "(i, ob) \<in> set (r_workers r)" "(j, ob') \<in> set (r_workers r)" "url h ob = url h ob'"
  shows "i = j \<and> ob = ob'"
proof -
  have "(url h ob, i) \<in> set (r_url_to_id r)" "(url h ob, j) \<in> set (r_url_to_id r)"
    using assms by (auto simp: ids_ok_def)
  then have "i = j" using assms(1) by (metis ids_ok_def map_of_is_SomeI option.inject)
  with assms show ?thesis by (metis ids_ok_def map_of_is_SomeI option.inject)
qed

lemma ids_ok_lookup: "ids_ok h r \<Longrightarrow> map_of (r_workers r) i = Some ob \<longleftrightarrow> (i, ob) \<in> set (r_workers r)"
  by (simp add: ids_ok_def)

lemma index_cong:
  assumes "r_model_index r' = r_model_index r" "r_hash_rings r' = r_hash_rings r"
  shows "ix_good hp h r' = ix_good hp h r" "get_by_model r' = get_by_model r"
  using assms by (simp_all add: ix_good_def get_by_model_def fun_eq_iff)

lemma keyed_ok_cong:
  assumes "keyed_ok f ws ix" "\<And>i ob. (i, ob) \<in> set ws \<Longrightarrow> f' ob = f ob"
  shows "keyed_ok f' ws ix"
proof -
  have "(\<exists>ob. (i, ob) \<in> set ws \<and> f' ob = k) \<longleftrightarrow> (\<exists>ob. (i, ob) \<in> set ws \<and> f ob = k)" for i k
    using assms(2) by metis
  with assms(1) show ?thesis by (simp add: keyed_ok_def)
qed

lemma reg_inv_static:
  assumes "reg_inv hp (r, h)" "static_on (registered r) h h'"
  shows "reg_inv hp (r, h')"
proof -
  have inv: "ids_ok h r" "ix_good hp h r" "\<And>m. set (get_by_model r m) = serving h r m"
    "keyed_ok (worker_type_of h) (r_workers r) (r_type_workers r)"
    "keyed_ok (connection_mode_of h) (r_workers r) (r_connection_workers r)"
    using assms(1) by (simp_all add: reg_inv_def)
  note st = static_onD [OF assms(2)]
  have mem: "ob \<in> registered r" if "(i, ob) \<in> set (r_workers r)" for i ob
    using that by (force simp: registered_def)
  have urls: "map (url h') ws = map (url h) ws" if "set ws \<subseteq> registered r" for ws
    using that st(1) by (auto simp: subset_iff)
  have ws: "set ws \<subseteq> registered r" if "map_of (r_model_index r) m = Some ws" for m ws
    using inv(3) [of m] that by (auto simp: get_by_model_def serving_def)
  have by_model: "map (url h') (get_by_model r m) = map (url h) (get_by_model r m)" for m
    using ws [of m] urls by (cases "map_of (r_model_index r) m") (simp_all add: get_by_model_def)
  have rings: "map_option (\<lambda>ws. new_ring hp (map (url h') ws)) (map_of (r_model_index r) m) =
      map_option (\<lambda>ws. new_ring hp (map (url h) ws)) (map_of (r_model_index r) m)" for m
    using ws [of m] urls [THEN arg_cong, of _ "new_ring hp"] by (cases "map_of (r_model_index r) m") simp_all
  note keyed = keyed_ok_cong [OF inv(4), OF st(2) [OF mem]] keyed_ok_cong [OF inv(5), OF st(3) [OF mem]]
  have "ids_ok h' r" using inv(1) mem st(1) unfolding ids_ok_def by fastforce
  moreover have "serving h' r m = serving h r m" for m using st(4) by (auto simp: serving_def)
  ultimately show ?thesis
    using inv keyed by (simp add: reg_inv_def ix_good_def by_model rings)
qed

lemma reg_inv_cong:
  assumes "r_workers r' = r_workers r" "r_model_index r' = r_model_index r" "r_hash_rings r' = r_hash_rings r"
    "r_type_workers r' = r_type_workers r" "r_connection_workers r' = r_connection_workers r" "r_url_to_id r' = r_url_to_id r"
  shows "reg_inv hp (r', h) = reg_inv hp (r, h)"
  using assms index_cong [OF assms(2,3)] by (simp add: reg_inv_def ids_ok_def serving_def registered_def)

lemma send_mesh_frame [simp]:
  "r_workers (send_event e r) = r_workers r" "r_model_index (send_event e r) = r_model_index r"
  "r_hash_rings (send_event e r) = r_hash_rings r" "r_type_workers (send_event e r) = r_type_workers r"
  "r_connection_workers (send_event e r) = r_connection_workers r" "r_url_to_id (send_event e r) = r_url_to_id r"
  "r_events (send_event e r) = r_events r @ [e]"
  "r_workers (call_mesh c r) = r_workers r" "r_model_index (call_mesh c r) = r_model_index r"
  "r_hash_rings (call_mesh c r) = r_hash_rings r" "r_type_workers (call_mesh c r) = r_type_workers r"
  "r_connection_workers (call_mesh c r) = r_connection_workers r" "r_url_to_id (call_mesh c r) = r_url_to_id r"
  "r_events (call_mesh c r) = r_events r"
  by (simp_all add: send_event_def call_mesh_def split: option.splits)

lemma reg_inv_send [simp]: "reg_inv hp (send_event e r, h) = reg_inv hp (r, h)"
  "reg_inv hp (call_mesh c r, h) = reg_inv hp (r, h)"
  by (rule reg_inv_cong; simp)+

lemma ids_ok_reserve:
  assumes "ids_ok h r" "map_of (r_url_to_id r) u = None" "fresh \<notin> snd ` set (r_url_to_id r)"
  shows "ids_ok h (r\<lparr>r_url_to_id := AList.update u fresh (r_url_to_id r)\<rparr>)"
proof -
  have "AList.update u fresh (r_url_to_id r) = r_url_to_id r @ [(u, fresh)]"
    using assms(2) by (simp add: alist_update_new map_of_eq_None_iff)
  with assms show ?thesis by (fastforce simp: ids_ok_def map_of_eq_None_iff)
qed

lemma reserve_inv:
  assumes "reg_inv hp (r, h)" "fresh \<notin> snd ` set (r_url_to_id r)"
  shows "reg_inv hp (snd (reserve_id_for_url fresh u r), h)"
proof (cases "map_of (r_url_to_id r) u")
  case None
  let ?r = "r\<lparr>r_url_to_id := AList.update u fresh (r_url_to_id r)\<rparr>"
  have "ids_ok h ?r" using assms None by (intro ids_ok_reserve) (simp_all add: reg_inv_def)
  with assms(1) index_cong [of ?r r] show ?thesis
    by (simp add: reserve_id_for_url_def None reg_inv_def serving_def registered_def)
qed (use assms in \<open>simp add: reserve_id_for_url_def\<close>)

lemma register_new_inv:
  assumes inv: "reg_inv hp (r, h)" and i: "(url h w, i) \<in> set (r_url_to_id r)" "map_of (r_workers r) i = None"
  shows "reg_inv hp (fold (join_model hp h w) (worker_model_ids h w) (r\<lparr>r_workers := AList.update i w (r_workers r)\<rparr>)
    \<lparr>r_type_workers := push_id i (worker_type_of h w) (r_type_workers r),
     r_connection_workers := push_id i (connection_mode_of h w) (r_connection_workers r)\<rparr>, h)" (is "reg_inv hp (?r, h)")
proof -
  let ?r1 = "r\<lparr>r_workers := AList.update i w (r_workers r)\<rparr>"
  let ?r2 = "fold (join_model hp h w) (worker_model_ids h w) ?r1"
  have old: "ids_ok h r" "ix_good hp h r" "\<And>m. set (get_by_model r m) = serving h r m"
    "keyed_ok (worker_type_of h) (r_workers r) (r_type_workers r)"
    "keyed_ok (connection_mode_of h) (r_workers r) (r_connection_workers r)"
    using inv by (simp_all add: reg_inv_def)
  have new_key: "i \<notin> fst ` set (r_workers r)" using i(2) by (simp add: map_of_eq_None_iff)
  have workers: "r_workers ?r = r_workers r @ [(i, w)]" using new_key by (simp add: alist_update_new)
  have other_urls: "url h ob \<noteq> url h w" if "ob \<in> registered r" for ob
  proof
    assume u: "url h ob = url h w"
    from that obtain j where j: "(j, ob) \<in> set (r_workers r)" by (auto simp: registered_def)
    with old(1) u have "(url h w, j) \<in> set (r_url_to_id r)" by (auto simp: ids_ok_def)
    with i(1) old(1) have "i = j" by (metis ids_ok_def map_of_is_SomeI option.inject)
    with j new_key show False by force
  qed
  note ix = index_cong [of ?r1 r, simplified]
  have good: "ix_good hp h ?r" using join.good_fold [of hp h ?r1] old(2) ix index_cong(1) [of ?r ?r2] by simp
  have "set (get_by_model ?r m) = serving h ?r m" for m
  proof -
    have "set (get_by_model ?r m) = (if m \<in> set (worker_model_ids h w)
        then insert w {x \<in> serving h r m. url h x \<noteq> url h w} else serving h r m)"
      using join.look_fold [of hp h ?r1 w "worker_model_ids h w" m] old(2,3) ix index_cong(2) [of ?r ?r2] by simp
    also have "\<dots> = serving h ?r m"
      using other_urls by (auto simp: serving_def registered_def workers)
    finally show ?thesis .
  qed
  moreover have "ids_ok h ?r"
    using old(1) i(1) new_key by (auto simp: ids_ok_def workers)
  moreover have "keyed_ok (worker_type_of h) (r_workers ?r) (r_type_workers ?r)"
    "keyed_ok (connection_mode_of h) (r_workers ?r) (r_connection_workers ?r)"
    using keyed_ok_push [OF old(4) new_key] keyed_ok_push [OF old(5) new_key] by simp_all
  ultimately show ?thesis using good by (simp add: reg_inv_def)
qed

lemma register_inner_reserve:
  "register_inner hp fresh h w sm r =
     (let (i, r) = reserve_id_for_url fresh (url h w) r
      in if map_of (r_workers r) i \<noteq> None then (None, r)
         else (Some i, send_event (Registered i w) ((if sm then sync_worker_state h i w else id)
           (fold (join_model hp h w) (worker_model_ids h w) (r\<lparr>r_workers := AList.update i w (r_workers r)\<rparr>)
            \<lparr>r_type_workers := push_id i (worker_type_of h w) (r_type_workers r),
             r_connection_workers := push_id i (connection_mode_of h w) (r_connection_workers r)\<rparr>))))"
  by (simp add: register_inner_def reserve_id_for_url_def Let_def split: option.splits)

lemma reserve_id_mem:
  "(u, fst (reserve_id_for_url fresh u r)) \<in> set (r_url_to_id (snd (reserve_id_for_url fresh u r)))"
  by (auto simp: reserve_id_for_url_def alist_update_new map_of_eq_None_iff dest: map_of_SomeD split: option.splits)

lemma reserve_frame [simp]:
  "r_workers (snd (reserve_id_for_url fresh u r)) = r_workers r" "r_events (snd (reserve_id_for_url fresh u r)) = r_events r"
  by (simp_all add: reserve_id_for_url_def split: option.splits)

lemma register_inv:
  assumes "reg_inv hp (r, h)" "fresh \<notin> snd ` set (r_url_to_id r)"
  shows "reg_inv hp (snd (register_inner hp fresh h w sm r), h)"
proof -
  obtain i r' where res: "reserve_id_for_url fresh (url h w) r = (i, r')" by force
  with reserve_inv [OF assms, of "url h w"] have inv: "reg_inv hp (r', h)" by simp
  have mem: "(url h w, i) \<in> set (r_url_to_id r')" using reserve_id_mem [of "url h w" fresh r] by (simp add: res)
  show ?thesis
    using register_new_inv [OF inv mem] inv by (simp add: register_inner_reserve res sync_worker_state_def)
qed

lemma remove_inv:
  assumes "reg_inv hp s"
  shows "reg_inv hp (snd (remove hp i s))"
proof -
  obtain r h where s: "s = (r, h)" by (cases s)
  show ?thesis
  proof (cases "map_of (r_workers r) i")
    case (Some w)
    let ?r1 = "r\<lparr>r_workers := AList.delete i (r_workers r), r_url_to_id := AList.delete (url h w) (r_url_to_id r)\<rparr>"
    let ?r2 = "fold (leave_model hp h (url h w)) (worker_model_ids h w) ?r1"
    let ?r = "?r2\<lparr>r_type_workers := retain_other_ids i (worker_type_of h w) (r_type_workers r),
      r_connection_workers := retain_other_ids i (connection_mode_of h w) (r_connection_workers r)\<rparr>"
    have old: "ids_ok h r" "ix_good hp h r" "\<And>m. set (get_by_model r m) = serving h r m"
      "keyed_ok (worker_type_of h) (r_workers r) (r_type_workers r)"
      "keyed_ok (connection_mode_of h) (r_workers r) (r_connection_workers r)"
      using assms by (simp_all add: reg_inv_def s)
    have mem: "(i, w) \<in> set (r_workers r)" using Some by (rule map_of_SomeD)
    have dist: "distinct (map fst (r_workers r))" using old(1) by (simp add: ids_ok_def)
    have same: "url h ob = url h w \<longleftrightarrow> j = i" if "(j, ob) \<in> set (r_workers r)" for j ob
      using ids_ok_url [OF old(1) that mem] that mem dist by (metis map_of_is_SomeI option.inject)
    note ix = index_cong [of ?r1 r, simplified]
    have good: "ix_good hp h ?r" using leave.good_fold [of hp h ?r1] old(2) ix index_cong(1) [of ?r ?r2] by simp
    have reg: "ob \<in> registered ?r \<longleftrightarrow> ob \<in> registered r \<and> url h ob \<noteq> url h w" for ob
      using same by (force simp: registered_def set_alist_delete)
    have "set (get_by_model ?r m) = serving h ?r m" for m
    proof -
      have "set (get_by_model ?r m) = (if m \<in> set (worker_model_ids h w)
          then {x \<in> serving h r m. url h x \<noteq> url h w} else serving h r m)"
        using leave.look_fold [of hp h ?r1 "url h w" "worker_model_ids h w" m] old(2,3) ix index_cong(2) [of ?r ?r2] by simp
      also have "\<dots> = serving h ?r m"
      proof -
        have "ob = w" if "ob \<in> registered r" "url h ob = url h w" for ob
          using that ids_ok_url [OF old(1) _ mem] by (auto simp: registered_def)
        then show ?thesis unfolding serving_def reg by auto
      qed
      finally show ?thesis .
    qed
    moreover have "ids_ok h ?r"
      using old(1) same by (auto simp: ids_ok_def distinct_map_delete set_alist_delete)
    moreover have "keyed_ok (worker_type_of h) (r_workers ?r) (r_type_workers ?r)"
      "keyed_ok (connection_mode_of h) (r_workers ?r) (r_connection_workers ?r)"
      using keyed_ok_retain [OF old(4) dist mem] keyed_ok_retain [OF old(5) dist mem] by simp_all
    ultimately have "reg_inv hp (?r, h)" using good by (simp add: reg_inv_def)
    then show ?thesis
      using reg_inv_static [of hp ?r h "set_status NotReady w h"] by (simp add: s remove_def Some Let_def)
  qed (use assms in \<open>simp add: s remove_def\<close>)
qed

lemma replace_inv:
  assumes "reg_inv hp s"
  shows "reg_inv hp (snd (replace hp i new s))"
proof -
  obtain r h where s: "s = (r, h)" by (cases s)
  consider "map_of (r_workers r) i = None" | old where "map_of (r_workers r) i = Some old" "url h old \<noteq> url h new"
    | old where "map_of (r_workers r) i = Some old" "url h old = url h new" by (cases "map_of (r_workers r) i") auto
  then show ?thesis
  proof cases
    case (3 old)
    let ?h = "inherit_shared_state_from new old h"
    let ?om = "worker_model_ids ?h old" and ?nm = "worker_model_ids ?h new"
    note st = static_onD [OF static_inherit [of UNIV h new old] UNIV_I]
    have url: "url ?h old = url ?h new" using 3(2) by (simp add: st)
    have "reg_inv hp (r, ?h)" using reg_inv_static [OF assms [unfolded s]] by simp
    then have inv: "ids_ok ?h r" "ix_good hp ?h r" "\<And>m. set (get_by_model r m) = serving ?h r m"
      "keyed_ok (worker_type_of ?h) (r_workers r) (r_type_workers r)"
      "keyed_ok (connection_mode_of ?h) (r_workers r) (r_connection_workers r)"
      by (simp_all add: reg_inv_def)
    let ?r1 = "r\<lparr>r_workers := AList.update i new (r_workers r)\<rparr>"
    let ?r2 = "fold (leave_model hp ?h (url ?h old)) (filter (\<lambda>m. m \<notin> set ?nm) ?om) ?r1"
    let ?r3 = "fold (join_model hp ?h new) (filter (\<lambda>m. m \<notin> set ?om) ?nm) ?r2"
    let ?r4 = "fold (join_model hp ?h new) (filter (\<lambda>m. m \<in> set ?nm) ?om) ?r3"
    let ?r = "?r4\<lparr>r_type_workers := move_id i (worker_type_of ?h old) (worker_type_of ?h new) (r_type_workers r),
      r_connection_workers := move_id i (connection_mode_of ?h old) (connection_mode_of ?h new) (r_connection_workers r)\<rparr>"
    have mem: "(i, old) \<in> set (r_workers r)" using 3(1) by (rule map_of_SomeD)
    have dist: "distinct (map fst (r_workers r))" using inv(1) by (simp add: ids_ok_def)
    have same: "url ?h ob = url ?h new \<longleftrightarrow> j = i" if "(j, ob) \<in> set (r_workers r)" for j ob
      using ids_ok_url [OF inv(1) that mem] that mem dist url by (metis map_of_is_SomeI option.inject)
    note ix = index_cong [of ?r1 r, simplified] index_cong [of ?r ?r4, simplified]
    have g2: "ix_good hp ?h ?r2" using leave.good_fold [of hp ?h ?r1] inv(2) ix by simp
    have g3: "ix_good hp ?h ?r3" by (rule join.good_fold [OF g2])
    have g4: "ix_good hp ?h ?r4" by (rule join.good_fold [OF g3])
    have workers: "set (r_workers ?r) = insert (i, new) {p \<in> set (r_workers r). fst p \<noteq> i}"
      using dist by (simp add: set_alist_update)
    have reg: "ob \<in> registered ?r \<longleftrightarrow> ob = new \<or> ob \<in> registered r \<and> url ?h ob \<noteq> url ?h new" for ob
      using same unfolding registered_def workers by force
    have only: "ob = old" if "ob \<in> registered r" "url ?h ob = url ?h new" for ob
      using that ids_ok_url [OF inv(1) _ mem] url by (auto simp: registered_def)
    have "set (get_by_model ?r m) = serving ?h ?r m" for m
    proof -
      have "set (get_by_model ?r m) =
          (if m \<in> set ?nm then insert new {x \<in> serving ?h r m. url ?h x \<noteq> url ?h new}
           else if m \<in> set ?om then {x \<in> serving ?h r m. url ?h x \<noteq> url ?h new} else serving ?h r m)"
        using join.look_fold [OF g3, of new "filter (\<lambda>m. m \<in> set ?nm) ?om" m]
          join.look_fold [OF g2, of new "filter (\<lambda>m. m \<notin> set ?om) ?nm" m]
          leave.look_fold [of hp ?h ?r1 "url ?h old" "filter (\<lambda>m. m \<notin> set ?nm) ?om" m] inv(2,3) ix url
        by auto
      also have "\<dots> = serving ?h ?r m"
        unfolding serving_def reg using only by auto
      finally show ?thesis .
    qed
    moreover have "(url ?h new, i) \<in> set (r_url_to_id r)"
      unfolding url [symmetric] using inv(1) mem by (auto simp: ids_ok_def)
    then have "ids_ok ?h ?r"
      using inv(1) unfolding ids_ok_def workers by (auto simp: distinct_update)
    moreover have "keyed_ok (worker_type_of ?h) (r_workers ?r) (r_type_workers ?r)"
      "keyed_ok (connection_mode_of ?h) (r_workers ?r) (r_connection_workers ?r)"
      using keyed_ok_move [OF inv(4) dist mem] keyed_ok_move [OF inv(5) dist mem] by simp_all
    ultimately have "reg_inv hp (?r, ?h)" using g4 ix by (simp add: reg_inv_def)
    then show ?thesis
      using 3 by (simp add: s replace_def Let_def sync_worker_state_def st)
  qed (use assms in \<open>simp_all add: s replace_def\<close>)
qed

lemma transition_inv: "reg_inv hp s \<Longrightarrow> reg_inv hp (snd (transition_status_inner i rv st s))"
  by (cases s) (auto simp: transition_status_inner_def Let_def intro: reg_inv_static split: option.splits)

lemma apply_cases:
  obtains "snd (apply_if_revision i rv f (r, h)) = (r, h)"
  | w where "map_of (r_workers r) i = Some w" "snd (apply_if_revision i rv f (r, h)) = (r, snd (f w h))"
  | w st st' where "map_of (r_workers r) i = Some w" "st \<noteq> st'" "snd (apply_if_revision i rv f (r, h)) =
      (send_event (StatusChanged i w st st') r, set_status st' w (snd (f w h)))"
proof (cases "map_of (r_workers r) i")
  case None
  then show thesis by (intro that(1)) (simp add: apply_if_revision_def)
next
  case (Some w)
  obtain res c h' where f: "f w h = ((res, c), h')" by (metis prod.collapse)
  show thesis
  proof (cases "revision h w \<noteq> rv \<or> c = None \<or> c = Some (status h w)")
    case True
    then have "snd (apply_if_revision i rv f (r, h)) = (r, h) \<or>
        snd (apply_if_revision i rv f (r, h)) = (r, snd (f w h))"
      using Some f by (cases "revision h w = rv") (auto simp: apply_if_revision_def)
    then show thesis using that(1) that(2) [OF Some] by blast
  next
    case False
    then obtain st' where "c = Some st'" "st' \<noteq> status h w" by (cases c) auto
    with False show thesis using that(3) [OF Some, of "status h w" st'] Some f by (simp add: apply_if_revision_def Let_def)
  qed
qed

lemma apply_inv:
  assumes "\<And>w. static_on (registered r) h (snd (f w h))" "reg_inv hp (r, h)"
  shows "reg_inv hp (snd (apply_if_revision i rv f (r, h)))"
proof -
  have inv: "reg_inv hp (r, snd (f w h))" for w by (rule reg_inv_static [OF assms(2,1)])
  have "reg_inv hp (r, set_status st w (snd (f w h)))" for w st by (rule reg_inv_static [OF inv [of w]]) simp
  then have "reg_inv hp (send_event e r, set_status st w (snd (f w h)))" for w e st by simp
  with inv assms(2) show ?thesis by (cases rule: apply_cases [of i rv f r h]) simp_all
qed

lemma reg_step_inv: "reg_step hp s s' \<Longrightarrow> reg_inv hp s \<Longrightarrow> reg_inv hp s'"
proof (induction rule: reg_step.induct)
  case (step_retry r h m c en)
  then show ?case using reg_inv_cong [of "set_model_retry_config m c en r" r] by (simp add: set_model_retry_config_def)
next
  case (step_mesh r h cs)
  then show ?case using reg_inv_cong [of "set_mesh_sync cs r" r] by (simp add: set_mesh_sync_def)
qed (simp_all add: register_inv replace_inv remove_inv transition_inv apply_inv reserve_inv reg_inv_static)

lemma new_registry_inv: "reg_inv hp (new_registry, h)"
  by (simp add: reg_inv_def new_registry_def ids_ok_def ix_good_def get_by_model_def serving_def registered_def
      keyed_ok_def ids_or_empty_def)

lemma reg_reach_inv: "(reg_step hp)\<^sup>*\<^sup>* (new_registry, h) s \<Longrightarrow> reg_inv hp s"
  by (induction rule: rtranclp_induct) (auto intro: reg_step_inv new_registry_inv)

lemma set_map_filter_ex: "set (List.map_filter f xs) = {y. \<exists>x \<in> set xs. f x = Some y}"
  by (force simp: map_filter_def)

lemma set_by_keyed:
  assumes "ids_ok h r" "keyed_ok f (r_workers r) ix"
  shows "set (List.map_filter (get_worker r) (ids_or_empty ix k)) = {ob \<in> registered r. f ob = k}"
proof -
  have ids: "set (ids_or_empty ix k) = {i. \<exists>ob. (i, ob) \<in> set (r_workers r) \<and> f ob = k}"
    using assms(2) by (simp add: keyed_ok_def)
  have look: "get_worker r i = Some ob \<longleftrightarrow> (i, ob) \<in> set (r_workers r)" for i ob
    by (simp add: get_worker_def ids_ok_lookup [OF assms(1)])
  have unique: "ob = ob'" if "(i, ob) \<in> set (r_workers r)" "(i, ob') \<in> set (r_workers r)" for i ob ob'
    using that look [symmetric] by simp
  have "ob \<in> set (List.map_filter (get_worker r) (ids_or_empty ix k)) \<longleftrightarrow>
      (\<exists>i. (\<exists>ob'. (i, ob') \<in> set (r_workers r) \<and> f ob' = k) \<and> (i, ob) \<in> set (r_workers r))" for ob
    by (simp add: set_map_filter_ex ids look)
  also have "\<dots> ob \<longleftrightarrow> (\<exists>i. (i, ob) \<in> set (r_workers r) \<and> f ob = k)" for ob
    using unique by blast
  also have "\<dots> ob \<longleftrightarrow> ob \<in> {ob \<in> registered r. f ob = k}" for ob
    by (force simp: registered_def)
  finally show ?thesis by blast
qed

lemma get_by_url_registered:
  assumes "ids_ok h r"
  shows "get_by_url r u = Some ob \<longleftrightarrow> ob \<in> registered r \<and> url h ob = u"
proof -
  have inj: "u' = u" if "(u', i) \<in> set (r_url_to_id r)" "(u, i) \<in> set (r_url_to_id r)" for u' i
    using assms that inj_onD [of snd "set (r_url_to_id r)" "(u', i)" "(u, i)"] by (auto simp: ids_ok_def distinct_map)
  have u: "map_of (r_url_to_id r) u = Some i \<longleftrightarrow> (u, i) \<in> set (r_url_to_id r)" for i
    using assms by (simp add: ids_ok_def)
  have w: "(url h ob, i) \<in> set (r_url_to_id r)" if "(i, ob) \<in> set (r_workers r)" for i ob
    using assms that by (auto simp: ids_ok_def)
  have "get_by_url r u = Some ob \<longleftrightarrow> (\<exists>i. (u, i) \<in> set (r_url_to_id r) \<and> (i, ob) \<in> set (r_workers r))"
    by (simp add: get_by_url_def get_worker_def bind_eq_Some_conv u ids_ok_lookup [OF assms])
  also have "\<dots> \<longleftrightarrow> ob \<in> registered r \<and> url h ob = u"
    using inj w by (force simp: registered_def)
  finally show ?thesis .
qed

lemma replay_snoc: "replay (es @ [e]) m = Option.bind (replay es m) (apply_event e)"
proof (induction es arbitrary: m)
  case (Cons e' es)
  then show ?case by (cases "apply_event e' m") auto
next
  case Nil
  then show ?case by (cases "apply_event e m") auto
qed

lemma events_frame [simp]:
  "r_events (sync_worker_state h i w r) = r_events r" "r_workers (sync_worker_state h i w r) = r_workers r"
  by (simp_all add: sync_worker_state_def)

lemma register_log:
  assumes "replay (r_events r) Map.empty = Some (map_of (r_workers r))"
  shows "replay (r_events (snd (register_inner hp fresh h w sm r))) Map.empty =
    Some (map_of (r_workers (snd (register_inner hp fresh h w sm r))))"
proof -
  obtain i r' where res: "reserve_id_for_url fresh (url h w) r = (i, r')" by force
  have "r_workers r' = r_workers r" "r_events r' = r_events r"
    using reserve_frame [of fresh "url h w" r] by (simp_all add: res)
  with assms show ?thesis
    by (auto simp: register_inner_reserve res replay_snoc AList.update_conv')
qed

lemma reg_step_log:
  assumes "reg_step hp s s'" "replay (r_events (fst s)) Map.empty = Some (map_of (r_workers (fst s)))"
  shows "replay (r_events (fst s')) Map.empty = Some (map_of (r_workers (fst s')))"
  using assms
proof (induction rule: reg_step.induct)
  case (step_register fresh r h w sm)
  then show ?case by (simp add: register_log)
next
  case (step_replace s i w)
  then show ?case
    by (cases s) (auto simp: replace_def Let_def replay_snoc AList.update_conv' split: option.splits)
next
  case (step_remove s i)
  then show ?case
    by (cases s) (auto simp: remove_def Let_def replay_snoc AList.delete_conv' split: option.splits)
next
  case (step_transition s i rv st)
  then show ?case
    by (cases s) (auto simp: transition_status_inner_def Let_def replay_snoc split: option.splits)
next
  case (step_apply r h f i rv)
  then show ?case
    by (cases rule: apply_cases [of i rv f r h]) (simp_all add: replay_snoc)
qed (simp_all add: set_model_retry_config_def set_mesh_sync_def)

lemma good_ring:
  "ix_good hp h r \<Longrightarrow> r_hash_rings r m =
     (if get_by_model r m = [] then None else Some (new_ring hp (map (url h) (get_by_model r m))))"
  by (cases "map_of (r_model_index r) m") (auto simp: ix_good_def get_by_model_def)

section \<open>Properties\<close>

text \<open>
  C2: the indexes are exact. In every state that the registry reaches by its mutations taken one
  at a time (registration, replacement, removal, status transitions, \<open>apply_if_revision\<close>,
  reserved ids, retry and mesh settings), as long as the URLs, types and model lists of registered workers
  do not change (so without \<open>set_models\<close> on a registered worker), the model index lists each worker that serves
  the model, and nothing else, with each URL once; the hash ring of the model is the ring of
  these URLs, and there is none without workers; the type and connection indexes list the workers of that
  type and mode; the lookup by URL finds the worker with this URL.
\<close>

theorem registry_indexes_exact:
  assumes "(reg_step hp)\<^sup>*\<^sup>* (new_registry, h0) (r, h)"
  shows "set (get_by_model r m) = {ob \<in> registered r. m \<in> set (worker_model_ids h ob)} \<and>
    distinct (map (url h) (get_by_model r m)) \<and>
    get_hash_ring r m =
      (if get_by_model r m = [] then None else Some (new_ring hp (map (url h) (get_by_model r m)))) \<and>
    set (get_by_type r t) = {ob \<in> registered r. worker_type_of h ob = t} \<and>
    set (get_by_connection r c) = {ob \<in> registered r. connection_mode_of h ob = c} \<and>
    (get_by_url r u = Some ob \<longleftrightarrow> ob \<in> registered r \<and> url h ob = u)"
proof -
  have inv: "reg_inv hp (r, h)" by (rule reg_reach_inv [OF assms])
  then have ids: "ids_ok h r" and good: "ix_good hp h r" by (simp_all add: reg_inv_def)
  from good_ring [OF good] have "get_hash_ring r m =
      (if get_by_model r m = [] then None else Some (new_ring hp (map (url h) (get_by_model r m))))"
    by (simp add: get_hash_ring_def)
  moreover have "keyed_ok (worker_type_of h) (r_workers r) (r_type_workers r)"
    "keyed_ok (connection_mode_of h) (r_workers r) (r_connection_workers r)"
    using inv by (simp_all add: reg_inv_def)
  note set_by_keyed [OF ids this(1), of t] set_by_keyed [OF ids this(2), of c]
  ultimately show ?thesis
    using inv good get_by_url_registered [OF ids]
    by (simp add: reg_inv_def ix_good_def serving_def get_by_type_def get_by_connection_def)
qed

theorem registry_indexes_exact_witness:
  "\<exists>r h. get_by_model r ''unknown'' = [0] \<and> get_by_url r ''http://w'' = Some 0 \<and>
     set (get_by_model r ''unknown'') = {ob \<in> registered r. ''unknown'' \<in> set (worker_model_ids h ob)}"
proof -
  let ?r = "snd (register_inner (rev, \<lambda>_. 0) ''id'' demo_heap 0 True new_registry)"
  have ids: "worker_model_ids demo_heap 0 = [''unknown'']" "url demo_heap 0 = ''http://w''"
    by (simp_all add: worker_model_ids_def models_def demo_heap_def demo_worker_def demo_spec_def model_id_def
        UNKNOWN_MODEL_ID_def url_def Let_def)
  have "reg_step (rev, \<lambda>_. 0) (new_registry, demo_heap) (?r, demo_heap)"
    by (rule reg_step.step_register) (simp add: new_registry_def)
  then have reach: "(reg_step (rev, \<lambda>_. 0))\<^sup>*\<^sup>* (new_registry, demo_heap) (?r, demo_heap)" by blast
  have r: "get_by_model ?r ''unknown'' = [0]"
    by (simp add: register_inner_def new_registry_def ids join_model_def rebuild_hash_ring_def add_worker_to_model_index_def
        get_by_model_def send_event_def sync_worker_state_def call_mesh_def)
  have "get_by_url ?r ''http://w'' = Some 0"
    by (simp add: register_inner_def new_registry_def ids get_by_url_def get_worker_def sync_worker_state_def)
  with r registry_indexes_exact [OF reach, of "''unknown''" Regular Http "''http://w''" 0] show ?thesis by blast
qed

text \<open>
  C9: the event stream is complete. With the mutations of the registry taken one at a time,
  \<open>apply_if_revision\<close> included, and no change of the URLs, types and model lists of registered workers, replaying the events
  from an empty map never fails and gives the map of workers of the registry. The replay accepts
  \<open>Registered\<close> only for a new id, and any other event only with the worker that is installed. So a
  subscriber that misses nothing knows the registered workers, and no event of an id precedes its
  registration.
\<close>

theorem events_rebuild_registry:
  assumes "(reg_step hp)\<^sup>*\<^sup>* (new_registry, h0) (r, h)"
  shows "replay (r_events r) Map.empty = Some (get_worker r)"
proof -
  have "replay (r_events (fst s)) Map.empty = Some (map_of (r_workers (fst s)))"
    if "(reg_step hp)\<^sup>*\<^sup>* (new_registry, h0) s" for s
    using that by (induction rule: rtranclp_induct) (auto simp: new_registry_def intro: reg_step_log)
  from this [OF assms] show ?thesis by (simp add: get_worker_def fun_eq_iff)
qed

theorem events_rebuild_registry_witness:
  "\<exists>r. r_events r = [Registered ''id'' 0] \<and> replay (r_events r) Map.empty = Some (get_worker r)"
proof -
  let ?r = "snd (register_inner (rev, \<lambda>_. 0) ''id'' demo_heap 0 True new_registry)"
  have "reg_step (rev, \<lambda>_. 0) (new_registry, demo_heap) (?r, demo_heap)"
    by (rule reg_step.step_register) (simp add: new_registry_def)
  then have reach: "(reg_step (rev, \<lambda>_. 0))\<^sup>*\<^sup>* (new_registry, demo_heap) (?r, demo_heap)" by blast
  have "r_events ?r = [Registered ''id'' 0]"
    by (simp add: register_inner_def new_registry_def)
  with events_rebuild_registry [OF reach] show ?thesis by blast
qed

text \<open>
  removing a worker undoes its registration. For a URL that is not taken, \<open>register\<close> followed
  by \<open>remove\<close> of the returned id returns the worker and restores every lookup: the lists of the
  models in their order, the hash rings, the workers and the URLs.
\<close>

theorem register_remove_roundtrip:
  assumes "(reg_step hp)\<^sup>*\<^sup>* (new_registry, h0) (r, h)" and "map_of (r_url_to_id r) (url h w) = None"
    and "fresh \<notin> snd ` set (r_url_to_id r)"
    and "register hp fresh h w r = (res, r1)" and "remove hp fresh (r1, h) = (gone, r2, h2)"
  shows "res = Some fresh \<and> gone = Some w \<and> get_by_model r2 = get_by_model r \<and> get_hash_ring r2 = get_hash_ring r \<and>
    get_all_with_ids r2 = get_all_with_ids r \<and> get_by_url r2 = get_by_url r"
proof -
  have inv: "reg_inv hp (r, h)" by (rule reg_reach_inv [OF assms(1)])
  then have ids: "ids_ok h r" and good: "ix_good hp h r" and mem: "\<And>m. set (get_by_model r m) = serving h r m"
    by (simp_all add: reg_inv_def)
  let ?ms = "worker_model_ids h w"
  have new_key: "fresh \<notin> fst ` set (r_workers r)"
    using assms(3) ids by (force simp: ids_ok_def)
  then have none: "map_of (r_workers r) fresh = None" by (simp add: map_of_eq_None_iff)
  have u: "url h w \<notin> fst ` set (r_url_to_id r)" using assms(2) by (simp add: map_of_eq_None_iff)
  let ?r0 = "r\<lparr>r_url_to_id := r_url_to_id r @ [(url h w, fresh)], r_workers := r_workers r @ [(fresh, w)]\<rparr>"
  have r1: "res = Some fresh" "r_workers r1 = r_workers r @ [(fresh, w)]"
    "r_url_to_id r1 = r_url_to_id r @ [(url h w, fresh)]"
    "r_model_index r1 = r_model_index (fold (join_model hp h w) ?ms ?r0)"
    "r_hash_rings r1 = r_hash_rings (fold (join_model hp h w) ?ms ?r0)"
    using assms(4) by (auto simp: register_def register_inner_def assms(2) none alist_update_new new_key u
        sync_worker_state_def)
  have other: "url h x \<noteq> url h w" if "x \<in> set (get_by_model r m)" for x m
    using that ids u by (force simp: mem serving_def registered_def ids_ok_def)
  then have keep: "filter (\<lambda>x. url h x \<noteq> url h w) (get_by_model r m) = get_by_model r m" for m
    by (simp add: filter_id_conv)
  note ix0 = index_cong [of ?r0 r, simplified]
  have g1: "ix_good hp h r1" and l1: "get_by_model r1 = get_by_model (fold (join_model hp h w) ?ms ?r0)"
    using join.good_fold [of hp h ?r0 w ?ms] good ix0 index_cong [OF r1(4,5)] by simp_all
  have l1: "get_by_model r1 m = (if m \<in> set ?ms then get_by_model r m @ [w] else get_by_model r m)" for m
    unfolding l1 using join.look_fold [of hp h ?r0 w ?ms m] good ix0 by (simp add: keep)
  let ?r1' = "r1\<lparr>r_workers := r_workers r, r_url_to_id := r_url_to_id r\<rparr>"
  have some: "map_of (r_workers r1) fresh = Some w" using none by (simp add: r1 map_add_def)
  have dels: "AList.delete fresh (r_workers r1) = r_workers r" "AList.delete (url h w) (r_url_to_id r1) = r_url_to_id r"
    using new_key u by (force simp: r1 AList.delete_eq filter_id_conv)+
  have r2: "gone = Some w" "r_workers r2 = r_workers r" "r_url_to_id r2 = r_url_to_id r"
    "r_model_index r2 = r_model_index (fold (leave_model hp h (url h w)) ?ms ?r1')"
    "r_hash_rings r2 = r_hash_rings (fold (leave_model hp h (url h w)) ?ms ?r1')"
    using assms(5) by (auto simp: remove_def some dels Let_def)
  note ix1 = index_cong [of ?r1' r1, simplified]
  have g2: "ix_good hp h r2" and l2: "get_by_model r2 = get_by_model (fold (leave_model hp h (url h w)) ?ms ?r1')"
    using leave.good_fold [of hp h ?r1' "url h w" ?ms] g1 ix1 index_cong [OF r2(4,5)] by simp_all
  have l2: "get_by_model r2 m = get_by_model r m" for m
    unfolding l2 using leave.look_fold [of hp h ?r1' "url h w" ?ms m] g1 ix1 by (simp add: l1 keep)
  have "r_hash_rings r2 m = r_hash_rings r m" for m
    using good_ring [OF g2, of m] good_ring [OF good, of m] by (simp add: l2)
  moreover have gw: "get_worker r2 = get_worker r" by (simp add: fun_eq_iff get_worker_def r2)
  have "get_by_url r2 = get_by_url r" by (rule ext) (simp add: get_by_url_def gw r2(3))
  ultimately show ?thesis
    using l2 r1(1) r2(1-3) by (intro conjI ext) (simp_all add: get_hash_ring_def get_all_with_ids_def)
qed

theorem register_remove_roundtrip_witness:
  "fst (register (rev, \<lambda>_. 0) ''id'' demo_heap 0 new_registry) = Some ''id''"
proof -
  obtain res r1 where reg: "register (rev, \<lambda>_. 0) ''id'' demo_heap 0 new_registry = (res, r1)" by force
  obtain gone r2 h2 where rem: "remove (rev, \<lambda>_. 0) ''id'' (r1, demo_heap) = (gone, r2, h2)" by (metis prod.exhaust)
  from register_remove_roundtrip [OF rtranclp.rtrancl_refl _ _ reg rem] show ?thesis
    by (simp add: reg) (simp add: new_registry_def)
qed

text \<open>
  a probe of a replaced worker is discarded. \<open>replace\<close> with a worker of the same URL keeps the
  id, the status and the load, and bumps the shared revision: a status transition that was
  computed for the old revision no longer changes anything.
\<close>

theorem replace_discards_stale_probes:
  assumes "map_of (r_workers r) i = Some old" and "url h old = url h new"
    and "replace hp i new (r, h) = (done, r', h')"
  shows "done \<and> get_worker r' i = Some new \<and> status h' new = status h old \<and> load h' new = load h old \<and>
    revision h' new = revision h old + 1 \<and>
    transition_status_if_revision i (revision h old) st (r', h') = (None, r', h')"
proof -
  let ?h = "inherit_shared_state_from new old h"
  have h': "h' = ?h" and d: "done" and r': "map_of (r_workers r') i = Some new"
    using assms by (auto simp: replace_def Let_def AList.update_conv')
  have rt: "runtime_of ?h new = (runtime_of h old)\<lparr>rt_revision := rt_revision (runtime_of h old) + 1\<rparr>"
    by (simp add: inherit_shared_state_from_def bump_revision_def update_runtime_def runtime_of_def Let_def)
  then have rev: "revision ?h new = revision h old + 1" by (simp add: revision_def)
  have "revision h old + 1 \<noteq> revision h old" by simp
  with rt rev d r' show ?thesis
    by (simp add: h' get_worker_def status_def load_def transition_status_if_revision_def transition_status_inner_def)
qed

theorem replace_discards_stale_probes_witness:
  "transition_status_if_revision ''id'' 0 Failed (snd (replace (rev, \<lambda>_. 0) ''id'' 1 (new_registry\<lparr>r_workers := [(''id'', 0)]\<rparr>, demo_heap)))
   = (None, snd (replace (rev, \<lambda>_. 0) ''id'' 1 (new_registry\<lparr>r_workers := [(''id'', 0)]\<rparr>, demo_heap)))"
proof -
  obtain d r' h' where rep: "replace (rev, \<lambda>_. 0) ''id'' 1 (new_registry\<lparr>r_workers := [(''id'', 0)]\<rparr>, demo_heap) = (d, r', h')"
    by (metis prod.exhaust)
  have "revision demo_heap 0 = 0" by (simp add: revision_def runtime_of_def demo_heap_def new_runtime_def)
  moreover have "url demo_heap 0 = url demo_heap 1" by (simp add: url_def demo_heap_def demo_worker_def demo_spec_def)
  ultimately show ?thesis
    unfolding rep snd_conv using replace_discards_stale_probes [OF _ _ rep, of 0 Failed] by simp
qed

text \<open>
  models discovered after registration are not indexed. After \<open>set_models\<close> on a registered
  worker, its model list no longer matches the index entries that its registration made, and
  \<open>remove\<close> takes it out of the wrong ones: the removed worker stays in the index under the model
  it was registered with, and requests for that model are still routed to it.
\<close>

theorem set_models_then_remove_is_stale:
  "\<exists>r' h'. remove hp ''id'' (snd (register hp ''id'' demo_heap 0 new_registry),
       set_models [\<lparr>mc_id = ''m'', mc_aliases = []\<rparr>] 0 demo_heap) = (Some 0, r', h') \<and>
     registered r' = {} \<and> get_by_model r' ''unknown'' = [0]"
proof -
  let ?h = "set_models [\<lparr>mc_id = ''m'', mc_aliases = []\<rparr>] 0 demo_heap"
  have ids: "worker_model_ids demo_heap 0 = [''unknown'']" "worker_model_ids ?h 0 = [''m'']"
    by (simp_all add: worker_model_ids_def models_def set_models_def demo_heap_def demo_worker_def demo_spec_def
        model_id_def UNKNOWN_MODEL_ID_def Let_def)
  have u: "url demo_heap 0 = ''http://w''" "url ?h 0 = ''http://w''"
    by (simp_all add: url_def set_models_def demo_heap_def demo_worker_def demo_spec_def)
  have r: "r_workers (snd (register hp ''id'' demo_heap 0 new_registry)) = [(''id'', 0)]"
    by (simp add: register_def register_inner_def new_registry_def)
  have m: "get_by_model (snd (register hp ''id'' demo_heap 0 new_registry)) ''unknown'' = [0]"
    by (simp add: register_def register_inner_def new_registry_def ids u join_model_def rebuild_hash_ring_def
        add_worker_to_model_index_def get_by_model_def send_event_def sync_worker_state_def call_mesh_def)
  have stay: "get_by_model (leave_model hp ?h v ''m'' r) ''unknown'' = get_by_model r ''unknown''" for v r
    by (simp add: leave_lookup)
  have upd: "get_by_model (r\<lparr>r_type_workers := a, r_connection_workers := b\<rparr>) = get_by_model r"
    "get_by_model (send_event e (call_mesh c r)) = get_by_model r"
    "get_by_model (r\<lparr>r_workers := ws, r_url_to_id := us\<rparr>) = get_by_model r" for r a b e c ws us
    by (simp_all add: get_by_model_def fun_eq_iff)
  show ?thesis
    by (simp add: remove_def r ids Let_def upd stay m registered_def)
qed

end
