(* ===== verification/HealthManager.thy ===== *)
theory HealthManager
  imports Registry "HOL-Library.Sublist"
begin

text \<open>
  The health manager (\<open>model_gateway/src/worker/manager.rs\<close>): the schedule of health probes, the
  state machine of worker statuses and the background loop. An instant is a number of
  nanoseconds; the schedule is an association list, whose order stands for the iteration order
  of the hash map. A probe is launched with what it captures; its result arrives with the
  message that completes it. Logging and metrics are left out.
\<close>

section \<open>Model\<close>

definition MAX_CONCURRENT_HEALTH_PROBES :: nat where "MAX_CONCURRENT_HEALTH_PROBES = 128"

record worker_manager_config =
  default_check_interval_secs :: u64
  remove_unhealthy :: bool

record probe =
  p_worker_id :: worker_id
  p_worker :: nat
  p_expected_revision :: u64
  p_launched_status :: worker_status
  p_health_config :: health_check_config

record removal_candidate =
  rc_worker_id :: worker_id
  rc_url :: string
  rc_expected_revision :: u64

datatype probe_apply_result = Applied "(worker_status \<times> worker_status) option" | Stale

type_synonym schedule = "(worker_id \<times> nat) list"

definition resolved_interval_secs :: "health_check_config \<Rightarrow> u64 \<Rightarrow> u64" where
  "resolved_interval_secs health_config default_interval_secs =
     (if h_check_interval_secs health_config > 0 then h_check_interval_secs health_config
      else default_interval_secs)"

definition schedule_descriptor_at ::
  "schedule \<Rightarrow> worker_descriptor \<Rightarrow> worker_manager_config \<Rightarrow> nat \<Rightarrow> bool \<Rightarrow> schedule" where
  "schedule_descriptor_at next_check d config now immediate =
     (if d_disable_health_check d then AList.delete (d_worker_id d) next_check
      else if d_status d = Failed then AList.delete (d_worker_id d) next_check
      else
        (let delay =
           (if immediate then 0
            else from_secs (if d_check_interval_secs d > 0 then d_check_interval_secs d
                            else default_check_interval_secs config))
         in AList.update (d_worker_id d) (now + delay) next_check))"

definition schedule_worker_at ::
  "schedule \<Rightarrow> worker_id \<Rightarrow> worker_status \<Rightarrow> health_check_config \<Rightarrow> worker_manager_config \<Rightarrow> nat \<Rightarrow> bool \<Rightarrow> schedule" where
  "schedule_worker_at next_check i s health_config config now immediate =
     schedule_descriptor_at next_check
       \<lparr>d_worker_id = i, d_status = s, d_disable_health_check = h_disable_health_check health_config,
        d_check_interval_secs = h_check_interval_secs health_config\<rparr> config now immediate"

definition reconcile_from_registry ::
  "worker_registry \<Rightarrow> worker_heap \<Rightarrow> schedule \<Rightarrow> worker_manager_config \<Rightarrow> nat \<Rightarrow> schedule" where
  "reconcile_from_registry r h next_check config now =
     foldl (\<lambda>nc d. schedule_descriptor_at nc d config now False) next_check (reconcile_snapshot h r)"

text \<open>The thresholds are \<open>u32\<close> values widened to \<open>usize\<close>: the products cannot overflow.\<close>

definition compute_next_status ::
  "nat \<Rightarrow> bool \<Rightarrow> health_check_config \<Rightarrow> worker_heap \<Rightarrow> worker_status option \<times> worker_heap" where
  "compute_next_status w probe_ok health_config h =
     (let current_status = status h w;
          success_threshold = ucast (h_success_threshold health_config) :: usize;
          failure_threshold = ucast (h_failure_threshold health_config) :: usize;
          liveness_threshold = failure_threshold * 3;
          max_pending_probes = failure_threshold * 10
      in if probe_ok then
           (let h = consecutive_failures_reset w h;
                (successes, h) = consecutive_successes_increment w h
            in if current_status \<in> {Pending, NotReady} \<and> successes \<ge> success_threshold then
                 (Some Ready, total_pending_probes_reset w (consecutive_successes_reset w h))
               else if current_status = Pending \<and> total_pending_probes h w \<ge> max_pending_probes then
                 (Some Failed, consecutive_failures_reset w (consecutive_successes_reset w h))
               else (None, h))
         else
           (let h = consecutive_successes_reset w h;
                (failures, h) = consecutive_failures_increment w h
            in case current_status of
                 Ready \<Rightarrow> if failures \<ge> failure_threshold
                   then (Some NotReady, consecutive_failures_reset w h) else (None, h)
               | NotReady \<Rightarrow> if failures \<ge> liveness_threshold
                   then (Some Failed, consecutive_failures_reset w h) else (None, h)
               | Pending \<Rightarrow> if total_pending_probes h w \<ge> max_pending_probes
                   then (Some Failed, consecutive_failures_reset w h) else (None, h)
               | Failed \<Rightarrow> (None, h)))"

text \<open>The closure that \<open>apply_probe_completion\<close> hands to the registry.\<close>

definition probe_outcome ::
  "worker_status \<Rightarrow> bool \<Rightarrow> health_check_config \<Rightarrow> nat \<Rightarrow> worker_heap \<Rightarrow> (unit \<times> worker_status option) \<times> worker_heap" where
  "probe_outcome launched_status probe_ok health_config w h =
     (let h = (if launched_status = Pending then total_pending_probes_increment w h else h);
          (next, h) = compute_next_status w probe_ok health_config h
      in (((), next), h))"

text \<open>The background loop: its variables, and the removal jobs it has submitted.\<close>

record health_loop =
  next_check :: schedule
  in_flight :: "worker_id list"
  probes :: "probe list"
  removal_jobs :: "removal_candidate list"

type_synonym manager_state = "health_loop \<times> worker_registry \<times> worker_heap"

definition apply_probe_completion ::
  "bool \<Rightarrow> probe \<Rightarrow> bool \<Rightarrow> manager_state \<Rightarrow> probe_apply_result \<times> manager_state" where
  "apply_probe_completion has_queue p probe_ok = (\<lambda>(l, s).
     case apply_if_revision (p_worker_id p) (p_expected_revision p)
            (probe_outcome (p_launched_status p) probe_ok (p_health_config p)) s of
       (None, s) \<Rightarrow> (Stale, l, s)
     | (Some (_, transition), s) \<Rightarrow>
         (let l = (case transition of
                     Some (_, Failed) \<Rightarrow>
                       if has_queue
                       then l\<lparr>removal_jobs := removal_jobs l @
                              [\<lparr>rc_worker_id = p_worker_id p, rc_url = url (snd s) (p_worker p),
                                rc_expected_revision = p_expected_revision p\<rparr>]\<rparr>
                       else l
                   | _ \<Rightarrow> l)
          in (Applied transition, l, s)))"

text \<open>One due worker of \<open>queue_due_probes\<close>.\<close>

definition queue_probe ::
  "worker_registry \<Rightarrow> worker_heap \<Rightarrow> worker_manager_config \<Rightarrow> nat \<Rightarrow>
   health_loop \<times> removal_candidate list \<Rightarrow> worker_id \<Rightarrow> health_loop \<times> removal_candidate list" where
  "queue_probe r h config now = (\<lambda>(l, removals) i.
     case get_worker r i of
       None \<Rightarrow> (l\<lparr>next_check := AList.delete i (next_check l)\<rparr>, removals)
     | Some w \<Rightarrow>
         (let health_config = w_health_config (objs h w)
          in if h_disable_health_check health_config then (l\<lparr>next_check := AList.delete i (next_check l)\<rparr>, removals)
             else if status h w = Failed then
               (l\<lparr>next_check := AList.delete i (next_check l)\<rparr>,
                if remove_unhealthy config
                then removals @ [\<lparr>rc_worker_id = i, rc_url = url h w, rc_expected_revision = revision h w\<rparr>]
                else removals)
             else
               (let next_deadline = now + from_secs (resolved_interval_secs health_config (default_check_interval_secs config))
                in (l\<lparr>next_check := AList.update i next_deadline (next_check l),
                      in_flight := List.insert i (in_flight l),
                      probes := probes l @
                        [\<lparr>p_worker_id = i, p_worker = w, p_expected_revision = revision h w,
                          p_launched_status = status h w, p_health_config = health_config\<rparr>]\<rparr>, removals))))"

definition queue_due_probes ::
  "worker_registry \<Rightarrow> worker_heap \<Rightarrow> worker_manager_config \<Rightarrow> nat \<Rightarrow> health_loop \<Rightarrow>
   health_loop \<times> removal_candidate list" where
  "queue_due_probes r h config now l =
     (let capacity = MAX_CONCURRENT_HEALTH_PROBES - length (in_flight l)
      in if capacity = 0 then (l, [])
         else
           (let due_ids = take capacity (map fst (filter (\<lambda>(i, deadline).
                  now \<ge> deadline \<and> i \<notin> set (in_flight l)) (next_check l)))
            in foldl (queue_probe r h config now) (l, []) due_ids))"

text \<open>
  The branches of the \<open>select!\<close>: a probe (by its position among the running ones) returns its
  result, the sleep ends, an event arrives, or the receiver has lagged behind.
\<close>

datatype loop_message =
  ProbeDone nat bool
| SleepElapsed
| Event nat worker_event
| Lagged nat

fun handle_event :: "worker_manager_config \<Rightarrow> nat \<Rightarrow> worker_heap \<Rightarrow> worker_event \<Rightarrow> schedule \<Rightarrow> schedule" where
  "handle_event config now h (Registered i w) nc =
     schedule_worker_at nc i (status h w) (w_health_config (objs h w)) config now True"
| "handle_event config now h (Removed i w) nc = AList.delete i nc"
| "handle_event config now h (Replaced i old new) nc =
     schedule_worker_at nc i (status h new) (w_health_config (objs h new)) config now True"
| "handle_event config now h (StatusChanged i w s s') nc = nc"

fun handle_message ::
  "worker_manager_config \<Rightarrow> bool \<Rightarrow> loop_message \<Rightarrow> manager_state \<Rightarrow> manager_state" where
  "handle_message config has_queue (ProbeDone n probe_ok) (l, s) =
     (if n < length (probes l) then
        (let p = probes l ! n;
             l = l\<lparr>probes := take n (probes l) @ drop (Suc n) (probes l),
                   in_flight := removeAll (p_worker_id p) (in_flight l)\<rparr>;
             (res, l, s) = apply_probe_completion has_queue p probe_ok (l, s)
         in (case res of
               Applied (Some (_, Failed)) \<Rightarrow> l\<lparr>next_check := AList.delete (p_worker_id p) (next_check l)\<rparr>
             | _ \<Rightarrow> l, s))
      else (l, s))"
| "handle_message config has_queue SleepElapsed (l, s) = (l, s)"
| "handle_message config has_queue (Event now e) (l, r, h) =
     (l\<lparr>next_check := handle_event config now h e (next_check l)\<rparr>, r, h)"
| "handle_message config has_queue (Lagged now) (l, r, h) =
     (l\<lparr>next_check := reconcile_from_registry r h [] config now\<rparr>, r, h)"

definition loop_iteration ::
  "worker_manager_config \<Rightarrow> bool \<Rightarrow> nat \<Rightarrow> loop_message \<Rightarrow> manager_state \<Rightarrow> manager_state" where
  "loop_iteration config has_queue now msg = (\<lambda>(l, r, h).
     (let (l, removals) = queue_due_probes r h config now l;
          l = (if has_queue then l\<lparr>removal_jobs := removal_jobs l @ removals\<rparr> else l)
      in handle_message config has_queue msg (l, r, h)))"

text \<open>How long the loop sleeps at most.\<close>

definition sleep_until :: "worker_manager_config \<Rightarrow> nat \<Rightarrow> health_loop \<Rightarrow> nat" where
  "sleep_until config now l =
     (case map snd (next_check l) of
        [] \<Rightarrow> now + from_secs (default_check_interval_secs config)
      | ds \<Rightarrow> Min (set ds))"

text \<open>\<open>WorkerManager::start\<close>: the job queue is only used when removal is enabled.\<close>

definition start_manager :: "worker_registry \<Rightarrow> worker_heap \<Rightarrow> worker_manager_config \<Rightarrow> bool \<Rightarrow> nat \<Rightarrow> health_loop \<times> bool" where
  "start_manager r h config job_queue now =
     (\<lparr>next_check = reconcile_from_registry r h [] config now, in_flight = [], probes = [], removal_jobs = []\<rparr>,
      remove_unhealthy config \<and> job_queue)"

text \<open>
  The state machine in isolation: what a probe of a registered worker at its current revision
  does to the heap, and the automaton over status and counters that it implements.
\<close>

definition probe_cycle :: "health_check_config \<Rightarrow> nat \<Rightarrow> worker_heap \<Rightarrow> bool \<Rightarrow> worker_heap" where
  "probe_cycle cfg w h ok =
     (let ((_, next), h') = probe_outcome (status h w) ok cfg w h
      in case next of None \<Rightarrow> h' | Some s \<Rightarrow> if s \<noteq> status h w then set_status s w h' else h')"

record probe_state =
  ps_status :: worker_status
  ps_failures :: usize
  ps_successes :: usize
  ps_pending :: usize

definition probe_abs :: "nat \<Rightarrow> worker_heap \<Rightarrow> probe_state" where
  "probe_abs w h =
     \<lparr>ps_status = status h w, ps_failures = rt_consecutive_failures (runtime_of h w),
      ps_successes = rt_consecutive_successes (runtime_of h w), ps_pending = total_pending_probes h w\<rparr>"

definition probe_succeeds :: "usize \<Rightarrow> usize \<Rightarrow> probe_state \<Rightarrow> probe_state" where
  "probe_succeeds st ft c =
     (if ps_status c \<in> {Pending, NotReady} \<and> ps_successes c + 1 \<ge> st
      then \<lparr>ps_status = Ready, ps_failures = 0, ps_successes = 0, ps_pending = 0\<rparr>
      else if ps_status c = Pending \<and> ps_pending c + 1 \<ge> ft * 10
      then \<lparr>ps_status = Failed, ps_failures = 0, ps_successes = 0, ps_pending = ps_pending c + 1\<rparr>
      else c\<lparr>ps_failures := 0, ps_successes := ps_successes c + 1,
             ps_pending := (if ps_status c = Pending then ps_pending c + 1 else ps_pending c)\<rparr>)"

definition probe_fails :: "usize \<Rightarrow> probe_state \<Rightarrow> probe_state" where
  "probe_fails ft c =
     (let f = ps_failures c + 1;
          (s, f, p) =
            (case ps_status c of
               Ready \<Rightarrow> if f \<ge> ft then (NotReady, 0, ps_pending c) else (Ready, f, ps_pending c)
             | NotReady \<Rightarrow> if f \<ge> ft * 3 then (Failed, 0, ps_pending c) else (NotReady, f, ps_pending c)
             | Pending \<Rightarrow> if ps_pending c + 1 \<ge> ft * 10 then (Failed, 0, ps_pending c + 1)
                          else (Pending, f, ps_pending c + 1)
             | Failed \<Rightarrow> (Failed, f, ps_pending c))
      in \<lparr>ps_status = s, ps_failures = f, ps_successes = 0, ps_pending = p\<rparr>)"

definition probe_step :: "health_check_config \<Rightarrow> probe_state \<Rightarrow> bool \<Rightarrow> probe_state" where
  "probe_step cfg c ok =
     (if ok then probe_succeeds (ucast (h_success_threshold cfg)) (ucast (h_failure_threshold cfg)) c
      else probe_fails (ucast (h_failure_threshold cfg)) c)"

definition loop_ok :: "health_loop \<Rightarrow> bool" where
  "loop_ok l \<longleftrightarrow> distinct (in_flight l) \<and> distinct (map p_worker_id (probes l)) \<and>
     set (in_flight l) = set (map p_worker_id (probes l)) \<and> distinct (map fst (next_check l)) \<and>
     length (in_flight l) \<le> MAX_CONCURRENT_HEALTH_PROBES"

text \<open>The loop with an environment that changes registry and heap at will between iterations.\<close>

definition loop_step ::
  "worker_manager_config \<Rightarrow> bool \<Rightarrow> health_loop \<Rightarrow> (worker_registry \<times> worker_heap) \<times> nat \<times> loop_message \<Rightarrow> health_loop" where
  "loop_step config has_queue l = (\<lambda>((r, h), now, msg). fst (loop_iteration config has_queue now msg (l, r, h)))"

section \<open>Lemmas\<close>

lemma runtime_update_runtime [simp]: "runtime_of (update_runtime f w h) w = f (runtime_of h w)"
  by (simp add: runtime_of_def)

lemmas probe_ops =
  status_def set_status_def total_pending_probes_def consecutive_failures_reset_def consecutive_failures_increment_def
  consecutive_successes_reset_def consecutive_successes_increment_def total_pending_probes_increment_def
  total_pending_probes_reset_def

lemma from_u8_consts: "from_u8 0 = Pending" "from_u8 1 = Ready" "from_u8 2 = NotReady" "from_u8 3 = Failed"
  by (simp_all add: from_u8_def try_from_u8_def)

lemma probe_cycle_abs: "probe_abs w (probe_cycle cfg w h ok) = probe_step cfg (probe_abs w h) ok"
  by (cases "status h w")
    (simp_all add: probe_cycle_def probe_outcome_def compute_next_status_def probe_step_def probe_succeeds_def
      probe_fails_def probe_abs_def Let_def probe_ops from_u8_consts)

interpretation health: refinement_system "probe_cycle cfg w" "\<lambda>_. True" "probe_step cfg" "probe_abs w" for cfg w
  by unfold_locales (simp_all add: probe_cycle_abs)

lemma status_run: "status (foldl (probe_cycle cfg w) h oks) w = ps_status (foldl (probe_step cfg) (probe_abs w h) oks)"
proof -
  have "status x w = ps_status (probe_abs w x)" for x by (simp add: probe_abs_def)
  then show ?thesis by (simp only: health.abs_run)
qed

lemma apply_if_revision_probe:
  assumes "map_of (r_workers r) i = Some w" "revision h w = rv"
  shows "\<exists>res r'. apply_if_revision i rv (probe_outcome (status h w) ok cfg) (r, h) = (Some res, r', probe_cycle cfg w h ok)"
  using assms
  by (auto simp: apply_if_revision_def probe_cycle_def Let_def split: prod.splits option.splits)

lemma threshold_mult:
  fixes t :: u32
  assumes "k \<le> 10"
  shows "unat (ucast t * of_nat k :: usize) = unat t * k"
proof -
  have t: "unat t < 2 ^ 32" using unsigned_less [of t] by simp
  then have "unat t * k < 2 ^ 64" using mult_mono [of "unat t" "2 ^ 32 - 1" k 10] assms by simp
  moreover have "unat (ucast t :: usize) = unat t" using t by (simp add: unsigned_ucast_eq take_bit_nat_eq_self)
  moreover have "unat (of_nat k :: usize) = k" using assms by (simp add: unat_of_nat_small)
  ultimately show ?thesis by (simp only: unat_word_ariths) simp
qed


lemma unat_plus_one: "Suc (unat a) < 2 ^ 64 \<Longrightarrow> unat (a + 1) = Suc (unat a)" for a :: usize
  by (simp add: unat_word_ariths)

lemma failed_run: "ps_status c = Failed \<Longrightarrow> ps_status (foldl (probe_step cfg) c oks) = Failed"
  by (induction oks arbitrary: c) (simp_all add: probe_step_def probe_succeeds_def probe_fails_def)

lemma pending_run:
  assumes "ps_status c = Pending" "unat (h_failure_threshold cfg) * 10 \<le> unat (ps_pending c) + length oks" "oks \<noteq> []"
    "unat (ps_pending c) + length oks < 2 ^ 64"
  shows "\<exists>k \<le> length oks. ps_status (foldl (probe_step cfg) c (take k oks)) \<in> {Ready, Failed}"
  using assms
proof (induction oks arbitrary: c)
  case (Cons ok oks)
  let ?c = "probe_step cfg c ok"
  show ?case
  proof (cases "ps_status ?c \<in> {Ready, Failed}")
    case True
    then show ?thesis by (intro exI [of _ 1]) simp
  next
    case False
    have pend: "unat (ps_pending c + 1) = Suc (unat (ps_pending c))"
      using Cons.prems(4) by (intro unat_plus_one) simp
    have c': "ps_status ?c = Pending \<and> ps_pending ?c = ps_pending c + 1 \<and> \<not> ucast (h_failure_threshold cfg) * 10 \<le> ps_pending c + 1"
      using False Cons.prems(1) by (auto simp: probe_step_def probe_succeeds_def probe_fails_def Let_def split: if_splits)
    then have "Suc (unat (ps_pending c)) < unat (h_failure_threshold cfg) * 10"
      using threshold_mult [of 10 "h_failure_threshold cfg"] pend by (simp add: word_le_nat_alt)
    with Cons.prems(2) have "oks \<noteq> []" by auto
    with Cons.IH [of ?c] Cons.prems c' pend
    obtain k where "k \<le> length oks" "ps_status (foldl (probe_step cfg) ?c (take k oks)) \<in> {Ready, Failed}"
      by auto
    then show ?thesis by (intro exI [of _ "Suc k"]) simp
  qed
qed simp

definition outage_limit :: "health_check_config \<Rightarrow> worker_status \<Rightarrow> nat" where
  "outage_limit cfg s = (if s = Ready then unat (h_failure_threshold cfg) else unat (h_failure_threshold cfg) * 3)"

lemma fails_step:
  assumes "ps_status c \<in> {Ready, NotReady}" "unat (ps_failures c) < outage_limit cfg (ps_status c)"
  shows "probe_step cfg c False =
    (if Suc (unat (ps_failures c)) < outage_limit cfg (ps_status c)
     then c\<lparr>ps_failures := ps_failures c + 1, ps_successes := 0\<rparr>
     else c\<lparr>ps_status := (if ps_status c = Ready then NotReady else Failed), ps_failures := 0, ps_successes := 0\<rparr>)"
    and "unat (ps_failures c + 1) = Suc (unat (ps_failures c))"
proof -
  have "unat (h_failure_threshold cfg) < 2 ^ 32" using unsigned_less [of "h_failure_threshold cfg"] by simp
  then have "Suc (unat (ps_failures c)) < 2 ^ 64" using assms(2) by (simp add: outage_limit_def split: if_splits)
  then show suc: "unat (ps_failures c + 1) = Suc (unat (ps_failures c))" by (intro unat_plus_one) simp
  show "probe_step cfg c False =
    (if Suc (unat (ps_failures c)) < outage_limit cfg (ps_status c)
     then c\<lparr>ps_failures := ps_failures c + 1, ps_successes := 0\<rparr>
     else c\<lparr>ps_status := (if ps_status c = Ready then NotReady else Failed), ps_failures := 0, ps_successes := 0\<rparr>)"
    using assms(1) suc threshold_mult [of 3 "h_failure_threshold cfg"] threshold_mult [of 1 "h_failure_threshold cfg"]
    by (auto simp: probe_step_def probe_fails_def Let_def outage_limit_def word_le_nat_alt)
qed

lemma fails_run:
  assumes "ps_status c \<in> {Ready, NotReady}" "unat (ps_failures c) < outage_limit cfg (ps_status c)"
    "n \<le> outage_limit cfg (ps_status c) - unat (ps_failures c)"
  shows "let d = foldl (probe_step cfg) c (replicate n False)
    in if n < outage_limit cfg (ps_status c) - unat (ps_failures c) then ps_status d = ps_status c
       else ps_status d = (if ps_status c = Ready then NotReady else Failed) \<and> ps_failures d = 0"
  using assms
proof (induction n arbitrary: c)
  case (Suc n)
  let ?d = "probe_step cfg c False"
  show ?case
  proof (cases "Suc (unat (ps_failures c)) < outage_limit cfg (ps_status c)")
    case True
    with fails_step [OF Suc.prems(1,2)] have d: "ps_status ?d = ps_status c" "unat (ps_failures ?d) = Suc (unat (ps_failures c))"
      by simp_all
    have "n \<le> outage_limit cfg (ps_status ?d) - unat (ps_failures ?d)" using Suc.prems(3) d by simp
    from Suc.IH [OF _ _ this] Suc.prems(1) True d show ?thesis by (simp add: Let_def split: if_splits)
  next
    case False
    with Suc.prems(3) have "n = 0" by simp
    moreover have "outage_limit cfg (ps_status c) - unat (ps_failures c) = Suc 0" using False Suc.prems(2) by simp
    ultimately show ?thesis using False fails_step(1) [OF Suc.prems(1,2)] by (simp only: Let_def) simp
  qed
qed (auto simp: Let_def)

lemma ready_run:
  assumes "ps_status c = Ready"
    and "\<not> sublist (replicate (unat (h_failure_threshold cfg)) False) (replicate (unat (ps_failures c)) False @ oks)"
  shows "ps_status (foldl (probe_step cfg) c oks) = Ready"
  using assms
proof (induction oks arbitrary: c)
  case (Cons ok oks)
  let ?ft = "unat (h_failure_threshold cfg)"
  show ?case
  proof (cases ok)
    case True
    then have d: "ps_status (probe_step cfg c ok) = Ready" "ps_failures (probe_step cfg c ok) = 0"
      using Cons.prems(1) by (simp_all add: probe_step_def probe_succeeds_def)
    have "sublist oks (replicate (unat (ps_failures c)) False @ ok # oks)"
      by (intro suffix_imp_sublist suffixI [of _ "replicate (unat (ps_failures c)) False @ [ok]"]) simp
    with Cons.prems(2) have "\<not> sublist (replicate ?ft False) oks" by (meson sublist_order.order_trans)
    with Cons.IH [of "probe_step cfg c ok"] d show ?thesis by simp
  next
    case False
    have lt: "Suc (unat (ps_failures c)) < ?ft"
    proof (rule ccontr)
      assume "\<not> ?thesis"
      then obtain j where j: "Suc (unat (ps_failures c)) = ?ft + j" by (metis le_Suc_ex not_less)
      have "replicate (unat (ps_failures c)) False @ ok # oks = replicate (Suc (unat (ps_failures c))) False @ oks"
        using False by (simp add: replicate_app_Cons_same)
      also have "\<dots> = replicate ?ft False @ replicate j False @ oks" unfolding j by (simp add: replicate_add)
      finally have "sublist (replicate ?ft False) (replicate (unat (ps_failures c)) False @ ok # oks)"
        by (intro prefix_imp_sublist prefixI)
      with Cons.prems(2) show False by simp
    qed
    with fails_step [of c cfg] Cons.prems(1) have d: "ps_status (probe_step cfg c False) = Ready"
      "unat (ps_failures (probe_step cfg c False)) = Suc (unat (ps_failures c))"
      by (simp_all add: outage_limit_def)
    have "\<not> sublist (replicate ?ft False) (replicate (Suc (unat (ps_failures c))) False @ oks)"
      using Cons.prems(2) False by (simp add: replicate_app_Cons_same)
    with Cons.IH [of "probe_step cfg c False"] d False show ?thesis by simp
  qed
qed simp

lemma queue_probe_ok:
  assumes "loop_ok l" "i \<notin> set (in_flight l)" "length (in_flight l) < MAX_CONCURRENT_HEALTH_PROBES"
    "\<forall>c \<in> set removals. \<exists>w. get_worker r (rc_worker_id c) = Some w \<and> status h w = Failed \<and> revision h w = rc_expected_revision c"
  shows "case queue_probe r h config now (l, removals) i of (l', removals') \<Rightarrow>
    loop_ok l' \<and> set (in_flight l') \<subseteq> insert i (set (in_flight l)) \<and> length (in_flight l') \<le> Suc (length (in_flight l)) \<and>
    removal_jobs l' = removal_jobs l \<and>
    (\<forall>c \<in> set removals'. \<exists>w. get_worker r (rc_worker_id c) = Some w \<and> status h w = Failed \<and> revision h w = rc_expected_revision c)"
  using assms
  by (auto simp: queue_probe_def loop_ok_def Let_def distinct_map_delete distinct_update split: option.splits)

lemma queue_probes_ok:
  assumes "loop_ok l" "distinct ids" "set ids \<inter> set (in_flight l) = {}"
    "length (in_flight l) + length ids \<le> MAX_CONCURRENT_HEALTH_PROBES"
    "\<forall>c \<in> set removals. \<exists>w. get_worker r (rc_worker_id c) = Some w \<and> status h w = Failed \<and> revision h w = rc_expected_revision c"
  shows "case foldl (queue_probe r h config now) (l, removals) ids of (l', removals') \<Rightarrow>
    loop_ok l' \<and> removal_jobs l' = removal_jobs l \<and>
    (\<forall>c \<in> set removals'. \<exists>w. get_worker r (rc_worker_id c) = Some w \<and> status h w = Failed \<and> revision h w = rc_expected_revision c)"
  using assms
proof (induction ids arbitrary: l removals)
  case (Cons i ids)
  obtain l' removals' where q: "queue_probe r h config now (l, removals) i = (l', removals')" by force
  with queue_probe_ok [OF Cons.prems(1) _ _ Cons.prems(5), of i config now] Cons.prems(3,4)
  have l': "loop_ok l'" "set (in_flight l') \<subseteq> insert i (set (in_flight l))" "length (in_flight l') \<le> Suc (length (in_flight l))"
    "removal_jobs l' = removal_jobs l"
    "\<forall>c \<in> set removals'. \<exists>w. get_worker r (rc_worker_id c) = Some w \<and> status h w = Failed \<and> revision h w = rc_expected_revision c"
    by auto
  have "set ids \<inter> set (in_flight l') = {}" using l'(2) Cons.prems(2,3) by auto
  from Cons.IH [OF l'(1) _ this _ l'(5)] Cons.prems(2,4) l'(3,4) show ?case by (simp add: q)
qed simp

lemma queue_due_ok:
  assumes "loop_ok l" "queue_due_probes r h config now l = (l', removals)"
  shows "loop_ok l' \<and> removal_jobs l' = removal_jobs l \<and>
    (\<forall>c \<in> set removals. \<exists>w. get_worker r (rc_worker_id c) = Some w \<and> status h w = Failed \<and> revision h w = rc_expected_revision c)"
proof -
  let ?cap = "MAX_CONCURRENT_HEALTH_PROBES - length (in_flight l)"
  let ?ids = "take ?cap (map fst (filter (\<lambda>(i, deadline). now \<ge> deadline \<and> i \<notin> set (in_flight l)) (next_check l)))"
  have "distinct ?ids" using assms(1) by (intro distinct_take) (simp add: loop_ok_def distinct_map_filter)
  moreover have "set ?ids \<inter> set (in_flight l) = {}" by (auto dest!: in_set_takeD)
  moreover have "length ?ids \<le> ?cap" by simp
  then have "length (in_flight l) + length ?ids \<le> MAX_CONCURRENT_HEALTH_PROBES" using assms(1) unfolding loop_ok_def by linarith
  ultimately show ?thesis
    using queue_probes_ok [OF assms(1), of ?ids "[]" r h config now] assms
    by (auto simp: queue_due_probes_def Let_def split: if_splits)
qed

lemma schedule_distinct:
  "distinct (map fst nc) \<Longrightarrow> distinct (map fst (schedule_descriptor_at nc d config now im))"
  by (simp add: schedule_descriptor_at_def Let_def distinct_map_delete distinct_update)

lemma foldl_schedule_distinct:
  "distinct (map fst nc) \<Longrightarrow> distinct (map fst (foldl (\<lambda>nc d. schedule_descriptor_at nc d config now False) nc ds))"
  by (induction ds arbitrary: nc) (simp_all add: schedule_distinct)

lemma handle_event_distinct: "distinct (map fst nc) \<Longrightarrow> distinct (map fst (handle_event config now h e nc))"
  by (cases e) (simp_all add: schedule_worker_at_def schedule_distinct distinct_map_delete)

lemma reconcile_distinct: "distinct (map fst nc) \<Longrightarrow> distinct (map fst (reconcile_from_registry r h nc config now))"
  unfolding reconcile_from_registry_def by (rule foldl_schedule_distinct)

lemma distinct_drop_nth:
  assumes "distinct xs" "n < length xs"
  shows "distinct (take n xs @ drop (Suc n) xs) \<and> set (take n xs @ drop (Suc n) xs) = set xs - {xs ! n}"
proof -
  obtain a x b where ab: "take n xs = a" "xs ! n = x" "drop (Suc n) xs = b" by blast
  then have xs: "xs = a @ x # b" using id_take_nth_drop [OF assms(2)] by simp
  have "distinct (a @ x # b)" "set xs = set (a @ x # b)" using assms(1) xs by simp_all
  then show ?thesis unfolding ab by auto
qed

lemma drop_probe_ok:
  assumes "loop_ok l" "n < length (probes l)"
  shows "loop_ok (l\<lparr>probes := take n (probes l) @ drop (Suc n) (probes l),
    in_flight := removeAll (p_worker_id (probes l ! n)) (in_flight l)\<rparr>)"
proof -
  let ?ids = "map p_worker_id (probes l)"
  have "distinct ?ids" using assms(1) by (simp add: loop_ok_def)
  then have "distinct (take n ?ids @ drop (Suc n) ?ids) \<and> set (take n ?ids @ drop (Suc n) ?ids) = set ?ids - {?ids ! n}"
    using assms(2) by (intro distinct_drop_nth) simp_all
  moreover have "length (removeAll (?ids ! n) (in_flight l)) \<le> MAX_CONCURRENT_HEALTH_PROBES"
    using assms(1) unfolding loop_ok_def by (meson le_trans length_removeAll_less_eq)
  ultimately show ?thesis
    using assms by (auto simp: loop_ok_def distinct_removeAll take_map drop_map)
qed

lemma apply_if_revision_failed:
  assumes "apply_if_revision i rv f (r, h) = (Some (x, Some (s, Failed)), r', h')"
  shows "\<exists>w. get_worker r' i = Some w \<and> status h' w = Failed"
  using assms
  by (auto simp: apply_if_revision_def get_worker_def Let_def status_def set_status_def from_u8_consts
      split: option.splits if_splits prod.splits)

lemma probe_outcome_revision:
  assumes "probe_outcome s ok cfg w h = (x, h')"
  shows "rt_revision (runtime_of h' w) = rt_revision (runtime_of h w)"
proof -
  have "rt_revision (runtime_of (snd (probe_outcome s ok cfg w h)) w) = rt_revision (runtime_of h w)"
    by (simp add: probe_outcome_def compute_next_status_def probe_ops Let_def split: worker_status.splits)
  with assms show ?thesis by simp
qed

lemma apply_probe_spec:
  assumes "apply_probe_completion q p ok (l, r, h) = (res, l', r', h')"
  shows "next_check l' = next_check l \<and> in_flight l' = in_flight l \<and> probes l' = probes l \<and>
    (removal_jobs l' = removal_jobs l \<or>
     (\<exists>c w. removal_jobs l' = removal_jobs l @ [c] \<and> get_worker r' (rc_worker_id c) = Some w \<and>
       status h' w = Failed \<and> revision h' w = rc_expected_revision c))"
proof (cases "apply_if_revision (p_worker_id p) (p_expected_revision p)
    (probe_outcome (p_launched_status p) ok (p_health_config p)) (r, h)")
  case (fields out r1 h1)
  show ?thesis
  proof (cases "\<exists>s. map_option snd out = Some (Some (s, Failed)) \<and> q")
    case False
    then show ?thesis
      using assms fields
      by (auto simp: apply_probe_completion_def Let_def split: option.splits prod.splits worker_status.splits if_splits)
  next
    case True
    then obtain x s where out: "out = Some (x, Some (s, Failed))" and q by (auto simp: map_option_case split: option.splits)
    from apply_if_revision_failed [OF fields [unfolded out]] obtain w where
      w: "get_worker r1 (p_worker_id p) = Some w" "status h1 w = Failed" by blast
    have "revision h1 w = p_expected_revision p"
      using fields w(1) out
      by (auto simp: apply_if_revision_def get_worker_def Let_def revision_def set_status_def
          dest!: probe_outcome_revision split: option.splits if_splits prod.splits)
    with w \<open>q\<close> show ?thesis
      using assms fields by (auto simp: out apply_probe_completion_def)
  qed
qed

lemma handle_message_ok:
  assumes "loop_ok l" "handle_message config q msg (l, r, h) = (l', r', h')"
  shows "loop_ok l' \<and> (removal_jobs l' = removal_jobs l \<or>
    (\<exists>c w. removal_jobs l' = removal_jobs l @ [c] \<and> get_worker r' (rc_worker_id c) = Some w \<and>
      status h' w = Failed \<and> revision h' w = rc_expected_revision c))"
proof (cases msg)
  case (ProbeDone n ok)
  show ?thesis
  proof (cases "n < length (probes l)")
    case True
    let ?p = "probes l ! n"
    let ?l = "l\<lparr>probes := take n (probes l) @ drop (Suc n) (probes l), in_flight := removeAll (p_worker_id ?p) (in_flight l)\<rparr>"
    obtain res l1 r1 h1 where ap: "apply_probe_completion q ?p ok (?l, r, h) = (res, l1, r1, h1)" by (metis prod.exhaust)
    note spec = apply_probe_spec [OF ap]
    have ok1: "loop_ok l1" using drop_probe_ok [OF assms(1) True] spec by (simp add: loop_ok_def)
    then have "loop_ok (l1\<lparr>next_check := AList.delete i (next_check l1)\<rparr>)" for i
      by (simp add: loop_ok_def distinct_map_delete)
    moreover have "l' \<in> {l1, l1\<lparr>next_check := AList.delete (p_worker_id ?p) (next_check l1)\<rparr>}" "r' = r1" "h' = h1"
      using assms(2) True ap ProbeDone
      by (auto simp: Let_def split: probe_apply_result.splits option.splits worker_status.splits)
    ultimately show ?thesis using ok1 spec by auto
  qed (use assms ProbeDone in auto)
qed (use assms in \<open>auto simp: loop_ok_def handle_event_distinct reconcile_distinct\<close>)

lemma loop_iteration_ok:
  assumes "loop_ok l" "loop_iteration config q now msg (l, r, h) = (l', r', h')"
  shows "loop_ok l' \<and> (\<exists>new. removal_jobs l' = removal_jobs l @ new \<and> (\<forall>c \<in> set new.
    (\<exists>w. get_worker r (rc_worker_id c) = Some w \<and> status h w = Failed \<and> revision h w = rc_expected_revision c) \<or>
    (\<exists>w. get_worker r' (rc_worker_id c) = Some w \<and> status h' w = Failed \<and> revision h' w = rc_expected_revision c)))"
proof -
  obtain l1 removals where due: "queue_due_probes r h config now l = (l1, removals)" by force
  note q = queue_due_ok [OF assms(1) due]
  let ?l = "if q then l1\<lparr>removal_jobs := removal_jobs l1 @ removals\<rparr> else l1"
  have ok: "loop_ok ?l" using q by (simp add: loop_ok_def)
  have msg: "handle_message config q msg (?l, r, h) = (l', r', h')"
    using assms(2) due by (simp add: loop_iteration_def Let_def)
  from handle_message_ok [OF ok msg] show ?thesis
    using q by (auto split: if_splits)
qed

lemma outage_run:
  assumes "ps_status c = Ready" "ps_failures c = 0" "0 < unat (h_failure_threshold cfg)"
  shows "ps_status (foldl (probe_step cfg) c (replicate n False)) =
    (if n < unat (h_failure_threshold cfg) then Ready
     else if n < 4 * unat (h_failure_threshold cfg) then NotReady else Failed)"
proof -
  let ?ft = "unat (h_failure_threshold cfg)"
  let ?c1 = "foldl (probe_step cfg) c (replicate ?ft False)"
  let ?c2 = "foldl (probe_step cfg) ?c1 (replicate (3 * ?ft) False)"
  have c1: "ps_status ?c1 = NotReady" "ps_failures ?c1 = 0"
    using fails_run [of c cfg ?ft] assms by (simp_all add: outage_limit_def Let_def)
  have c2: "ps_status ?c2 = Failed"
    using fails_run [of ?c1 cfg "3 * ?ft"] c1 assms(3) by (simp add: outage_limit_def Let_def)
  consider "n < ?ft" | k where "n = ?ft + k" "k < 3 * ?ft" | k where "n = ?ft + (3 * ?ft + k)"
    by (metis add_diff_inverse_nat)
  then show ?thesis
  proof cases
    case 1
    then show ?thesis using fails_run [of c cfg n] assms by (simp add: outage_limit_def Let_def)
  next
    case 2
    then have "ps_status (foldl (probe_step cfg) ?c1 (replicate k False)) = NotReady"
      using fails_run [of ?c1 cfg k] c1 assms(3) by (simp add: outage_limit_def Let_def)
    with 2 show ?thesis by (simp add: replicate_add)
  next
    case 3
    have "foldl (probe_step cfg) c (replicate n False) = foldl (probe_step cfg) ?c2 (replicate k False)"
      unfolding 3 by (simp only: replicate_add foldl_append)
    with failed_run [OF c2] 3 show ?thesis by simp
  qed
qed

interpretation health_loop: invariant_system "loop_step config q" loop_ok for config q
proof
  fix l and e :: "(worker_registry \<times> worker_heap) \<times> nat \<times> loop_message"
  assume l: "loop_ok l"
  obtain r h now msg where e: "e = ((r, h), now, msg)" by (metis prod.exhaust)
  obtain l' r' h' where it: "loop_iteration config q now msg (l, r, h) = (l', r', h')" by (metis prod.exhaust)
  from loop_iteration_ok [OF l it] show "loop_ok (loop_step config q l e)" by (simp add: loop_step_def e it)
qed

section \<open>Properties\<close>

text \<open>
  C7: a worker that stops answering leaves the rotation after \<open>failure_threshold\<close> failed probes and
  is given up after three times as many more, exactly: before that it stays \<open>Ready\<close> and then
  \<open>NotReady\<close>, and \<open>Failed\<close> is final.
\<close>

theorem outage_thresholds:
  assumes "status h w = Ready" and "rt_consecutive_failures (runtime_of h w) = 0" and "0 < h_failure_threshold cfg"
  shows "status (foldl (probe_cycle cfg w) h (replicate n False)) w =
    (if n < unat (h_failure_threshold cfg) then Ready
     else if n < 4 * unat (h_failure_threshold cfg) then NotReady else Failed)"
  using outage_run [of "probe_abs w h" cfg n] assms
  by (simp add: status_run probe_abs_def word_less_nat_alt)

theorem outage_thresholds_witness:
  "status (foldl (probe_cycle default_health_check_config 0) demo_heap (replicate 5 False)) 0 = NotReady"
  using outage_thresholds [of demo_heap 0 default_health_check_config 5]
  by (simp add: default_health_check_config_def status_def runtime_of_def demo_heap_def new_runtime_def from_u8_consts)

text \<open>
  isolated failures do not take a worker out of the rotation. A \<open>Ready\<close> worker keeps this
  status through any sequence of probes without \<open>failure_threshold\<close> failures in a row.
\<close>

theorem flapping_stays_ready:
  assumes "status h w = Ready" and "rt_consecutive_failures (runtime_of h w) = 0"
    and "\<not> sublist (replicate (unat (h_failure_threshold cfg)) False) oks"
  shows "status (foldl (probe_cycle cfg w) h oks) w = Ready"
  using ready_run [of "probe_abs w h" cfg oks] assms by (simp add: status_run probe_abs_def)

theorem flapping_stays_ready_witness:
  "status (foldl (probe_cycle default_health_check_config 0) demo_heap [False, False, True, False]) 0 = Ready"
proof -
  have "status demo_heap 0 = Ready" "rt_consecutive_failures (runtime_of demo_heap 0) = 0"
    by (simp_all add: status_def runtime_of_def demo_heap_def new_runtime_def from_u8_consts)
  moreover have "unat (h_failure_threshold default_health_check_config) = 3" by (simp add: default_health_check_config_def)
  moreover have "replicate 3 False = [False, False, False]" by (simp add: numeral_3_eq_3)
  moreover have "\<not> sublist [False, False, False] [False, False, True, False]"
    by (simp add: sublist_Cons_right)
  ultimately show ?thesis by (intro flapping_stays_ready) simp_all
qed

text \<open>
  no worker stays \<open>Pending\<close> for ever. Whatever its probes return, a new worker is \<open>Ready\<close> or
  \<open>Failed\<close> after at most ten times \<open>failure_threshold\<close> of them.
\<close>

theorem pending_resolves:
  assumes "status h w = Pending" and "total_pending_probes h w = 0" and "0 < h_failure_threshold cfg"
    and "length oks = 10 * unat (h_failure_threshold cfg)"
  shows "\<exists>k \<le> length oks. status (foldl (probe_cycle cfg w) h (take k oks)) w \<in> {Ready, Failed}"
proof -
  have "unat (h_failure_threshold cfg) < 2 ^ 32" using unsigned_less [of "h_failure_threshold cfg"] by simp
  moreover have "oks \<noteq> []" using assms(3,4) by (auto simp: word_less_nat_alt)
  ultimately show ?thesis
    using pending_run [of "probe_abs w h" cfg oks] assms(1,2,4) by (simp add: status_run probe_abs_def)
qed

theorem pending_resolves_witness:
  "\<exists>k \<le> 30. status (foldl (probe_cycle default_health_check_config 0)
     (demo_heap\<lparr>runtimes := (\<lambda>_. new_runtime Pending)\<rparr>) (take k (replicate 30 False))) 0 \<in> {Ready, Failed}"
  using pending_resolves [of "demo_heap\<lparr>runtimes := (\<lambda>_. new_runtime Pending)\<rparr>" 0 default_health_check_config
      "replicate 30 False"]
  by (simp add: default_health_check_config_def status_def runtime_of_def total_pending_probes_def new_runtime_def
      from_u8_consts del: take_replicate)

text \<open>
  the loop probes within its limits. Under any sequence of messages, and whatever happens to
  the registry meanwhile, at most 128 probes run at the same time and at most one for each worker.
\<close>

theorem health_loop_bounded:
  "length (probes (foldl (loop_step config q) (fst (start_manager r h config jq now)) es)) \<le> 128 \<and>
   distinct (map p_worker_id (probes (foldl (loop_step config q) (fst (start_manager r h config jq now)) es)))"
proof -
  let ?l = "foldl (loop_step config q) (fst (start_manager r h config jq now)) es"
  have "loop_ok (fst (start_manager r h config jq now))"
    by (simp add: start_manager_def loop_ok_def reconcile_distinct MAX_CONCURRENT_HEALTH_PROBES_def)
  then have ok: "loop_ok ?l" by (rule health_loop.inv_run)
  then have "length (probes ?l) = length (in_flight ?l)"
    unfolding loop_ok_def by (metis distinct_card length_map)
  with ok show ?thesis by (simp add: loop_ok_def MAX_CONCURRENT_HEALTH_PROBES_def)
qed

text \<open>
  only failed workers are removed. Every removal job that an iteration of the loop submits names
  a worker that is registered with status \<open>Failed\<close> at the revision of the job, before or after the
  probe result of this iteration is applied.
\<close>

theorem removal_only_failed:
  assumes "loop_ok l" and "loop_iteration config q now msg (l, r, h) = (l', r', h')"
  shows "\<exists>new. removal_jobs l' = removal_jobs l @ new \<and> (\<forall>c \<in> set new.
    (\<exists>w. get_worker r (rc_worker_id c) = Some w \<and> status h w = Failed \<and> revision h w = rc_expected_revision c) \<or>
    (\<exists>w. get_worker r' (rc_worker_id c) = Some w \<and> status h' w = Failed \<and> revision h' w = rc_expected_revision c))"
  using loop_iteration_ok [OF assms] by blast

theorem removal_only_failed_witness:
  "\<exists>c. removal_jobs (fst (loop_iteration \<lparr>default_check_interval_secs = 60, remove_unhealthy = True\<rparr> True 5 SleepElapsed
     (\<lparr>next_check = [(''id'', 0)], in_flight = [], probes = [], removal_jobs = []\<rparr>,
      new_registry\<lparr>r_workers := [(''id'', 0)]\<rparr>, demo_heap\<lparr>runtimes := (\<lambda>_. new_runtime Failed)\<rparr>))) = [c] \<and>
     rc_expected_revision c = 0"
proof -
  let ?config = "\<lparr>default_check_interval_secs = 60, remove_unhealthy = True\<rparr>"
  let ?l = "\<lparr>next_check = [(''id'', 0)], in_flight = [], probes = [], removal_jobs = []\<rparr>"
  let ?r = "new_registry\<lparr>r_workers := [(''id'', 0)]\<rparr>"
  let ?h = "demo_heap\<lparr>runtimes := (\<lambda>_. new_runtime Failed)\<rparr>"
  have st: "status ?h 0 = Failed" "revision ?h 0 = 0"
    by (simp_all add: status_def revision_def runtime_of_def new_runtime_def from_u8_consts)
  have cfg: "\<not> h_disable_health_check (w_health_config (objs ?h 0))"
    by (simp add: demo_heap_def demo_worker_def default_health_check_config_def)
  obtain l' r' h' where it: "loop_iteration ?config True 5 SleepElapsed (?l, ?r, ?h) = (l', r', h')" by (metis prod.exhaust)
  then have jobs: "removal_jobs l' = [\<lparr>rc_worker_id = ''id'', rc_url = url ?h 0, rc_expected_revision = 0\<rparr>]" "r' = ?r" "h' = ?h"
    using st cfg
    by (auto simp: loop_iteration_def queue_due_probes_def MAX_CONCURRENT_HEALTH_PROBES_def queue_probe_def get_worker_def Let_def)
  have "loop_ok ?l" by (simp add: loop_ok_def MAX_CONCURRENT_HEALTH_PROBES_def)
  from removal_only_failed [OF this it] show ?thesis unfolding it by (simp add: jobs)
qed

end
