(* ===== verification/MeshCrdt.thy ===== *)
theory MeshCrdt
  imports Prelude "HOL-Library.AList" "HOL-Library.Product_Lexorder"
begin

text \<open>
  The replicated key-value map of the mesh (\<open>crates/mesh/src/crdt_kv\<close>): Lamport clock, operation
  log, local store and the OR-map on top of them, and the merge rule of rate-limit counters
  (\<open>epoch_max_wins.rs\<close>). Replica ids are UUIDs, 128-bit words with their order. Concurrent maps are
  association lists. The per-key locks make an operation on a key one step; the maps of locks
  themselves are left out.
\<close>

section \<open>Model\<close>

type_synonym replica_id = "128 word"
type_synonym bytes = "u8 list"

subsection \<open>Clock (\<open>replica.rs\<close>)\<close>

definition clock_tick :: "u64 \<Rightarrow> u64" where
  "clock_tick counter = saturating_add counter 1"

definition clock_update :: "u64 \<Rightarrow> u64 \<Rightarrow> u64" where
  "clock_update counter remote_timestamp = saturating_add (max counter remote_timestamp) 1"

subsection \<open>Store (\<open>kv_store.rs\<close>)\<close>

record kv_store =
  kv_map :: "(string \<times> bytes) list"
  kv_generation :: u64

definition new_kv_store :: kv_store where
  "new_kv_store = \<lparr>kv_map = [], kv_generation = 0\<rparr>"

definition kv_get :: "kv_store \<Rightarrow> string \<Rightarrow> bytes option" where
  "kv_get st k = map_of (kv_map st) k"

definition kv_contains_key :: "kv_store \<Rightarrow> string \<Rightarrow> bool" where
  "kv_contains_key st k \<longleftrightarrow> map_of (kv_map st) k \<noteq> None"

definition kv_insert :: "string \<Rightarrow> bytes \<Rightarrow> kv_store \<Rightarrow> bytes option \<times> kv_store" where
  "kv_insert k v st =
     (map_of (kv_map st) k, \<lparr>kv_map = AList.update k v (kv_map st), kv_generation = kv_generation st + 1\<rparr>)"

definition kv_upsert :: "string \<Rightarrow> (bytes option \<Rightarrow> bytes) \<Rightarrow> kv_store \<Rightarrow> bytes \<times> kv_store" where
  "kv_upsert k updater st =
     (let v = updater (map_of (kv_map st) k)
      in (v, \<lparr>kv_map = AList.update k v (kv_map st), kv_generation = kv_generation st + 1\<rparr>))"

definition kv_remove :: "string \<Rightarrow> kv_store \<Rightarrow> bytes option \<times> kv_store" where
  "kv_remove k st =
     (map_of (kv_map st) k, \<lparr>kv_map = AList.delete k (kv_map st), kv_generation = kv_generation st + 1\<rparr>)"

definition kv_len :: "kv_store \<Rightarrow> nat" where "kv_len st = length (kv_map st)"

definition kv_keys :: "kv_store \<Rightarrow> string list" where "kv_keys st = map fst (kv_map st)"

subsection \<open>Operations and their log (\<open>operation.rs\<close>)\<close>

datatype operation =
  Insert (op_key: string) (op_value: bytes) (op_timestamp: u64) (op_replica_id: replica_id)
| Remove (op_key: string) (op_timestamp: u64) (op_replica_id: replica_id)

definition operation_id :: "operation \<Rightarrow> replica_id \<times> u64" where
  "operation_id op = (op_replica_id op, op_timestamp op)"

text \<open>The order of the last-writer-wins rule.\<close>

definition op_version :: "operation \<Rightarrow> u64 \<times> replica_id" where
  "op_version op = (op_timestamp op, op_replica_id op)"

definition AUTO_COMPACT_THRESHOLD :: nat where "AUTO_COMPACT_THRESHOLD = 10000"

definition latest_step :: "(string \<times> operation) list \<Rightarrow> operation \<Rightarrow> (string \<times> operation) list" where
  "latest_step latest op =
     (case map_of latest (op_key op) of
        Some current \<Rightarrow> if op_version current \<ge> op_version op then latest else AList.update (op_key op) op latest
      | None \<Rightarrow> AList.update (op_key op) op latest)"

definition latest_operations_by_key :: "operation list \<Rightarrow> (string \<times> operation) list" where
  "latest_operations_by_key ops = foldl latest_step [] ops"

definition log_compact :: "operation list \<Rightarrow> operation list" where
  "log_compact ops = sort_key op_version (map snd (latest_operations_by_key ops))"

definition log_append :: "operation \<Rightarrow> operation list \<Rightarrow> operation list" where
  "log_append op ops =
     (let ops = ops @ [op]
      in if length ops > AUTO_COMPACT_THRESHOLD then
           (let ops = log_compact ops
            in if length ops > AUTO_COMPACT_THRESHOLD
               then drop (length ops - AUTO_COMPACT_THRESHOLD * 3 div 4) ops
               else ops)
         else ops)"

definition compact_up_to :: "u64 \<Rightarrow> operation list \<Rightarrow> operation list" where
  "compact_up_to watermark ops = filter (\<lambda>op. op_timestamp op > watermark) ops"

definition snapshot_and_truncate :: "operation list \<Rightarrow> (string \<times> operation) list \<times> operation list" where
  "snapshot_and_truncate ops = (latest_operations_by_key ops, [])"

text \<open>\<open>decode\<close> is the bincode decoder of counter payloads.\<close>

definition latest_counter_value :: "(bytes \<Rightarrow> i64 option) \<Rightarrow> string \<Rightarrow> operation list \<Rightarrow> i64 option" where
  "latest_counter_value decode k ops =
     (case max_by_key op_version (filter (\<lambda>op. op_key op = k) ops) of
        None \<Rightarrow> None
      | Some (Insert _ value _ _) \<Rightarrow> decode value
      | Some (Remove _ _ _) \<Rightarrow> None)"

fun log_merge_from :: "(replica_id \<times> u64) list \<Rightarrow> operation list \<Rightarrow> operation list \<Rightarrow> operation list" where
  "log_merge_from seen ops [] = ops"
| "log_merge_from seen ops (op # other) =
     (if operation_id op \<in> set seen then log_merge_from seen ops other
      else log_merge_from (operation_id op # seen) (ops @ [op]) other)"

definition log_merge :: "operation list \<Rightarrow> operation list \<Rightarrow> operation list" where
  "log_merge ops other = log_merge_from (map operation_id ops) ops other"

subsection \<open>The OR-map (\<open>crdt.rs\<close>)\<close>

record value_metadata =
  vm_timestamp :: u64
  vm_replica_id :: replica_id
  vm_is_tombstone :: bool
  vm_created_at :: nat

definition version_key :: "value_metadata \<Rightarrow> u64 \<times> replica_id" where
  "version_key m = (vm_timestamp m, vm_replica_id m)"

definition matches_version :: "u64 \<Rightarrow> replica_id \<Rightarrow> value_metadata \<Rightarrow> bool" where
  "matches_version timestamp rid m \<longleftrightarrow> vm_timestamp m = timestamp \<and> vm_replica_id m = rid"

definition is_newer_than :: "u64 \<Rightarrow> replica_id \<Rightarrow> value_metadata \<Rightarrow> bool" where
  "is_newer_than timestamp rid m \<longleftrightarrow> version_key m > (timestamp, rid)"

record crdt_or_map =
  c_store :: kv_store
  c_metadata :: "(string \<times> value_metadata list) list"
  c_replica_id :: replica_id
  c_clock :: u64
  c_log :: "operation list"

definition with_replica_id :: "replica_id \<Rightarrow> crdt_or_map" where
  "with_replica_id rid =
     \<lparr>c_store = new_kv_store, c_metadata = [], c_replica_id = rid, c_clock = 0, c_log = []\<rparr>"

definition key_is_tombstoned_or_unknown :: "crdt_or_map \<Rightarrow> string \<Rightarrow> bool" where
  "key_is_tombstoned_or_unknown c k \<longleftrightarrow>
     (case map_of (c_metadata c) k of
        None \<Rightarrow> True
      | Some versions \<Rightarrow>
          (case max_by_key version_key versions of None \<Rightarrow> True | Some winner \<Rightarrow> vm_is_tombstone winner))"

definition compact_key_metadata :: "value_metadata list \<Rightarrow> value_metadata list" where
  "compact_key_metadata versions =
     (if length versions \<le> 1 then versions
      else case max_by_key version_key versions of Some winner \<Rightarrow> [winner] | None \<Rightarrow> versions)"

definition set_metadata :: "string \<Rightarrow> value_metadata list \<Rightarrow> crdt_or_map \<Rightarrow> crdt_or_map" where
  "set_metadata k versions c = c\<lparr>c_metadata := AList.update k versions (c_metadata c)\<rparr>"

definition record_insert_metadata :: "nat \<Rightarrow> string \<Rightarrow> u64 \<Rightarrow> replica_id \<Rightarrow> crdt_or_map \<Rightarrow> bool \<times> crdt_or_map" where
  "record_insert_metadata now k timestamp rid c =
     (let new = \<lparr>vm_timestamp = timestamp, vm_replica_id = rid, vm_is_tombstone = False, vm_created_at = now\<rparr>
      in case map_of (c_metadata c) k of
           Some versions \<Rightarrow>
             if list_ex (matches_version timestamp rid) versions
             then (False, set_metadata k (compact_key_metadata versions) c)
             else if (case max_by_key version_key versions of
                        Some winner \<Rightarrow> is_newer_than timestamp rid winner | None \<Rightarrow> False)
             then (False, set_metadata k (compact_key_metadata versions) c)
             else (True, set_metadata k (compact_key_metadata (versions @ [new])) c)
         | None \<Rightarrow> (True, set_metadata k [new] c))"

definition record_remove_metadata :: "nat \<Rightarrow> string \<Rightarrow> u64 \<Rightarrow> replica_id \<Rightarrow> crdt_or_map \<Rightarrow> bool \<times> crdt_or_map" where
  "record_remove_metadata now k timestamp rid c =
     (let tombstone = \<lparr>vm_timestamp = timestamp, vm_replica_id = rid, vm_is_tombstone = True, vm_created_at = now\<rparr>
      in case map_of (c_metadata c) k of
           Some versions \<Rightarrow>
             if list_ex (\<lambda>v. vm_is_tombstone v \<and> matches_version timestamp rid v) versions
             then (False, set_metadata k (compact_key_metadata versions) c)
             else if list_ex (is_newer_than timestamp rid) versions
             then (False, set_metadata k (compact_key_metadata versions) c)
             else (True, set_metadata k (compact_key_metadata (versions @ [tombstone])) c)
         | None \<Rightarrow>
             if kv_contains_key (c_store c) k then (True, set_metadata k [tombstone] c) else (False, c))"

definition tick :: "crdt_or_map \<Rightarrow> u64 \<times> crdt_or_map" where
  "tick c = (clock_tick (c_clock c), c\<lparr>c_clock := clock_tick (c_clock c)\<rparr>)"

definition append_operation :: "operation \<Rightarrow> crdt_or_map \<Rightarrow> crdt_or_map" where
  "append_operation op c = c\<lparr>c_log := log_append op (c_log c)\<rparr>"

definition crdt_insert :: "nat \<Rightarrow> string \<Rightarrow> bytes \<Rightarrow> crdt_or_map \<Rightarrow> bytes option \<times> crdt_or_map" where
  "crdt_insert now k value c =
     (let (timestamp, c) = tick c;
          (recorded, c) = record_insert_metadata now k timestamp (c_replica_id c) c
      in if recorded then
           (let prev = kv_get (c_store c) k;
                c = c\<lparr>c_store := snd (kv_upsert k (\<lambda>_. value) (c_store c))\<rparr>
            in (prev, append_operation (Insert k value timestamp (c_replica_id c)) c))
         else (kv_get (c_store c) k, c))"

text \<open>
  The common part of the upserts: \<open>upsert\<close> and \<open>try_upsert\<close> write in any case, the updater of
  \<open>try_upsert_if\<close> may skip the write. An error of the updater leaves the map unchanged.
\<close>

definition write_value :: "nat \<Rightarrow> string \<Rightarrow> bytes \<Rightarrow> crdt_or_map \<Rightarrow> (bytes \<times> bool) \<times> crdt_or_map" where
  "write_value now k v c =
     (let (timestamp, c) = tick c;
          (recorded, c) = record_insert_metadata now k timestamp (c_replica_id c) c
      in if recorded then
           (let c = c\<lparr>c_store := snd (kv_insert k v (c_store c))\<rparr>
            in ((v, True), append_operation (Insert k v timestamp (c_replica_id c)) c))
         else ((case kv_get (c_store c) k of Some w \<Rightarrow> w | None \<Rightarrow> [], False), c))"

definition crdt_upsert :: "nat \<Rightarrow> string \<Rightarrow> (bytes option \<Rightarrow> bytes) \<Rightarrow> crdt_or_map \<Rightarrow> bytes \<times> crdt_or_map" where
  "crdt_upsert now k updater c =
     (case write_value now k (updater (kv_get (c_store c) k)) c of ((v, _), c) \<Rightarrow> (v, c))"

definition try_upsert ::
  "nat \<Rightarrow> string \<Rightarrow> (bytes option \<Rightarrow> 'e + bytes) \<Rightarrow> crdt_or_map \<Rightarrow> ('e + bytes) \<times> crdt_or_map" where
  "try_upsert now k updater c =
     (case updater (kv_get (c_store c) k) of
        Inl err \<Rightarrow> (Inl err, c)
      | Inr v \<Rightarrow> (case write_value now k v c of ((v, _), c) \<Rightarrow> (Inr v, c)))"

definition try_upsert_if ::
  "nat \<Rightarrow> string \<Rightarrow> (bytes option \<Rightarrow> 'e + bytes option) \<Rightarrow> crdt_or_map \<Rightarrow> ('e + bytes \<times> bool) \<times> crdt_or_map" where
  "try_upsert_if now k updater c =
     (case updater (kv_get (c_store c) k) of
        Inl err \<Rightarrow> (Inl err, c)
      | Inr (Some v) \<Rightarrow> (case write_value now k v c of (res, c) \<Rightarrow> (Inr res, c))
      | Inr None \<Rightarrow> (Inr (case kv_get (c_store c) k of Some w \<Rightarrow> w | None \<Rightarrow> [], False), c))"

definition crdt_remove :: "nat \<Rightarrow> string \<Rightarrow> crdt_or_map \<Rightarrow> bytes option \<times> crdt_or_map" where
  "crdt_remove now k c =
     (let (timestamp, c) = tick c;
          (recorded, c) = record_remove_metadata now k timestamp (c_replica_id c) c
      in if recorded then
           (let c = append_operation (Remove k timestamp (c_replica_id c)) c;
                (removed, st) = kv_remove k (c_store c)
            in (removed, c\<lparr>c_store := st\<rparr>))
         else (None, c))"

definition crdt_get :: "crdt_or_map \<Rightarrow> string \<Rightarrow> bytes option" where
  "crdt_get c k = kv_get (c_store c) k"

definition gc_key :: "nat \<Rightarrow> nat \<Rightarrow> nat \<times> crdt_or_map \<Rightarrow> string \<Rightarrow> nat \<times> crdt_or_map" where
  "gc_key now grace = (\<lambda>(removed, c) k.
     if \<not> key_is_tombstoned_or_unknown c k then (removed, c)
     else case map_of (c_metadata c) k of
       None \<Rightarrow> (removed, c)
     | Some versions \<Rightarrow>
         if \<not> kv_contains_key (c_store c) k \<and>
            (case max_by_key version_key versions of
               None \<Rightarrow> True
             | Some winner \<Rightarrow> vm_is_tombstone winner \<and> now - vm_created_at winner \<ge> grace)
         then (removed + 1, c\<lparr>c_metadata := AList.delete k (c_metadata c)\<rparr>)
         else (removed, c))"

definition gc_tombstones_with_grace :: "nat \<Rightarrow> nat \<Rightarrow> crdt_or_map \<Rightarrow> nat \<times> crdt_or_map" where
  "gc_tombstones_with_grace now grace c =
     foldl (gc_key now grace) (0, c)
       (filter (\<lambda>k. \<not> kv_contains_key (c_store c) k) (map fst (c_metadata c)))"

definition DEFAULT_TOMBSTONE_GRACE :: nat where "DEFAULT_TOMBSTONE_GRACE = 300 * 1000000000"

definition gc_tombstones :: "nat \<Rightarrow> crdt_or_map \<Rightarrow> nat \<times> crdt_or_map" where
  "gc_tombstones now = gc_tombstones_with_grace now DEFAULT_TOMBSTONE_GRACE"

definition apply_insert :: "nat \<Rightarrow> string \<Rightarrow> bytes \<Rightarrow> u64 \<Rightarrow> replica_id \<Rightarrow> crdt_or_map \<Rightarrow> crdt_or_map" where
  "apply_insert now k value timestamp rid c =
     (case record_insert_metadata now k timestamp rid c of
        (True, c) \<Rightarrow> c\<lparr>c_store := snd (kv_insert k value (c_store c))\<rparr>
      | (False, c) \<Rightarrow> c)"

definition apply_remove :: "nat \<Rightarrow> string \<Rightarrow> u64 \<Rightarrow> replica_id \<Rightarrow> crdt_or_map \<Rightarrow> crdt_or_map" where
  "apply_remove now k timestamp rid c =
     (case record_remove_metadata now k timestamp rid c of
        (True, c) \<Rightarrow> c\<lparr>c_store := snd (kv_remove k (c_store c))\<rparr>
      | (False, c) \<Rightarrow> c)"

fun apply_operation :: "nat \<Rightarrow> operation \<Rightarrow> crdt_or_map \<Rightarrow> crdt_or_map" where
  "apply_operation now (Insert k value timestamp rid) c =
     apply_insert now k value timestamp rid (c\<lparr>c_clock := clock_update (c_clock c) timestamp\<rparr>)"
| "apply_operation now (Remove k timestamp rid) c =
     apply_remove now k timestamp rid (c\<lparr>c_clock := clock_update (c_clock c) timestamp\<rparr>)"

definition crdt_merge :: "nat \<Rightarrow> operation list \<Rightarrow> crdt_or_map \<Rightarrow> crdt_or_map" where
  "crdt_merge now other_log c =
     (let seen = map operation_id (c_log c);
          merged = log_compact (log_merge (c_log c) other_log);
          unseen = sort_key op_version (filter (\<lambda>op. operation_id op \<notin> set seen) merged)
      in fold (apply_operation now) unseen (c\<lparr>c_log := merged\<rparr>))"

definition merge_replica :: "nat \<Rightarrow> crdt_or_map \<Rightarrow> crdt_or_map \<Rightarrow> crdt_or_map" where
  "merge_replica now other c = crdt_merge now (c_log other) c"

subsection \<open>Rate-limit counters (\<open>epoch_max_wins.rs\<close>)\<close>

definition EPOCH_MAX_WINS_ENCODED_LEN :: nat where "EPOCH_MAX_WINS_ENCODED_LEN = 16"

record epoch_count =
  ec_epoch :: u64
  ec_count :: i64

fun be_digits :: "nat \<Rightarrow> nat \<Rightarrow> nat list" where
  "be_digits 0 x = []"
| "be_digits (Suc n) x = be_digits n (x div 256) @ [x mod 256]"

definition to_be_bytes :: "u64 \<Rightarrow> bytes" where
  "to_be_bytes w = map of_nat (be_digits 8 (unat w))"

definition from_be_bytes :: "bytes \<Rightarrow> u64" where
  "from_be_bytes bs = of_nat (foldl (\<lambda>a b. a * 256 + unat b) 0 bs)"

definition ec_encode :: "u64 \<Rightarrow> i64 \<Rightarrow> bytes" where
  "ec_encode epoch n = to_be_bytes epoch @ to_be_bytes n"

definition ec_decode :: "bytes \<Rightarrow> epoch_count option" where
  "ec_decode bs =
     (if length bs \<noteq> EPOCH_MAX_WINS_ENCODED_LEN then None
      else Some \<lparr>ec_epoch = from_be_bytes (take 8 bs), ec_count = from_be_bytes (drop 8 bs)\<rparr>)"

definition i64_max :: "i64 \<Rightarrow> i64 \<Rightarrow> i64" where
  "i64_max a b = (if sint a \<le> sint b then b else a)"

definition ec_merge :: "bytes \<Rightarrow> bytes \<Rightarrow> bytes" where
  "ec_merge local remote =
     (case (ec_decode local, ec_decode remote) of
        (Some l, Some r) \<Rightarrow>
          (let winner =
             (if ec_epoch l > ec_epoch r then l
              else if ec_epoch l < ec_epoch r then r
              else \<lparr>ec_epoch = ec_epoch l, ec_count = i64_max (ec_count l) (ec_count r)\<rparr>)
           in ec_encode (ec_epoch winner) (ec_count winner))
      | (Some _, None) \<Rightarrow> local
      | (None, Some _) \<Rightarrow> remote
      | (None, None) \<Rightarrow> local)"

definition newest :: "operation list \<Rightarrow> string \<Rightarrow> operation option" where
  "newest ops k = map_of (latest_operations_by_key ops) k"

fun op_effect :: "operation option \<Rightarrow> bytes option" where
  "op_effect (Some (Insert k v ts rid)) = Some v"
| "op_effect _ = None"

text \<open>The state of a key agrees with the newest operation on it.\<close>

definition key_ok :: "crdt_or_map \<Rightarrow> string \<Rightarrow> operation option \<Rightarrow> bool" where
  "key_ok c k oo \<longleftrightarrow> kv_get (c_store c) k = op_effect oo \<and>
     (case map_of (c_metadata c) k of
        None \<Rightarrow> op_effect oo = None
      | Some vs \<Rightarrow> \<exists>m op. vs = [m] \<and> oo = Some op \<and> version_key m = op_version op \<and>
          (vm_is_tombstone m \<longleftrightarrow> op_effect oo = None))"

definition crdt_inv :: "crdt_or_map \<Rightarrow> bool" where
  "crdt_inv c \<longleftrightarrow> inj_on operation_id (set (c_log c)) \<and> (\<forall>k. key_ok c k (newest (c_log c) k)) \<and>
     (\<forall>op \<in> set (c_log c). op_timestamp op \<le> c_clock c)"

text \<open>The key fits into the log without forcing it to forget other keys.\<close>

definition fits :: "crdt_or_map \<Rightarrow> string \<Rightarrow> bool" where
  "fits c k \<longleftrightarrow> card (insert k (op_key ` set (c_log c))) \<le> AUTO_COMPACT_THRESHOLD"

text \<open>
  What happens to a replica: local writes, upserts and removals, merges of any received log, and
  garbage collection, each with the reading of the clock it uses.
\<close>

datatype crdt_event =
    InsertKey nat string bytes
  | UpsertKey nat string "bytes option \<Rightarrow> bytes"
  | RemoveKey nat string
  | MergeLog nat "operation list"
  | CollectGarbage nat nat

fun crdt_apply :: "crdt_or_map \<Rightarrow> crdt_event \<Rightarrow> crdt_or_map" where
  "crdt_apply c (InsertKey now k v) = snd (crdt_insert now k v c)"
| "crdt_apply c (UpsertKey now k f) = snd (crdt_upsert now k f c)"
| "crdt_apply c (RemoveKey now k) = snd (crdt_remove now k c)"
| "crdt_apply c (MergeLog now ops) = crdt_merge now ops c"
| "crdt_apply c (CollectGarbage now grace) = snd (gc_tombstones_with_grace now grace c)"

definition crdt_run :: "replica_id \<Rightarrow> crdt_event list \<Rightarrow> crdt_or_map" where
  "crdt_run rid es = foldl crdt_apply (with_replica_id rid) es"

text \<open>
  The conditions of the results below on a run: a written key fits into the log, so that the
  compaction of the log forgets no other key; the clock of a writing replica is not exhausted;
  and the operation ids of a received log are unique.
\<close>

fun event_ok :: "crdt_or_map \<Rightarrow> crdt_event \<Rightarrow> bool" where
  "event_ok c (InsertKey now k v) = (fits c k \<and> c_clock c \<noteq> - 1)"
| "event_ok c (UpsertKey now k f) = (fits c k \<and> c_clock c \<noteq> - 1)"
| "event_ok c (RemoveKey now k) = (fits c k \<and> c_clock c \<noteq> - 1)"
| "event_ok c (MergeLog now ops) = inj_on operation_id (set (c_log c) \<union> set ops)"
| "event_ok c (CollectGarbage now grace) = True"

fun events_ok :: "crdt_or_map \<Rightarrow> crdt_event list \<Rightarrow> bool" where
  "events_ok c [] = True"
| "events_ok c (e # es) = (event_ok c e \<and> events_ok (crdt_apply c e) es)"

text \<open>Encoded counters, and the order in which they win.\<close>

definition ec_wf :: "bytes \<Rightarrow> bool" where
  "ec_wf bs \<longleftrightarrow> length bs = EPOCH_MAX_WINS_ENCODED_LEN"

definition ec_key :: "epoch_count \<Rightarrow> u64 \<times> int" where
  "ec_key x = (ec_epoch x, sint (ec_count x))"

text \<open>
  The contract of a merge: a join semilattice on well-formed values, so that neither the order
  nor the repetition of deliveries matters.
\<close>

locale merge_semilattice =
  fixes wf :: "'a \<Rightarrow> bool" and join :: "'a \<Rightarrow> 'a \<Rightarrow> 'a"
  assumes closed: "wf a \<Longrightarrow> wf b \<Longrightarrow> wf (join a b)"
    and comm: "wf a \<Longrightarrow> wf b \<Longrightarrow> join a b = join b a"
    and assoc: "wf a \<Longrightarrow> wf b \<Longrightarrow> wf c \<Longrightarrow> join (join a b) c = join a (join b c)"
    and idem: "wf a \<Longrightarrow> join a a = a"
begin

lemma foldl_join_wf: "wf a \<Longrightarrow> list_all wf xs \<Longrightarrow> wf (foldl join a xs)"
  by (induction xs arbitrary: a) (simp_all add: closed)

lemma join_swap: "wf a \<Longrightarrow> wf b \<Longrightarrow> wf c \<Longrightarrow> join (join a b) c = join (join a c) b"
  by (metis assoc comm)

lemma foldl_join_fold:
  "wf a \<Longrightarrow> list_all wf xs \<Longrightarrow> foldl join a xs = fold (\<lambda>x z. if wf z then join z x else z) xs a"
  by (induction xs arbitrary: a) (simp_all add: closed)

text \<open>Every order of delivery gives the same value.\<close>

lemma foldl_join_mset:
  assumes "wf a" "list_all wf xs" "mset xs = mset ys"
  shows "foldl join a xs = foldl join a ys"
proof -
  have "list_all wf ys" using assms(2,3) by (metis list_all_iff mset_eq_setD)
  moreover have "fold (\<lambda>x z. if wf z then join z x else z) xs = fold (\<lambda>x z. if wf z then join z x else z) ys"
    using assms(2,3)
    by (intro fold_multiset_equiv) (auto simp: fun_eq_iff list_all_iff closed intro: join_swap)
  ultimately show ?thesis using assms(1,2) by (simp add: foldl_join_fold)
qed

text \<open>A value that was already merged changes nothing.\<close>

lemma foldl_join_again:
  assumes "wf a" "list_all wf xs" "x \<in> set xs"
  shows "join (foldl join a xs) x = foldl join a xs"
proof -
  have "mset (remove1 x xs @ [x]) = mset xs" using assms(3) by simp
  moreover have rest: "list_all wf (remove1 x xs)" "wf x"
    using assms(2,3) set_remove1_subset [of x xs] unfolding list_all_iff by blast+
  then have "list_all wf (remove1 x xs @ [x])" by simp
  ultimately have "foldl join a xs = join (foldl join a (remove1 x xs)) x"
    using foldl_join_mset [OF assms(1), of "remove1 x xs @ [x]" xs] by simp
  moreover have "wf (foldl join a (remove1 x xs))" by (rule foldl_join_wf [OF assms(1) rest(1)])
  ultimately show ?thesis using rest(2) by (simp add: assoc closed idem)
qed

end

section \<open>Lemmas\<close>

lemma newest_fold:
  assumes "\<And>k op. map_of acc k = Some op \<Longrightarrow> op_key op = k"
  shows "case map_of (foldl latest_step acc ops) k of
      None \<Rightarrow> map_of acc k = None \<and> (\<forall>op \<in> set ops. op_key op \<noteq> k)
    | Some op \<Rightarrow> op_key op = k \<and> (op \<in> set ops \<or> map_of acc k = Some op) \<and>
        (\<forall>op' \<in> set ops. op_key op' = k \<longrightarrow> op_version op' \<le> op_version op) \<and>
        (\<forall>op'. map_of acc k = Some op' \<longrightarrow> op_version op' \<le> op_version op)"
  using assms
proof (induction ops arbitrary: acc)
  case (Cons a ops)
  have acc': "\<And>k op. map_of (latest_step acc a) k = Some op \<Longrightarrow> op_key op = k"
    using Cons.prems by (auto simp: latest_step_def AList.update_conv' split: option.splits if_splits)
  have step: "map_of (latest_step acc a) k =
      (if k = op_key a \<and> (\<forall>op. map_of acc k = Some op \<longrightarrow> op_version op < op_version a) then Some a else map_of acc k)"
    by (auto simp: latest_step_def AList.update_conv' split: option.splits)
  show ?case
    using Cons.IH [of "latest_step acc a", OF acc']
    by (auto simp: step not_less split: option.splits if_splits intro: order.trans)
qed (auto split: option.splits)

lemma newest_None: "newest ops k = None \<longleftrightarrow> (\<forall>op \<in> set ops. op_key op \<noteq> k)"
  using newest_fold [where acc = "[]" and ops = ops and k = k]
  by (auto simp: newest_def latest_operations_by_key_def split: option.splits)

lemma newest_SomeD:
  "newest ops k = Some op \<Longrightarrow> op \<in> set ops \<and> op_key op = k \<and>
     (\<forall>op' \<in> set ops. op_key op' = k \<longrightarrow> op_version op' \<le> op_version op)"
  using newest_fold [where acc = "[]" and ops = ops and k = k]
  by (auto simp: newest_def latest_operations_by_key_def split: option.splits)

lemma version_id: "op_version a = op_version b \<longleftrightarrow> operation_id a = operation_id b"
  by (auto simp: op_version_def operation_id_def)

lemma newest_eqI:
  assumes "inj_on operation_id (set ops)" "op \<in> set ops" "op_key op = k"
    "\<And>op'. op' \<in> set ops \<Longrightarrow> op_key op' = k \<Longrightarrow> op_version op' \<le> op_version op"
  shows "newest ops k = Some op"
proof (cases "newest ops k")
  case None
  with assms show ?thesis by (auto simp: newest_None)
next
  case (Some op')
  with newest_SomeD [OF Some] assms have "op_version op' = op_version op" by (simp add: order_antisym)
  with assms newest_SomeD [OF Some] have "op' = op" by (simp add: version_id inj_on_def)
  with Some show ?thesis by simp
qed

lemma newest_cong:
  assumes "inj_on operation_id (set ops)" "set ops' = set ops"
  shows "newest ops' k = newest ops k"
proof (cases "newest ops k")
  case None
  then have "newest ops' k = None" unfolding newest_None assms(2) .
  with None show ?thesis by simp
next
  case (Some op)
  from newest_SomeD [OF Some] show ?thesis unfolding Some using assms by (intro newest_eqI) auto
qed

lemma latest_distinct: "distinct (map fst (latest_operations_by_key ops))"
proof -
  have "distinct (map fst acc) \<Longrightarrow> distinct (map fst (foldl latest_step acc ops))" for acc
    by (induction ops arbitrary: acc) (simp_all add: latest_step_def distinct_update split: option.splits)
  then show ?thesis by (simp add: latest_operations_by_key_def)
qed

lemma set_log_compact: "set (log_compact ops) = {op. newest ops (op_key op) = Some op}"
proof -
  have "op \<in> snd ` set (latest_operations_by_key ops) \<longleftrightarrow> newest ops (op_key op) = Some op" for op
  proof
    assume "op \<in> snd ` set (latest_operations_by_key ops)"
    then obtain k where "(k, op) \<in> set (latest_operations_by_key ops)" by force
    then have "newest ops k = Some op" using latest_distinct by (simp add: newest_def)
    with newest_SomeD [OF this] show "newest ops (op_key op) = Some op" by simp
  qed (force simp: newest_def dest: map_of_SomeD)
  then show ?thesis by (auto simp: log_compact_def)
qed

lemma log_compact_subset: "set (log_compact ops) \<subseteq> set ops"
  by (auto simp: set_log_compact dest: newest_SomeD)

lemma newest_log_compact:
  assumes "inj_on operation_id (set ops)"
  shows "newest (log_compact ops) k = newest ops k"
proof (cases "newest ops k")
  case None
  then have "newest (log_compact ops) k = None" using log_compact_subset [of ops] unfolding newest_None by blast
  with None show ?thesis by simp
next
  case (Some op)
  with newest_SomeD [OF Some] have "op \<in> set (log_compact ops)" "op_key op = k" by (auto simp: set_log_compact)
  moreover have "inj_on operation_id (set (log_compact ops))" by (rule inj_on_subset [OF assms log_compact_subset])
  ultimately show ?thesis
    unfolding Some using newest_SomeD [OF Some] log_compact_subset [of ops] by (intro newest_eqI) auto
qed

lemma log_compact_keys: "distinct (map op_key (log_compact ops))"
proof -
  have "op_key (snd p) = fst p" if "p \<in> set (latest_operations_by_key ops)" for p
  proof -
    have "newest ops (fst p) = Some (snd p)" using that latest_distinct by (simp add: newest_def)
    from newest_SomeD [OF this] show ?thesis by simp
  qed
  then have "map op_key (map snd (latest_operations_by_key ops)) = map fst (latest_operations_by_key ops)" by simp
  with latest_distinct [of ops] have "distinct (map op_key (map snd (latest_operations_by_key ops)))" by (simp only:)
  then have "mset (map op_key (log_compact ops)) = mset (map op_key (map snd (latest_operations_by_key ops)))"
    by (simp only: log_compact_def mset_map mset_sort)
  with \<open>distinct (map op_key (map snd (latest_operations_by_key ops)))\<close> show ?thesis by (metis mset_eq_imp_distinct_iff)
qed

lemma length_log_compact: "length (log_compact ops) = card (op_key ` set ops)"
proof -
  have "op_key ` set (log_compact ops) = op_key ` set ops"
  proof
    show "op_key ` set ops \<subseteq> op_key ` set (log_compact ops)"
    proof
      fix k assume "k \<in> op_key ` set ops"
      then have "newest ops k \<noteq> None" by (auto simp: newest_None)
      then obtain op where "newest ops k = Some op" by blast
      with newest_SomeD [OF this] show "k \<in> op_key ` set (log_compact ops)" by (force simp: set_log_compact)
    qed
  qed (use log_compact_subset in auto)
  then show ?thesis using distinct_card [OF log_compact_keys [of ops]] by simp
qed

lemma set_log_merge:
  assumes "inj_on operation_id (set ops \<union> set other)"
  shows "set (log_merge ops other) = set ops \<union> set other"
proof -
  have "set (log_merge_from seen ops other) = set ops \<union> set other"
    if "inj_on operation_id (set ops \<union> set other)" "set seen = operation_id ` set ops" for seen ops
    using that
  proof (induction other arbitrary: seen ops)
    case (Cons op other)
    show ?case
    proof (cases "operation_id op \<in> set seen")
      case True
      with Cons.prems have "op \<in> set ops" by (auto simp: inj_on_def)
      with True Cons show ?thesis by (simp add: insert_absorb)
    next
      case False
      with Cons show ?thesis by (simp add: insert_commute)
    qed
  qed simp
  with assms show ?thesis by (simp add: log_merge_def)
qed

subsection \<open>Operations on one key\<close>

lemma key_ok_older:
  assumes "key_ok c k oo" "case oo of None \<Rightarrow> True | Some op \<Rightarrow> op_version op < (ts, rid)"
  shows "map_of (c_metadata c) k = None \<or> (\<exists>m. map_of (c_metadata c) k = Some [m] \<and> version_key m < (ts, rid))"
  using assms by (auto simp: key_ok_def split: option.splits)

lemma version_key_new [simp]:
  "version_key \<lparr>vm_timestamp = ts, vm_replica_id = rid, vm_is_tombstone = b, vm_created_at = now\<rparr> = (ts, rid)"
  by (simp add: version_key_def)

lemma matches_version_key: "matches_version ts rid m \<longleftrightarrow> version_key m = (ts, rid)"
  by (auto simp: matches_version_def version_key_def)

lemma record_insert_newer:
  assumes "map_of (c_metadata c) k = None \<or> (\<exists>m. map_of (c_metadata c) k = Some [m] \<and> version_key m < (ts, rid))"
  shows "record_insert_metadata now k ts rid c =
    (True, set_metadata k [\<lparr>vm_timestamp = ts, vm_replica_id = rid, vm_is_tombstone = False, vm_created_at = now\<rparr>] c)"
  using assms
  by (auto simp: record_insert_metadata_def Let_def matches_version_key is_newer_than_def compact_key_metadata_def)

lemma record_remove_newer:
  assumes "map_of (c_metadata c) k = None \<or> (\<exists>m. map_of (c_metadata c) k = Some [m] \<and> version_key m < (ts, rid))"
  shows "record_remove_metadata now k ts rid c =
    (if map_of (c_metadata c) k = None \<and> \<not> kv_contains_key (c_store c) k then (False, c)
     else (True, set_metadata k [\<lparr>vm_timestamp = ts, vm_replica_id = rid, vm_is_tombstone = True, vm_created_at = now\<rparr>] c))"
  using assms
  by (auto simp: record_remove_metadata_def Let_def matches_version_key is_newer_than_def compact_key_metadata_def)

lemma key_ok_cong:
  assumes "kv_get (c_store c') k = kv_get (c_store c) k" "map_of (c_metadata c') k = map_of (c_metadata c) k"
  shows "key_ok c' k oo = key_ok c k oo"
  using assms by (simp add: key_ok_def)

lemma apply_operation_key:
  assumes "key_ok c (op_key op) oo" "case oo of None \<Rightarrow> True | Some op' \<Rightarrow> op_version op' < op_version op"
  shows "key_ok (apply_operation now op c) (op_key op) (Some op)"
proof (cases op)
  case (Insert k v ts rid)
  let ?c = "c\<lparr>c_clock := clock_update (c_clock c) ts\<rparr>"
  have v: "op_version op = (ts, rid)" by (simp add: Insert op_version_def)
  from key_ok_older [of c k oo ts rid, OF _ assms(2) [unfolded v]] assms(1) Insert have
    "map_of (c_metadata ?c) k = None \<or> (\<exists>m. map_of (c_metadata ?c) k = Some [m] \<and> version_key m < (ts, rid))"
    by simp
  from record_insert_newer [OF this] show ?thesis
    by (simp add: Insert apply_insert_def set_metadata_def key_ok_def kv_insert_def kv_get_def AList.update_conv'
        version_key_def op_version_def)
next
  case (Remove k ts rid)
  let ?c = "c\<lparr>c_clock := clock_update (c_clock c) ts\<rparr>"
  have v: "op_version op = (ts, rid)" by (simp add: Remove op_version_def)
  from key_ok_older [of c k oo ts rid, OF _ assms(2) [unfolded v]] assms(1) Remove have
    "map_of (c_metadata ?c) k = None \<or> (\<exists>m. map_of (c_metadata ?c) k = Some [m] \<and> version_key m < (ts, rid))"
    by simp
  from record_remove_newer [OF this] assms(1) Remove show ?thesis
    by (auto simp: apply_remove_def set_metadata_def key_ok_def kv_remove_def kv_get_def kv_contains_key_def
        AList.update_conv' AList.delete_conv' version_key_def op_version_def)
qed

lemma record_other:
  assumes "k' \<noteq> k"
  shows "map_of (c_metadata (snd (record_insert_metadata now k ts rid c))) k' = map_of (c_metadata c) k'"
    "map_of (c_metadata (snd (record_remove_metadata now k ts rid c))) k' = map_of (c_metadata c) k'"
  using assms
  by (auto simp: record_insert_metadata_def record_remove_metadata_def set_metadata_def Let_def AList.update_conv'
      split: option.splits)

lemma record_frame [simp]:
  "c_store (snd (record_insert_metadata now k ts rid c)) = c_store c"
  "c_log (snd (record_insert_metadata now k ts rid c)) = c_log c"
  "c_clock (snd (record_insert_metadata now k ts rid c)) = c_clock c"
  "c_replica_id (snd (record_insert_metadata now k ts rid c)) = c_replica_id c"
  "c_store (snd (record_remove_metadata now k ts rid c)) = c_store c"
  "c_log (snd (record_remove_metadata now k ts rid c)) = c_log c"
  "c_clock (snd (record_remove_metadata now k ts rid c)) = c_clock c"
  "c_replica_id (snd (record_remove_metadata now k ts rid c)) = c_replica_id c"
  by (simp_all add: record_insert_metadata_def record_remove_metadata_def set_metadata_def Let_def split: option.splits)

lemma apply_insert_frame:
  "c_log (apply_insert now k v ts rid c) = c_log c" (is ?log)
  "c_clock (apply_insert now k v ts rid c) = c_clock c" (is ?clock)
  "k' \<noteq> k \<Longrightarrow> key_ok (apply_insert now k v ts rid c) k' oo = key_ok c k' oo"
proof -
  obtain b d where d: "record_insert_metadata now k ts rid c = (b, d)" by force
  then have f: "c_store d = c_store c" "c_log d = c_log c" "c_clock d = c_clock c"
    using record_frame [of now k ts rid c] by simp_all
  show ?log ?clock by (cases b; simp add: apply_insert_def d f)+
  assume k: "k' \<noteq> k"
  then have "map_of (c_metadata d) k' = map_of (c_metadata c) k'" using record_other [OF k, of now ts rid c] d by simp
  with k show "key_ok (apply_insert now k v ts rid c) k' oo = key_ok c k' oo"
    by (intro key_ok_cong; cases b; simp add: apply_insert_def d f kv_insert_def kv_get_def AList.update_conv')
qed

lemma apply_remove_frame:
  "c_log (apply_remove now k ts rid c) = c_log c" (is ?log)
  "c_clock (apply_remove now k ts rid c) = c_clock c" (is ?clock)
  "k' \<noteq> k \<Longrightarrow> key_ok (apply_remove now k ts rid c) k' oo = key_ok c k' oo"
proof -
  obtain b d where d: "record_remove_metadata now k ts rid c = (b, d)" by force
  then have f: "c_store d = c_store c" "c_log d = c_log c" "c_clock d = c_clock c"
    using record_frame [of now k ts rid c] by simp_all
  show ?log ?clock by (cases b; simp add: apply_remove_def d f)+
  assume k: "k' \<noteq> k"
  then have "map_of (c_metadata d) k' = map_of (c_metadata c) k'" using record_other [OF k, of now ts rid c] d by simp
  with k show "key_ok (apply_remove now k ts rid c) k' oo = key_ok c k' oo"
    by (intro key_ok_cong; cases b; simp add: apply_remove_def d f kv_remove_def kv_get_def AList.delete_conv')
qed

lemma key_ok_clock [simp]: "key_ok (c\<lparr>c_clock := x\<rparr>) k oo = key_ok c k oo"
  by (rule key_ok_cong) simp_all

lemma apply_operation_frame:
  "c_log (apply_operation now op c) = c_log c"
  "c_clock (apply_operation now op c) = clock_update (c_clock c) (op_timestamp op)"
  "k \<noteq> op_key op \<Longrightarrow> key_ok (apply_operation now op c) k oo = key_ok c k oo"
proof -
  show "c_log (apply_operation now op c) = c_log c" by (cases op) (simp_all add: apply_insert_frame apply_remove_frame)
  show "c_clock (apply_operation now op c) = clock_update (c_clock c) (op_timestamp op)"
    by (cases op) (simp_all add: apply_insert_frame apply_remove_frame)
  assume "k \<noteq> op_key op"
  then show "key_ok (apply_operation now op c) k oo = key_ok c k oo"
    by (cases op) (simp_all add: apply_insert_frame(3) apply_remove_frame(3))
qed

lemma clock_update_ge: "c \<le> clock_update c ts" "ts \<le> clock_update c ts"
proof -
  have "unat c < 2 ^ 64" "unat ts < 2 ^ 64" using unsigned_less [of c] unsigned_less [of ts] by simp_all
  then show "c \<le> clock_update c ts" "ts \<le> clock_update c ts"
    by (auto simp: clock_update_def word_le_nat_alt unat_saturating_add max_def)
qed

lemma apply_operations_fold:
  assumes "distinct (map op_key us)"
    and "\<And>op. op \<in> set us \<Longrightarrow> case f (op_key op) of None \<Rightarrow> True | Some op' \<Rightarrow> op_version op' < op_version op"
    and "\<And>k. key_ok c k (f k)"
  shows "c_log (fold (apply_operation now) us c) = c_log c \<and> c_clock c \<le> c_clock (fold (apply_operation now) us c) \<and>
    (\<forall>op \<in> set us. op_timestamp op \<le> c_clock (fold (apply_operation now) us c)) \<and>
    (\<forall>op \<in> set us. key_ok (fold (apply_operation now) us c) (op_key op) (Some op)) \<and>
    (\<forall>k. k \<notin> op_key ` set us \<longrightarrow> key_ok (fold (apply_operation now) us c) k (f k))"
  using assms
proof (induction us arbitrary: c f)
  case (Cons op us)
  let ?c = "apply_operation now op c" and ?f = "f(op_key op := Some op)"
  have "key_ok ?c k (?f k)" for k
    using apply_operation_key [of c op "f (op_key op)" now] apply_operation_frame(3) [of k op now c "f k"] Cons.prems(2,3) by auto
  moreover have "case ?f (op_key op') of None \<Rightarrow> True | Some x \<Rightarrow> op_version x < op_version op'" if "op' \<in> set us" for op'
    using Cons.prems(1,2) that by (auto simp: image_iff)
  ultimately have IH: "c_log (fold (apply_operation now) us ?c) = c_log ?c \<and> c_clock ?c \<le> c_clock (fold (apply_operation now) us ?c) \<and>
    (\<forall>op \<in> set us. op_timestamp op \<le> c_clock (fold (apply_operation now) us ?c)) \<and>
    (\<forall>op \<in> set us. key_ok (fold (apply_operation now) us ?c) (op_key op) (Some op)) \<and>
    (\<forall>k. k \<notin> op_key ` set us \<longrightarrow> key_ok (fold (apply_operation now) us ?c) k (?f k))"
    using Cons.prems(1) by (intro Cons.IH) auto
  have "op_key op \<notin> op_key ` set us" using Cons.prems(1) by auto
  with IH clock_update_ge(1) [of "c_clock c" "op_timestamp op"] clock_update_ge(2) [of "op_timestamp op" "c_clock c"] show ?case
    by (auto simp: apply_operation_frame(1,2) intro: order.trans)
qed auto

lemma crdt_merge_inv:
  assumes "crdt_inv c" "inj_on operation_id (set (c_log c) \<union> set ops)"
  shows "crdt_inv (crdt_merge now ops c) \<and> (\<forall>k. newest (c_log (crdt_merge now ops c)) k = newest (c_log c @ ops) k)"
proof -
  let ?all = "log_merge (c_log c) ops"
  let ?merged = "log_compact ?all"
  let ?unseen = "sort_key op_version (filter (\<lambda>op. operation_id op \<notin> set (map operation_id (c_log c))) ?merged)"
  let ?c = "fold (apply_operation now) ?unseen (c\<lparr>c_log := ?merged\<rparr>)"
  have all: "set ?all = set (c_log c) \<union> set ops" by (rule set_log_merge [OF assms(2)])
  with assms(2) have inj: "inj_on operation_id (set ?all)" by simp
  have new: "newest ?merged k = newest ?all k" for k by (rule newest_log_compact [OF inj])
  have sub: "set ?merged \<subseteq> set (c_log c) \<union> set ops" using log_compact_subset [of ?all] all by simp
  have un: "op \<in> set ?unseen \<longleftrightarrow> op \<in> set ?merged \<and> op \<notin> set (c_log c)" for op
    using assms(2) sub by (auto simp: inj_on_def)
  have "mset (map op_key ?unseen) =
      mset (map op_key (filter (\<lambda>op. operation_id op \<notin> set (map operation_id (c_log c))) ?merged))"
    by (simp only: mset_map mset_sort)
  moreover have "distinct (map op_key (filter (\<lambda>op. operation_id op \<notin> set (map operation_id (c_log c))) ?merged))"
    by (rule distinct_map_filter [OF log_compact_keys])
  ultimately have dist: "distinct (map op_key ?unseen)" by (metis mset_eq_imp_distinct_iff)
  have older: "case newest (c_log c) (op_key op) of None \<Rightarrow> True | Some op' \<Rightarrow> op_version op' < op_version op"
    if "op \<in> set ?unseen" for op
  proof (cases "newest (c_log c) (op_key op)")
    case (Some op')
    from that un have op: "newest ?all (op_key op) = Some op" "op \<notin> set (c_log c)" by (auto simp: set_log_compact)
    have "op_version op' \<le> op_version op" "op' \<in> set ?all" "op \<in> set ?all"
      using newest_SomeD [OF Some] newest_SomeD [OF op(1)] all by auto
    moreover have "op_version op' \<noteq> op_version op"
      using inj calculation(2,3) newest_SomeD [OF Some] op(2) by (auto simp: version_id inj_on_def)
    ultimately show ?thesis by (simp add: Some)
  qed simp
  have keys: "key_ok (c\<lparr>c_log := ?merged\<rparr>) k (newest (c_log c) k)" for k
    using assms(1) by (simp add: crdt_inv_def key_ok_def)
  note fold = apply_operations_fold [OF dist, of "newest (c_log c)" "c\<lparr>c_log := ?merged\<rparr>" now, OF older keys]
  have log: "c_log ?c = ?merged" using fold by simp
  have "key_ok ?c k (newest ?merged k)" for k
  proof (cases "k \<in> op_key ` set ?unseen")
    case True
    then obtain op where op: "op \<in> set ?unseen" "op_key op = k" by blast
    then have "newest ?merged k = Some op" using un [of op] new by (auto simp: set_log_compact)
    with fold op show ?thesis by auto
  next
    case False
    have "newest ?merged k = newest (c_log c) k"
    proof (cases "newest ?merged k")
      case None
      then have "newest ?all k = None" by (simp only: new)
      then have "newest (c_log c) k = None" unfolding newest_None all by blast
      with None show ?thesis by simp
    next
      case (Some op)
      with newest_SomeD [OF Some] False un [of op] have "op \<in> set (c_log c)" "op_key op = k" by auto
      moreover have "op_version op' \<le> op_version op" if "op' \<in> set (c_log c)" "op_key op' = k" for op'
        using newest_SomeD [OF Some [unfolded new]] that all by auto
      ultimately have "newest (c_log c) k = Some op"
        using assms(1) by (intro newest_eqI) (auto simp: crdt_inv_def)
      with Some show ?thesis by simp
    qed
    with fold False show ?thesis by simp
  qed
  moreover have "op_timestamp op \<le> c_clock ?c" if "op \<in> set ?merged" for op
    using fold un [of op] that assms(1) by (auto simp: crdt_inv_def intro: order.trans)
  moreover have "inj_on operation_id (set ?merged)" by (rule inj_on_subset [OF inj log_compact_subset])
  ultimately have "crdt_inv ?c" unfolding crdt_inv_def log by blast
  moreover have "newest ?merged k = newest (c_log c @ ops) k" for k
    unfolding new by (rule newest_cong [symmetric, OF inj]) (simp add: all)
  moreover have "crdt_merge now ops c = ?c" by (simp only: crdt_merge_def Let_def)
  ultimately show ?thesis by (simp only: log simp_thms)
qed

subsection \<open>Local operations\<close>

lemma version_less: "op_timestamp a < op_timestamp b \<Longrightarrow> op_version a < op_version b"
  by (simp add: op_version_def)

lemma newest_append:
  assumes "inj_on operation_id (set ops)" "\<forall>op' \<in> set ops. op_timestamp op' < op_timestamp op"
  shows "inj_on operation_id (set (ops @ [op])) \<and> newest (ops @ [op]) k = (if k = op_key op then Some op else newest ops k)"
proof -
  have inj: "inj_on operation_id (set (ops @ [op]))"
  proof -
    have "operation_id op \<notin> operation_id ` set ops" using assms(2) by (force simp: operation_id_def)
    with assms(1) show ?thesis by (auto simp: inj_on_insert)
  qed
  have "newest (ops @ [op]) (op_key op) = Some op"
  proof (rule newest_eqI [OF inj])
    show "op_version op' \<le> op_version op" if "op' \<in> set (ops @ [op])" for op'
      using that assms(2) version_less [of op' op] by (auto intro: less_imp_le)
  qed simp_all
  moreover have "newest (ops @ [op]) k = newest ops k" if "k \<noteq> op_key op"
  proof (cases "newest ops k")
    case None
    then have "newest (ops @ [op]) k = None" using that unfolding newest_None by auto
    with None show ?thesis by simp
  next
    case (Some op')
    from newest_SomeD [OF Some] that show ?thesis unfolding Some using inj by (intro newest_eqI) auto
  qed
  ultimately show ?thesis using inj by auto
qed

lemma log_append_spec:
  assumes "inj_on operation_id (set ops)" "\<forall>op' \<in> set ops. op_timestamp op' < op_timestamp op"
    and "card (insert (op_key op) (op_key ` set ops)) \<le> AUTO_COMPACT_THRESHOLD"
  shows "set (log_append op ops) \<subseteq> set (ops @ [op]) \<and>
    newest (log_append op ops) k = (if k = op_key op then Some op else newest ops k)"
proof -
  have inj: "inj_on operation_id (set (ops @ [op]))" using newest_append [OF assms(1,2)] by blast
  have "\<not> length (log_compact (ops @ [op])) > AUTO_COMPACT_THRESHOLD"
    using assms(3) by (simp add: length_log_compact)
  then have "log_append op ops \<in> {ops @ [op], log_compact (ops @ [op])}" by (simp add: log_append_def Let_def)
  then show ?thesis
    using newest_append [OF assms(1,2), of k] newest_log_compact [OF inj, of k] log_compact_subset [of "ops @ [op]"] by auto
qed

lemma append_inv:
  assumes "crdt_inv c" "fits c (op_key op)" "\<forall>op' \<in> set (c_log c). op_timestamp op' < op_timestamp op"
    and "\<And>k. k \<noteq> op_key op \<Longrightarrow> key_ok d k (newest (c_log c) k)" "key_ok d (op_key op) (Some op)"
    and "c_log d = log_append op (c_log c)" "op_timestamp op \<le> c_clock d"
  shows "crdt_inv d"
proof -
  have inj: "inj_on operation_id (set (c_log c))" using assms(1) by (simp add: crdt_inv_def)
  note log = log_append_spec [OF inj assms(3) assms(2) [unfolded fits_def]]
  have inj': "inj_on operation_id (set (c_log d))"
    unfolding assms(6) by (rule inj_on_subset [OF conjunct1 [OF newest_append [OF inj assms(3)]] conjunct1 [OF log]])
  have "key_ok d k (newest (c_log d) k)" for k using log [of k] assms(4) [of k] assms(5) by (simp add: assms(6))
  moreover have "op_timestamp op' \<le> c_clock d" if "op' \<in> set (c_log d)" for op'
  proof -
    have "op' = op \<or> op_timestamp op' < op_timestamp op" using that conjunct1 [OF log] assms(3) unfolding assms(6) by auto
    with assms(7) show ?thesis by (auto dest: less_le_trans)
  qed
  ultimately show ?thesis using inj' by (simp add: crdt_inv_def)
qed

lemma tick_newer:
  assumes "crdt_inv c" "c_clock c \<noteq> - 1"
  shows "c_clock c < clock_tick (c_clock c)" "\<forall>op \<in> set (c_log c). op_timestamp op < clock_tick (c_clock c)"
proof -
  have "unat (c_clock c + 1) = Suc (unat (c_clock c))" by (rule unat_Suc_not_max [OF assms(2)])
  moreover have "unat (c_clock c + 1) < 2 ^ 64" using unsigned_less [of "c_clock c + 1"] by simp
  ultimately have "unat (clock_tick (c_clock c)) = Suc (unat (c_clock c))"
    by (simp add: clock_tick_def unat_saturating_add)
  then show lt: "c_clock c < clock_tick (c_clock c)" by (simp add: word_less_nat_alt)
  show "\<forall>op \<in> set (c_log c). op_timestamp op < clock_tick (c_clock c)"
    using assms(1) lt by (auto simp: crdt_inv_def intro: le_less_trans)
qed

lemma newest_older:
  assumes "\<forall>op \<in> set ops. op_timestamp op < ts"
  shows "case newest ops k of None \<Rightarrow> True | Some op \<Rightarrow> op_version op < (ts, rid)"
proof (cases "newest ops k")
  case (Some op)
  with assms newest_SomeD [OF Some] have "op_timestamp op < ts" by blast
  then show ?thesis by (simp add: Some op_version_def)
qed simp

lemma crdt_insert_inv:
  assumes "crdt_inv c" "fits c k" "c_clock c \<noteq> - 1"
  shows "crdt_inv (snd (write_value now k v c)) \<and> fst (write_value now k v c) = (v, True) \<and>
    kv_get (c_store (snd (write_value now k v c))) k = Some v \<and>
    snd (crdt_insert now k v c) = snd (write_value now k v c) \<and> fst (crdt_insert now k v c) = crdt_get c k"
proof -
  let ?ts = "clock_tick (c_clock c)" and ?rid = "c_replica_id c"
  let ?op = "Insert k v ?ts ?rid" and ?c = "c\<lparr>c_clock := clock_tick (c_clock c)\<rparr>"
  let ?m = "\<lparr>vm_timestamp = ?ts, vm_replica_id = ?rid, vm_is_tombstone = False, vm_created_at = now\<rparr>"
  have keys: "key_ok c k (newest (c_log c) k)" for k using assms(1) by (simp add: crdt_inv_def)
  note newer = tick_newer [OF assms(1,3)]
  from key_ok_older [OF keys newest_older [OF newer(2)]]
  have rec: "record_insert_metadata now k ?ts ?rid ?c = (True, set_metadata k [?m] ?c)"
    by (intro record_insert_newer) simp
  let ?d = "append_operation ?op (set_metadata k [?m] ?c\<lparr>c_store := snd (kv_insert k v (c_store c))\<rparr>)"
  have w: "write_value now k v c = ((v, True), ?d)"
    by (simp add: write_value_def tick_def rec set_metadata_def)
  have i: "crdt_insert now k v c = (crdt_get c k, ?d)"
    by (simp add: crdt_insert_def tick_def rec set_metadata_def crdt_get_def kv_insert_def kv_upsert_def)
  have "key_ok ?d k' (newest (c_log c) k')" if "k' \<noteq> k" for k'
    using keys [of k'] that
    by (simp add: key_ok_def append_operation_def set_metadata_def kv_insert_def kv_get_def AList.update_conv')
  moreover have get: "kv_get (c_store ?d) k = Some v"
    by (simp add: append_operation_def set_metadata_def kv_insert_def kv_get_def AList.update_conv')
  then have "key_ok ?d k (Some ?op)"
    by (simp add: key_ok_def append_operation_def set_metadata_def AList.update_conv' op_version_def)
  ultimately have "crdt_inv ?d"
    using assms(1,2) newer by (intro append_inv [of c ?op ?d]) (simp_all add: append_operation_def set_metadata_def)
  with get w i show ?thesis by simp
qed

lemma crdt_remove_inv:
  assumes "crdt_inv c" "fits c k" "c_clock c \<noteq> - 1"
  shows "crdt_inv (snd (crdt_remove now k c)) \<and> fst (crdt_remove now k c) = crdt_get c k \<and>
    kv_get (c_store (snd (crdt_remove now k c))) k = None"
proof -
  let ?ts = "clock_tick (c_clock c)" and ?rid = "c_replica_id c"
  let ?op = "Remove k ?ts ?rid" and ?c = "c\<lparr>c_clock := clock_tick (c_clock c)\<rparr>"
  let ?m = "\<lparr>vm_timestamp = ?ts, vm_replica_id = ?rid, vm_is_tombstone = True, vm_created_at = now\<rparr>"
  have keys: "key_ok c k (newest (c_log c) k)" for k using assms(1) by (simp add: crdt_inv_def)
  note newer = tick_newer [OF assms(1,3)]
  from key_ok_older [OF keys newest_older [OF newer(2)]]
  have rec: "record_remove_metadata now k ?ts ?rid ?c =
      (if map_of (c_metadata c) k = None \<and> \<not> kv_contains_key (c_store c) k then (False, ?c) else (True, set_metadata k [?m] ?c))"
    using record_remove_newer [of ?c k ?ts ?rid now] by simp
  show ?thesis
  proof (cases "map_of (c_metadata c) k = None \<and> \<not> kv_contains_key (c_store c) k")
    case True
    then have "crdt_remove now k c = (None, ?c)" by (simp add: crdt_remove_def tick_def rec)
    moreover have "crdt_inv ?c" using assms(1) newer(1) by (auto simp: crdt_inv_def intro: order.trans less_imp_le)
    ultimately show ?thesis using True by (simp add: kv_contains_key_def kv_get_def crdt_get_def)
  next
    case False
    let ?d = "append_operation ?op (set_metadata k [?m] ?c)\<lparr>c_store := snd (kv_remove k (c_store c))\<rparr>"
    have rec2: "record_remove_metadata now k ?ts ?rid ?c = (True, set_metadata k [?m] ?c)"
      unfolding rec using False by (simp only: if_False)
    have r: "crdt_remove now k c = (crdt_get c k, ?d)"
      by (simp add: crdt_remove_def tick_def rec2 set_metadata_def append_operation_def kv_remove_def crdt_get_def kv_get_def)
    have "key_ok ?d k' (newest (c_log c) k')" if "k' \<noteq> k" for k'
      using keys [of k'] that
      by (simp add: key_ok_def append_operation_def set_metadata_def kv_remove_def kv_get_def AList.update_conv' AList.delete_conv')
    moreover have get: "kv_get (c_store ?d) k = None"
      by (simp add: append_operation_def set_metadata_def kv_remove_def kv_get_def AList.delete_conv')
    then have "key_ok ?d k (Some ?op)"
      by (simp add: key_ok_def append_operation_def set_metadata_def AList.update_conv' op_version_def)
    ultimately have "crdt_inv ?d"
      using assms(1,2) newer by (intro append_inv [of c ?op ?d]) (simp_all add: append_operation_def set_metadata_def)
    with get r show ?thesis by simp
  qed
qed

lemma gc_delete_key_ok:
  assumes "key_ok c k' oo" "map_of (c_metadata c) k = Some vs"
    "case max_by_key version_key vs of None \<Rightarrow> True | Some winner \<Rightarrow> vm_is_tombstone winner \<and> P winner"
  shows "key_ok (c\<lparr>c_metadata := AList.delete k (c_metadata c)\<rparr>) k' oo"
proof (cases "k' = k")
  case True
  with assms have "op_effect oo = None" by (auto simp: key_ok_def)
  with assms(1) True show ?thesis by (simp add: key_ok_def AList.delete_conv')
next
  case False
  then show ?thesis using assms(1) key_ok_cong [of "c\<lparr>c_metadata := AList.delete k (c_metadata c)\<rparr>" k' c]
    by (simp add: AList.delete_conv')
qed

lemma gc_key_inv:
  assumes "crdt_inv c"
  shows "crdt_inv (snd (gc_key now grace (n, c) k))"
proof (cases "map_of (c_metadata c) k")
  case (Some vs)
  show ?thesis
  proof (cases "case max_by_key version_key vs of None \<Rightarrow> True
      | Some winner \<Rightarrow> vm_is_tombstone winner \<and> now - vm_created_at winner \<ge> grace")
    case True
    from gc_delete_key_ok [OF _ Some True] assms have "crdt_inv (c\<lparr>c_metadata := AList.delete k (c_metadata c)\<rparr>)"
      by (simp add: crdt_inv_def)
    with assms show ?thesis by (simp add: gc_key_def Some)
  qed (simp add: gc_key_def Some assms)
qed (simp add: gc_key_def assms)

lemma gc_inv: "crdt_inv c \<Longrightarrow> crdt_inv (snd (gc_tombstones_with_grace now grace c))"
proof -
  have "crdt_inv c \<Longrightarrow> crdt_inv (snd (foldl (gc_key now grace) (n, c) ks))" for n ks
  proof (induction ks arbitrary: n c)
    case (Cons k ks)
    obtain n' c' where g: "gc_key now grace (n, c) k = (n', c')" by force
    from gc_key_inv [OF Cons.prems, of now grace n k] have "crdt_inv c'" by (simp add: g)
    from Cons.IH [OF this] show ?case by (simp add: g)
  qed simp
  then show "crdt_inv c \<Longrightarrow> crdt_inv (snd (gc_tombstones_with_grace now grace c))" by (simp add: gc_tombstones_with_grace_def)
qed

lemma crdt_apply_inv: "event_ok c e \<Longrightarrow> crdt_inv c \<Longrightarrow> crdt_inv (crdt_apply c e)"
proof (cases e)
  case (UpsertKey now k f)
  assume "event_ok c e" "crdt_inv c"
  with UpsertKey crdt_insert_inv [of c k now "f (kv_get (c_store c) k)"] show ?thesis
    by (cases "write_value now k (f (kv_get (c_store c) k)) c") (simp add: crdt_upsert_def)
qed (simp_all add: crdt_insert_inv crdt_remove_inv gc_inv crdt_merge_inv)

lemma with_replica_id_inv: "crdt_inv (with_replica_id rid)"
  by (simp add: crdt_inv_def with_replica_id_def key_ok_def newest_def latest_operations_by_key_def kv_get_def new_kv_store_def)

lemma crdt_run_inv:
  assumes "events_ok (with_replica_id rid) es"
  shows "crdt_inv (crdt_run rid es)"
proof -
  have "events_ok c es \<Longrightarrow> crdt_inv c \<Longrightarrow> crdt_inv (foldl crdt_apply c es)" for c
    by (induction es arbitrary: c) (simp_all add: crdt_apply_inv)
  with assms show ?thesis by (simp add: crdt_run_def with_replica_id_inv)
qed

subsection \<open>Counters\<close>

lemma foldl_be_digits: "foldl (\<lambda>a b. a * 256 + b) 0 (be_digits n x) = x mod 256 ^ n"
proof (induction n arbitrary: x)
  case (Suc n)
  have "x mod 256 ^ Suc n = 256 * (x div 256 mod 256 ^ n) + x mod 256"
    by (simp add: mod_mult2_eq mult.commute)
  with Suc show ?case by (simp add: mult.commute)
qed simp

lemma be_digits_small: "d \<in> set (be_digits n x) \<Longrightarrow> d < 256"
  by (induction n arbitrary: x) auto

lemma length_be_digits [simp]: "length (be_digits n x) = n"
  by (induction n arbitrary: x) auto

lemma from_to_be_bytes [simp]: "from_be_bytes (to_be_bytes w) = w"
proof -
  have "foldl (\<lambda>a b. a * 256 + unat b) 0 (map (of_nat :: nat \<Rightarrow> u8) ds) = foldl (\<lambda>a b. a * 256 + b) 0 ds"
    if "\<forall>d \<in> set ds. d < 256" for ds
    using that by (induction ds rule: rev_induct) (simp_all add: unsigned_of_nat take_bit_nat_eq_self)
  from this [of "be_digits 8 (unat w)"] be_digits_small [of _ 8 "unat w"]
  have "foldl (\<lambda>a b. a * 256 + unat b) 0 (to_be_bytes w) = unat w mod 256 ^ 8"
    by (simp add: to_be_bytes_def foldl_be_digits)
  also have "\<dots> = unat w"
  proof -
    have "unat w < 2 ^ 64" using unsigned_less [of w] by simp
    then show ?thesis by simp
  qed
  finally show ?thesis by (simp add: from_be_bytes_def)
qed

lemma length_to_be_bytes [simp]: "length (to_be_bytes w) = 8"
  by (simp add: to_be_bytes_def)

lemma ec_decode_encode: "ec_decode (ec_encode e n) = Some \<lparr>ec_epoch = e, ec_count = n\<rparr>"
  by (simp add: ec_decode_def ec_encode_def EPOCH_MAX_WINS_ENCODED_LEN_def)

lemma be_digits_foldl:
  "\<forall>d \<in> set ds. d < 256 \<Longrightarrow> be_digits (length ds) (foldl (\<lambda>a b. a * 256 + b) 0 ds) = ds \<and>
     foldl (\<lambda>a b. a * 256 + b) 0 ds < 256 ^ length ds"
  by (induction ds rule: rev_induct) auto

lemma to_from_be_bytes:
  assumes "length bs = 8"
  shows "to_be_bytes (from_be_bytes bs) = bs"
proof -
  have small: "unat b < 256" for b :: u8 using unsigned_less [of b] by simp
  have f: "foldl (\<lambda>a b. a * 256 + unat b) 0 bs = foldl (\<lambda>a b. a * 256 + b) 0 (map unat bs)"
    by (induction bs rule: rev_induct) simp_all
  have "be_digits 8 (foldl (\<lambda>a b. a * 256 + b) 0 (map unat bs)) = map unat bs"
    "foldl (\<lambda>a b. a * 256 + b) 0 (map unat bs) < 2 ^ 64"
    using be_digits_foldl [of "map unat bs"] small assms by auto
  then show ?thesis
    by (simp add: to_be_bytes_def from_be_bytes_def f unsigned_of_nat take_bit_nat_eq_self comp_def)
qed

lemma ec_key_inj: "ec_key x = ec_key y \<Longrightarrow> x = y"
  by (cases x; cases y) (auto simp: ec_key_def intro: signed_word_eqI)

lemma ec_wf_encode: "ec_wf bs \<longleftrightarrow> (\<exists>x :: epoch_count. bs = ec_encode (ec_epoch x) (ec_count x))"
proof
  assume "ec_wf bs"
  then have eq: "bs = ec_encode (from_be_bytes (take 8 bs)) (from_be_bytes (drop 8 bs))"
    by (simp add: ec_wf_def EPOCH_MAX_WINS_ENCODED_LEN_def ec_encode_def to_from_be_bytes)
  show "\<exists>x :: epoch_count. bs = ec_encode (ec_epoch x) (ec_count x)"
    by (rule exI [of _ "\<lparr>ec_epoch = from_be_bytes (take 8 bs), ec_count = from_be_bytes (drop 8 bs)\<rparr>"])
      (simp add: eq [symmetric])
qed (auto simp: ec_wf_def ec_encode_def EPOCH_MAX_WINS_ENCODED_LEN_def)

lemma ec_merge_encode:
  "ec_merge (ec_encode (ec_epoch x) (ec_count x)) (ec_encode (ec_epoch y) (ec_count y)) =
     (let w = (if ec_key x \<le> ec_key y then y else x) in ec_encode (ec_epoch w) (ec_count w))"
  for x y :: epoch_count
  by (auto simp: ec_merge_def ec_decode_encode Let_def ec_key_def i64_max_def)

interpretation counters: merge_semilattice ec_wf ec_merge
proof
  fix a b c :: bytes
  assume "ec_wf a" then obtain x :: epoch_count where a: "a = ec_encode (ec_epoch x) (ec_count x)" by (auto simp: ec_wf_encode)
  show "ec_merge a a = a" by (simp add: a ec_merge_encode)
  assume "ec_wf b" then obtain y :: epoch_count where b: "b = ec_encode (ec_epoch y) (ec_count y)" by (auto simp: ec_wf_encode)
  show "ec_wf (ec_merge a b)" unfolding a b ec_merge_encode Let_def ec_wf_encode by blast
  have "x = y \<or> ec_key x < ec_key y \<or> ec_key y < ec_key x" using ec_key_inj [of x y] by (meson linorder_neqE)
  then show "ec_merge a b = ec_merge b a"
    unfolding a b ec_merge_encode Let_def by (elim disjE) (auto simp: less_imp_le dest: leD)
  assume "ec_wf c" then obtain z :: epoch_count where c: "c = ec_encode (ec_epoch z) (ec_count z)" by (auto simp: ec_wf_encode)
  show "ec_merge (ec_merge a b) c = ec_merge a (ec_merge b c)"
    unfolding a b c ec_merge_encode Let_def by (auto simp: not_le)
qed

section \<open>Properties\<close>

text \<open>
  C6: replicas converge. Take two replicas after any sequences of local writes, upserts, removals,
  merges and garbage collections in which no write takes the log over its limit of 10,000 distinct keys,
  no writing replica has exhausted its 64-bit clock, and operation ids are unique in what is merged. When
  each has merged the log of the other, they agree on every key, and the value is that of the newest
  operation on the key in both logs together, by timestamp and then replica id.
\<close>

theorem mesh_replicas_converge:
  assumes "events_ok (with_replica_id ra) es" and "events_ok (with_replica_id rb) fs"
    and "a = crdt_run ra es" and "b = crdt_run rb fs"
    and "inj_on operation_id (set (c_log a) \<union> set (c_log b))"
  shows "crdt_get (crdt_merge now (c_log b) a) k = crdt_get (crdt_merge now' (c_log a) b) k \<and>
    crdt_get (crdt_merge now (c_log b) a) k = op_effect (newest (c_log a @ c_log b) k)"
proof -
  have inv: "crdt_inv a" "crdt_inv b" unfolding assms(3,4) by (fact crdt_run_inv [OF assms(1)] crdt_run_inv [OF assms(2)])+
  have inj: "inj_on operation_id (set (c_log b) \<union> set (c_log a))" using assms(5) by (simp add: Un_commute)
  have val: "crdt_get c k = op_effect (newest (c_log c) k)" if "crdt_inv c" for c
    using that by (simp add: crdt_inv_def key_ok_def crdt_get_def)
  note ma = crdt_merge_inv [OF inv(1) assms(5), of now] and mb = crdt_merge_inv [OF inv(2) inj, of now']
  have "newest (c_log b @ c_log a) k = newest (c_log a @ c_log b) k"
    using assms(5) by (intro newest_cong) auto
  with ma mb val [of "crdt_merge now (c_log b) a"] val [of "crdt_merge now' (c_log a) b"] show ?thesis by simp
qed

lemma fits_new: "fits (with_replica_id rid) k"
  by (simp add: fits_def with_replica_id_def AUTO_COMPACT_THRESHOLD_def)

lemma clock_new: "c_clock (with_replica_id rid) \<noteq> - 1"
  by (simp add: with_replica_id_def)

theorem mesh_replicas_converge_witness:
  "crdt_get (crdt_merge 0 [Insert ''k'' [7] 1 1] (with_replica_id 2)) ''k'' = Some [7]"
proof -
  let ?a = "crdt_run 1 [InsertKey 0 ''k'' [7]]"
  have ok: "events_ok (with_replica_id 1) [InsertKey 0 ''k'' [7]]" "events_ok (with_replica_id 2) []"
    by (simp_all add: fits_new clock_new)
  have "clock_tick 0 = 1" by (simp add: clock_tick_def saturating_add_def)
  then have log: "c_log ?a = [Insert ''k'' [7] 1 1]"
    by (simp add: crdt_run_def crdt_insert_def tick_def with_replica_id_def record_insert_metadata_def set_metadata_def
        append_operation_def log_append_def AUTO_COMPACT_THRESHOLD_def)
  have b: "crdt_run 2 [] = with_replica_id 2" "c_log (with_replica_id 2) = []"
    by (simp_all add: crdt_run_def with_replica_id_def)
  have "newest [Insert ''k'' [7] 1 1] ''k'' = Some (Insert ''k'' [7] 1 1)"
    by (simp add: newest_def latest_operations_by_key_def latest_step_def)
  with mesh_replicas_converge [OF ok(2,1) refl refl, of 0 "''k''"] show ?thesis by (simp add: log b)
qed

text \<open>
  a replica reads its own writes. After \<open>insert\<close> or an upsert the key has the new value, after
  \<open>remove\<close> it has none, and both return the previous value: a local operation is never older than
  what the replica has seen.
\<close>

theorem crdt_reads_own_writes:
  assumes "events_ok (with_replica_id rid) es" and "c = crdt_run rid es" and "fits c k" and "c_clock c \<noteq> - 1"
  shows "fst (crdt_insert now k v c) = crdt_get c k \<and> crdt_get (snd (crdt_insert now k v c)) k = Some v \<and>
    fst (crdt_upsert now k f c) = f (crdt_get c k) \<and> crdt_get (snd (crdt_upsert now k f c)) k = Some (f (crdt_get c k)) \<and>
    fst (crdt_remove now k c) = crdt_get c k \<and> crdt_get (snd (crdt_remove now k c)) k = None"
proof -
  have inv: "crdt_inv c" unfolding assms(2) by (rule crdt_run_inv [OF assms(1)])
  note i = crdt_insert_inv [OF inv assms(3,4)] and r = crdt_remove_inv [OF inv assms(3,4), of now]
  have "fst (crdt_upsert now k f c) = f (crdt_get c k) \<and>
      crdt_get (snd (crdt_upsert now k f c)) k = Some (f (crdt_get c k))"
    using i [of now "f (kv_get (c_store c) k)"]
    by (cases "write_value now k (f (kv_get (c_store c) k)) c") (auto simp: crdt_upsert_def crdt_get_def)
  with i [of now v] r show ?thesis by (simp add: crdt_get_def)
qed

theorem crdt_reads_own_writes_witness:
  "crdt_get (snd (crdt_insert 0 ''k'' [7] (with_replica_id 1))) ''k'' = Some [7]"
proof -
  have "events_ok (with_replica_id 1) []" "with_replica_id 1 = crdt_run 1 []" by (simp_all add: crdt_run_def)
  from crdt_reads_own_writes [OF this fits_new clock_new, where now = 0 and v = "[7]"] show ?thesis by blast
qed

text \<open>the wire format of rate-limit counters round-trips in both directions.\<close>

theorem counter_encoding_roundtrip:
  assumes "length bs = 16"
  shows "ec_decode (ec_encode e n) = Some \<lparr>ec_epoch = e, ec_count = n\<rparr> \<and>
    (\<exists>x. ec_decode bs = Some x \<and> ec_encode (ec_epoch x) (ec_count x) = bs)"
proof -
  have "ec_wf bs" using assms by (simp add: ec_wf_def EPOCH_MAX_WINS_ENCODED_LEN_def)
  then obtain x :: epoch_count where "bs = ec_encode (ec_epoch x) (ec_count x)" by (auto simp: ec_wf_encode)
  then show ?thesis by (auto simp: ec_decode_encode)
qed

theorem counter_encoding_roundtrip_witness:
  "\<exists>x. ec_decode (replicate 16 1) = Some x \<and> ec_encode (ec_epoch x) (ec_count x) = replicate 16 1"
  using counter_encoding_roundtrip [of "replicate 16 1"] by simp

text \<open>
  counters converge whatever the network does. Merging the same values in any order gives the
  same counter, and a value that is delivered again changes nothing: a window reset with a
  higher epoch is never undone.
\<close>

theorem rate_limit_counters_converge:
  assumes "ec_wf a" and "list_all ec_wf xs" and "mset xs = mset ys" and "x \<in> set xs"
  shows "foldl ec_merge a xs = foldl ec_merge a ys \<and> ec_merge (foldl ec_merge a xs) x = foldl ec_merge a xs"
  using counters.foldl_join_mset [OF assms(1-3)] counters.foldl_join_again [OF assms(1,2,4)] by blast

theorem rate_limit_counters_converge_witness:
  "foldl ec_merge (replicate 16 0) [replicate 16 1, replicate 16 2] =
   foldl ec_merge (replicate 16 0) [replicate 16 2, replicate 16 1]"
  using rate_limit_counters_converge [of "replicate 16 0" "[replicate 16 1, replicate 16 2]"
      "[replicate 16 2, replicate 16 1]" "replicate 16 1"]
  by (simp add: ec_wf_def EPOCH_MAX_WINS_ENCODED_LEN_def add_mset_commute)

end
