(* ===== verification/RustText.thy ===== *)
theory RustText
  imports Prelude "HOL-Library.Sublist"
begin

text \<open>
  Rust strings. Two views are used. A \<open>ustr\<close> is the list of the Unicode scalar values of a
  \<open>&str\<close>; the searching functions of \<open>str\<close> that the parsers call (\<open>contains\<close>, \<open>find\<close>,
  \<open>replace\<close>, \<open>splitn\<close>, \<open>trim\<close>) are given on it, with \<open>len()\<close> still counted in bytes.
  A \<open>bytes\<close> value is the UTF-8 buffer itself, for the code that works with byte offsets and
  has to stay on character boundaries.
\<close>

section \<open>Strings as scalar values\<close>

type_synonym ustr = "nat list"

definition str :: "string \<Rightarrow> ustr" where
  "str s = map of_char s"

definition char_len :: "nat \<Rightarrow> nat" where
  "char_len c = (if c < 128 then 1 else if c < 2048 then 2 else if c < 65536 then 3 else 4)"

text \<open>\<open>str::len\<close> counts bytes.\<close>

definition str_len :: "ustr \<Rightarrow> nat" where
  "str_len s = sum_list (map char_len s)"

lemma str_len_simps [simp]:
  "str_len [] = 0" "str_len (c # s) = char_len c + str_len s"
  "str_len (s @ t) = str_len s + str_len t"
  by (simp_all add: str_len_def)

lemma char_len_pos [simp]: "0 < char_len c"
  by (simp add: char_len_def)

lemma length_le_str_len: "length s \<le> str_len s"
proof (induction s)
  case (Cons c s)
  have "0 < char_len c" by simp
  then have "1 \<le> char_len c" by linarith
  with Cons show ?case by simp
qed simp

text \<open>\<open>char::is_whitespace\<close>: the Unicode property \<open>White_Space\<close>.\<close>

definition is_whitespace :: "nat \<Rightarrow> bool" where
  "is_whitespace c \<longleftrightarrow> 9 \<le> c \<and> c \<le> 13 \<or> c = 32 \<or> c = 133 \<or> c = 160 \<or> c = 5760
     \<or> 8192 \<le> c \<and> c \<le> 8202 \<or> c = 8232 \<or> c = 8233 \<or> c = 8239 \<or> c = 8287 \<or> c = 12288"

definition trim_end :: "ustr \<Rightarrow> ustr" where
  "trim_end s = rev (dropWhile is_whitespace (rev s))"

definition trim :: "ustr \<Rightarrow> ustr" where
  "trim s = trim_end (dropWhile is_whitespace s)"

fun find_sub :: "'a list \<Rightarrow> 'a list \<Rightarrow> nat option" where
  "find_sub p [] = (if p = [] then Some 0 else None)"
| "find_sub p (x # xs) =
     (if prefix p (x # xs) then Some 0 else map_option Suc (find_sub p xs))"

definition contains :: "'a list \<Rightarrow> 'a list \<Rightarrow> bool" where
  "contains p s \<longleftrightarrow> find_sub p s \<noteq> None"

text \<open>\<open>s.replace(p, "")\<close>: the occurrences are removed from left to right.\<close>

function remove_all :: "'a list \<Rightarrow> 'a list \<Rightarrow> 'a list" where
  "remove_all p [] = []"
| "remove_all p (x # xs) =
     (if p \<noteq> [] \<and> prefix p (x # xs) then remove_all p (drop (length p) (x # xs))
      else x # remove_all p xs)"
  by pat_completeness auto
termination
proof (relation "measure (\<lambda>(p, s). length s)")
  fix p and x :: 'a and xs :: "'a list"
  assume "p \<noteq> [] \<and> prefix p (x # xs)"
  then have "Suc 0 \<le> length p" by (cases p) simp_all
  then show "((p, drop (length p) (x # xs)), p, x # xs) \<in> measure (\<lambda>(p, s). length s)"
    by simp
qed simp_all

section \<open>Searching\<close>

lemma find_sub_SomeD:
  "find_sub p s = Some i \<Longrightarrow> \<exists>b. s = take i s @ p @ b \<and> i + length p \<le> length s"
proof (induction s arbitrary: i)
  case Nil
  then show ?case by (auto split: if_splits)
next
  case (Cons x xs)
  show ?case
  proof (cases "prefix p (x # xs)")
    case True
    with Cons.prems have "i = 0" by simp
    with True prefix_length_le [OF True] show ?thesis by (auto simp: prefix_def)
  next
    case False
    with Cons.prems obtain j where "find_sub p xs = Some j" "i = Suc j" by auto
    with Cons.IH [of j] show ?thesis by auto
  qed
qed

lemma find_sub_append_found: "\<exists>i. find_sub p (a @ p @ b) = Some i \<and> i \<le> length a"
proof (induction a)
  case Nil
  have "prefix p (p @ b)" by simp
  then show ?case by (cases "p @ b") (simp_all del: append_eq_Cons_conv)
next
  case (Cons x a)
  then show ?case by auto
qed

lemma contains_iff: "contains p s \<longleftrightarrow> (\<exists>a b. s = a @ p @ b)"
  unfolding contains_def using find_sub_SomeD find_sub_append_found by (metis not_None_eq)

lemma contains_sublist: "contains p s \<longleftrightarrow> sublist p s"
  by (auto simp: contains_iff sublist_def)

lemma find_sub_least:
  assumes "find_sub p s = Some i" "s = a @ p @ b"
  shows "i \<le> length a"
  using find_sub_append_found [of p a b] assms by auto

lemma find_sub_None_iff: "find_sub p s = None \<longleftrightarrow> \<not> contains p s"
  by (simp add: contains_def)

lemma contains_appendI1: "contains p s \<Longrightarrow> contains p (s @ t)"
  unfolding contains_iff by (metis append_assoc)

lemma contains_appendI2: "contains p t \<Longrightarrow> contains p (s @ t)"
  unfolding contains_iff by (metis append_assoc)

lemma contains_self [simp]: "contains p p"
  unfolding contains_iff by (rule exI [of _ "[]"]) simp

lemma remove_all_absent: "\<not> contains p s \<Longrightarrow> remove_all p s = s"
proof (induction s)
  case (Cons x xs)
  from Cons.prems have "\<not> prefix p (x # xs)" "\<not> contains p xs"
    by (auto simp: contains_def split: if_splits)
  with Cons.IH show ?case by simp
qed simp

lemma remove_all_self [simp]: "remove_all p p = []"
  by (cases p) simp_all

lemma find_sub_eqI:
  assumes "s = a @ p @ b" "\<And>a' b'. s = a' @ p @ b' \<Longrightarrow> length a \<le> length a'"
  shows "find_sub p s = Some (length a)"
proof -
  obtain i where i: "find_sub p s = Some i" "i \<le> length a"
    using find_sub_append_found [of p a b] assms(1) by auto
  from find_sub_SomeD [OF i(1)] obtain b' where "s = take i s @ p @ b'" "i + length p \<le> length s"
    by blast
  with assms(2) have "length a \<le> length (take i s)" by blast
  with i show ?thesis by simp
qed

lemma find_sub_self: "p \<noteq> [] \<Longrightarrow> find_sub p p = Some 0"
  by (cases p) simp_all

lemma find_sub_Nil [simp]: "find_sub [] s = Some 0"
  by (cases s) simp_all

lemma remove_all_Nil [simp]: "remove_all [] s = s"
  by (induction s) simp_all

lemma contains_Nil [simp]: "contains [] s"
  by (simp add: contains_def)

lemma find_sub_in_suffix:
  assumes "find_sub e (s @ r @ e) = Some (length (s @ r))"
  shows "find_sub e (r @ e @ u) = Some (length r)"
proof (rule find_sub_eqI)
  show "r @ e @ u = r @ e @ u" by simp
next
  fix a' b' assume eq: "r @ e @ u = a' @ e @ b'"
  show "length r \<le> length a'"
  proof (rule ccontr)
    assume "\<not> length r \<le> length a'"
    then have "length (a' @ e) \<le> length (r @ e)" by simp
    with eq obtain c where "r @ e = (a' @ e) @ c"
      by (metis append_assoc append_eq_append_conv_if append_take_drop_id)
    then have "s @ r @ e = (s @ a') @ e @ c" by simp
    from find_sub_least [OF assms this] \<open>\<not> length r \<le> length a'\<close> show False by simp
  qed
qed

lemma remove_all_prefix:
  "p \<noteq> [] \<Longrightarrow> \<not> contains p s \<Longrightarrow> remove_all p (p @ s) = s"
  using remove_all_absent [of p s] by (cases p) (auto simp: prefix_def)

lemma dropWhile_suffix: "\<exists>w. r = w @ dropWhile P r"
  by (metis takeWhile_dropWhile_id)

section \<open>Whitespace\<close>

lemma dropWhile_idem [simp]: "dropWhile P (dropWhile P s) = dropWhile P s"
  by (induction s) simp_all

lemma trim_end_append:
  "t \<noteq> [] \<Longrightarrow> \<not> is_whitespace (last t) \<Longrightarrow> trim_end (s @ t @ u) = s @ t @ trim_end u"
proof -
  assume t: "t \<noteq> []" "\<not> is_whitespace (last t)"
  then obtain t' x where tx: "t = t' @ [x]" "\<not> is_whitespace x" by (cases t rule: rev_cases) auto
  show ?thesis
    by (cases "dropWhile is_whitespace (rev u) = []")
      (auto simp: trim_end_def tx dropWhile_append dropWhile_eq_Nil_conv)
qed

lemma trim_append:
  assumes "t \<noteq> []" "\<not> is_whitespace (hd t)" "\<not> is_whitespace (last t)"
  shows "trim (s @ t @ u) = dropWhile is_whitespace s @ t @ trim_end u"
proof -
  from assms obtain x t' where t: "t = x # t'" "\<not> is_whitespace x" by (cases t) auto
  have "dropWhile is_whitespace (s @ t @ u) = dropWhile is_whitespace s @ t @ u"
    using t by (induction s) auto
  with assms show ?thesis by (simp add: trim_def trim_end_append)
qed

lemma trim_end_dropWhile_comm:
  "trim_end (dropWhile is_whitespace s) = dropWhile is_whitespace (trim_end s)"
proof (induction s)
  case (Cons x s)
  show ?case
  proof (cases "is_whitespace x")
    case True
    show ?thesis
    proof (cases "dropWhile is_whitespace (rev s) = []")
      case True
      then have "list_all is_whitespace s"
        by (auto simp: dropWhile_eq_Nil_conv list_all_iff)
      with \<open>is_whitespace x\<close> True show ?thesis
        by (auto simp: trim_end_def dropWhile_append dropWhile_eq_Nil_conv list_all_iff
            dest: set_dropWhileD)
    next
      case False
      with \<open>is_whitespace x\<close> Cons.IH show ?thesis
        by (auto simp: trim_end_def dropWhile_append dropWhile_eq_Nil_conv)
    qed
  next
    case False
    then show ?thesis
      using trim_end_append [of "[x]" "[]" s] by simp
  qed
qed (simp add: trim_end_def)

lemma trim_end_idem [simp]: "trim_end (trim_end s) = trim_end s"
  by (simp add: trim_end_def)

lemma trim_trim_end [simp]: "trim (trim_end s) = trim s"
  by (simp add: trim_def trim_end_dropWhile_comm)

lemma trim_idem [simp]: "trim (trim s) = trim s"
  by (simp add: trim_def trim_end_dropWhile_comm)

lemma trim_Nil [simp]: "trim [] = []"
  by (simp add: trim_def trim_end_def)

section \<open>UTF-8 buffers\<close>

type_synonym bytes = "u8 list"

definition is_cont :: "u8 \<Rightarrow> bool" where
  "is_cont b \<longleftrightarrow> 0x80 \<le> b \<and> b < 0xC0"

definition lead_len :: "u8 \<Rightarrow> nat" where
  "lead_len b = (if b < 0x80 then 1 else if b < 0xC0 then 0 else if b < 0xE0 then 2
     else if b < 0xF0 then 3 else if b < 0xF8 then 4 else 0)"

text \<open>
  The shape of UTF-8: every character is a lead byte followed by the number of continuation
  bytes that it announces. A Rust \<open>String\<close> always has it.
\<close>

function utf8 :: "bytes \<Rightarrow> bool" where
  "utf8 [] = True"
| "utf8 (b # bs) =
     (lead_len b \<noteq> 0 \<and> lead_len b - 1 \<le> length bs \<and> list_all is_cont (take (lead_len b - 1) bs)
      \<and> utf8 (drop (lead_len b - 1) bs))"
  by pat_completeness auto
termination
  by (relation "measure length") auto

text \<open>\<open>str::is_char_boundary\<close>.\<close>

definition is_char_boundary :: "bytes \<Rightarrow> nat \<Rightarrow> bool" where
  "is_char_boundary s i \<longleftrightarrow>
     i = 0 \<or> (if i \<ge> length s then i = length s else \<not> is_cont (s ! i))"

lemma lead_not_cont: "lead_len b \<noteq> 0 \<Longrightarrow> \<not> is_cont b"
  by (auto simp: lead_len_def is_cont_def split: if_splits)

lemma utf8_hd_not_cont: "utf8 s \<Longrightarrow> s \<noteq> [] \<Longrightarrow> \<not> is_cont (hd s)"
  using lead_not_cont by (cases s) auto

text \<open>A character boundary splits a UTF-8 buffer into two.\<close>

lemma utf8_split:
  "utf8 (x @ y) \<Longrightarrow> y = [] \<or> \<not> is_cont (hd y) \<Longrightarrow> utf8 x \<and> utf8 y"
proof (induction "length x" arbitrary: x rule: less_induct)
  case less
  show ?case
  proof (cases x)
    case Nil
    with less.prems show ?thesis by simp
  next
    case (Cons b bs)
    define n where "n = lead_len b - 1"
    from less.prems(1) Cons have u: "lead_len b \<noteq> 0" "n \<le> length (bs @ y)"
        "list_all is_cont (take n (bs @ y))" "utf8 (drop n (bs @ y))"
      by (simp_all add: n_def)
    have n: "n \<le> length bs"
    proof (rule ccontr)
      assume "\<not> n \<le> length bs"
      then obtain k where k: "n - length bs = Suc k" by (metis Suc_pred diff_is_0_eq neq0_conv)
      with u(2) obtain c ys where y: "y = c # ys" by (cases y) auto
      have "is_cont c" using u(3) k by (simp add: y)
      with less.prems(2) y show False by simp
    qed
    have "utf8 (drop n bs) \<and> utf8 y"
      using less.hyps [of "drop n bs"] u(4) n less.prems(2) Cons by simp
    with u n Cons show ?thesis by (simp add: n_def)
  qed
qed

lemma utf8_append: "utf8 x \<Longrightarrow> utf8 (x @ y) = utf8 y"
proof (induction "length x" arbitrary: x rule: less_induct)
  case less
  show ?case
  proof (cases x)
    case (Cons b bs)
    with less.prems less.hyps [of "drop (lead_len b - 1) bs"] show ?thesis by auto
  qed simp
qed

lemma is_char_boundary_append:
  assumes "x @ y = s" "y = [] \<or> \<not> is_cont (hd y)"
  shows "is_char_boundary s (length x)"
  using assms by (cases y) (auto simp: is_char_boundary_def nth_append)

lemma is_char_boundary_iff:
  "utf8 s \<Longrightarrow> is_char_boundary s i \<longleftrightarrow> i \<le> length s \<and> (drop i s = [] \<or> \<not> is_cont (hd (drop i s)))"
proof (cases "i < length s")
  case True
  assume "utf8 s"
  moreover from True have "s \<noteq> []" by auto
  ultimately have "\<not> is_cont (s ! 0)"
    using utf8_hd_not_cont [of s] by (simp add: hd_conv_nth)
  with True show ?thesis by (auto simp: is_char_boundary_def hd_drop_conv_nth)
next
  case False
  then show ?thesis by (cases "i = length s") (auto simp: is_char_boundary_def)
qed

lemma utf8_take_drop:
  assumes "utf8 s" "is_char_boundary s i"
  shows "utf8 (take i s)" "utf8 (drop i s)"
  using utf8_split [of "take i s" "drop i s"] assms is_char_boundary_iff [of s i] by auto

text \<open>A pattern that is itself a string starts and ends at boundaries of the text it occurs in.\<close>

lemma utf8_match_boundaries:
  assumes "utf8 (a @ p @ b)" "utf8 p" "p \<noteq> []"
  shows "utf8 a" "utf8 b"
proof -
  have "hd (p @ b) = hd p" using assms(3) by simp
  with assms utf8_hd_not_cont [of p] have "utf8 a \<and> utf8 (p @ b)"
    by (intro utf8_split) auto
  with utf8_append [of p b] assms(2) show "utf8 a" "utf8 b" by auto
qed

end
