(* ===== verification/ReasoningParser.thy ===== *)
theory ReasoningParser
  imports RustText
begin

text \<open>
  The reasoning parser of \<open>crates/reasoning_parser\<close>: \<open>BaseReasoningParser\<close>
  (\<open>parsers/base.rs\<close>) with its one-shot and its incremental entry point, the parsers of the
  individual models (\<open>parsers/*.rs\<close>), which are the base parser with a fixed configuration,
  and the registry and factory that choose a parser for a model (\<open>factory.rs\<close>). Pooled
  parsers are shared objects: the pool maps a name to an address of an explicit store.
\<close>

section \<open>Results and configuration\<close>

record parser_result =
  normal_text :: ustr
  reasoning_text :: ustr

definition result_new :: "ustr \<Rightarrow> ustr \<Rightarrow> parser_result" where
  "result_new n r = \<lparr>normal_text = n, reasoning_text = r\<rparr>"

definition result_normal :: "ustr \<Rightarrow> parser_result" where
  "result_normal t = \<lparr>normal_text = t, reasoning_text = []\<rparr>"

definition result_reasoning :: "ustr \<Rightarrow> parser_result" where
  "result_reasoning t = \<lparr>normal_text = [], reasoning_text = t\<rparr>"

definition result_default :: parser_result where
  "result_default = \<lparr>normal_text = [], reasoning_text = []\<rparr>"

definition result_is_empty :: "parser_result \<Rightarrow> bool" where
  "result_is_empty r \<longleftrightarrow> normal_text r = [] \<and> reasoning_text r = []"

lemmas result_defs = result_new_def result_normal_def result_reasoning_def result_default_def

datatype parse_error = Utf8Error | BufferOverflow nat | UnknownModel ustr | ConfigError ustr

definition DEFAULT_MAX_BUFFER_SIZE :: nat where
  "DEFAULT_MAX_BUFFER_SIZE = 4 * 1024 * 1024"

record parser_config =
  think_start_token :: ustr
  think_end_token :: ustr
  stream_reasoning :: bool
  max_buffer_size :: nat
  always_in_reasoning :: bool

definition config_default :: parser_config where
  "config_default =
     \<lparr>think_start_token = str ''<think>'', think_end_token = str ''</think>'',
      stream_reasoning = True, max_buffer_size = DEFAULT_MAX_BUFFER_SIZE,
      always_in_reasoning = False\<rparr>"

record base_parser =
  config :: parser_config
  in_reasoning :: bool
  buffer :: ustr
  stripped_think_start :: bool
  model_type :: ustr

definition base_new :: "parser_config \<Rightarrow> base_parser" where
  "base_new c = \<lparr>config = c, in_reasoning = always_in_reasoning c, buffer = [],
     stripped_think_start = False, model_type = str ''base''\<rparr>"

definition with_model_type :: "base_parser \<Rightarrow> ustr \<Rightarrow> base_parser" where
  "with_model_type p m = p\<lparr>model_type := m\<rparr>"

definition is_partial_token :: "base_parser \<Rightarrow> ustr \<Rightarrow> bool" where
  "is_partial_token p t \<longleftrightarrow>
     (prefix t (think_start_token (config p)) \<and> think_start_token (config p) \<noteq> t)
     \<or> (prefix t (think_end_token (config p)) \<and> think_end_token (config p) \<noteq> t)"

section \<open>One-shot parsing\<close>

text \<open>\<open>splitn(2, token)\<close> on a text that contains the token.\<close>

definition split_once :: "ustr \<Rightarrow> ustr \<Rightarrow> ustr \<times> ustr" where
  "split_once tok t = (case find_sub tok t of
       None \<Rightarrow> (t, [])
     | Some i \<Rightarrow> (take i t, drop (i + length tok) t))"

definition detect_and_parse_reasoning ::
    "base_parser \<Rightarrow> ustr \<Rightarrow> parse_error + parser_result" where
  "detect_and_parse_reasoning p t =
     (if str_len t > max_buffer_size (config p) then Inl (BufferOverflow (str_len t))
      else if \<not> (in_reasoning p \<or> contains (think_start_token (config p)) t)
        then Inr (result_normal t)
      else
        let processed = trim (remove_all (think_start_token (config p)) t) in
        if \<not> contains (think_end_token (config p)) processed
          then Inr (result_reasoning processed)
        else
          let (r, n) = split_once (think_end_token (config p)) processed in
          Inr (result_new (trim n) r))"

section \<open>Incremental parsing\<close>

definition parse_reasoning_streaming_incremental ::
    "base_parser \<Rightarrow> ustr \<Rightarrow> base_parser \<times> (parse_error + parser_result)" where
  "parse_reasoning_streaming_incremental p t =
     (if str_len (buffer p) + str_len t > max_buffer_size (config p)
        then (p, Inl (BufferOverflow (str_len (buffer p) + str_len t)))
      else
        let p = p\<lparr>buffer := buffer p @ t\<rparr>; current = buffer p in
        if is_partial_token p current then (p, Inr result_default)
        else
          let (p, current) =
            (if \<not> stripped_think_start p \<and> contains (think_start_token (config p)) current
             then let current = remove_all (think_start_token (config p)) current in
               (p\<lparr>buffer := current, stripped_think_start := True, in_reasoning := True\<rparr>, current)
             else (p, current));
            think_end_idx =
              (if in_reasoning p then
                 (case find_sub (think_end_token (config p)) current of
                    Some i \<Rightarrow> i | None \<Rightarrow> length current)
               else length current)
          in
          if in_reasoning p \<and> think_end_idx < length current
            then (p\<lparr>buffer := [], in_reasoning := False\<rparr>,
                  Inr (result_new (drop (think_end_idx + length (think_end_token (config p))) current)
                         (trim (take think_end_idx current))))
          else if in_reasoning p \<and> stream_reasoning (config p)
            then (p\<lparr>buffer := []\<rparr>, Inr (result_reasoning current))
          else if \<not> in_reasoning p
            then (p\<lparr>buffer := []\<rparr>, Inr (result_normal current))
          else (p, Inr result_default))"

definition parser_reset :: "base_parser \<Rightarrow> base_parser" where
  "parser_reset p = p\<lparr>in_reasoning := always_in_reasoning (config p), buffer := [],
     stripped_think_start := False\<rparr>"

definition mark_reasoning_started :: "base_parser \<Rightarrow> base_parser" where
  "mark_reasoning_started p = p\<lparr>in_reasoning := True\<rparr>"

definition mark_think_start_stripped :: "base_parser \<Rightarrow> base_parser" where
  "mark_think_start_stripped p = p\<lparr>stripped_think_start := True\<rparr>"

section \<open>The parsers of the models\<close>

definition think_config :: "bool \<Rightarrow> parser_config" where
  "think_config always =
     \<lparr>think_start_token = str ''<think>'', think_end_token = str ''</think>'',
      stream_reasoning = True, max_buffer_size = DEFAULT_MAX_BUFFER_SIZE,
      always_in_reasoning = always\<rparr>"

definition deepseek_r1_new :: base_parser where
  "deepseek_r1_new = with_model_type (base_new (think_config True)) (str ''deepseek_r1'')"

definition glm45_new :: base_parser where
  "glm45_new = with_model_type (base_new (think_config False)) (str ''glm45'')"

definition kimi_new :: base_parser where
  "kimi_new = with_model_type (base_new
     \<lparr>think_start_token = [0x25C1] @ str ''think'' @ [0x25B7],
      think_end_token = [0x25C1] @ str ''/think'' @ [0x25B7],
      stream_reasoning = True, max_buffer_size = DEFAULT_MAX_BUFFER_SIZE,
      always_in_reasoning = False\<rparr>) (str ''kimi'')"

definition minimax_new :: base_parser where
  "minimax_new = with_model_type (base_new (think_config True)) (str ''minimax'')"

definition nano_v3_new :: base_parser where
  "nano_v3_new = with_model_type (base_new (think_config False)) (str ''nano_v3'')"

definition qwen3_new :: base_parser where
  "qwen3_new = with_model_type (base_new (think_config False)) (str ''qwen3'')"

definition qwen_thinking_new :: base_parser where
  "qwen_thinking_new = with_model_type (base_new (think_config True)) (str ''qwen_thinking'')"

definition step3_new :: base_parser where
  "step3_new = with_model_type (base_new (think_config True)) (str ''step3'')"

definition cohere_cmd_new :: base_parser where
  "cohere_cmd_new = with_model_type (base_new
     \<lparr>think_start_token = str ''<|START_THINKING|>'',
      think_end_token = str ''<|END_THINKING|>'',
      stream_reasoning = True, max_buffer_size = DEFAULT_MAX_BUFFER_SIZE,
      always_in_reasoning = False\<rparr>) (str ''cohere_cmd'')"

definition passthrough_new :: base_parser where
  "passthrough_new = with_model_type (base_new
     \<lparr>think_start_token = [], think_end_token = [], stream_reasoning = True,
      max_buffer_size = DEFAULT_MAX_BUFFER_SIZE, always_in_reasoning = False\<rparr>)
     (str ''passthrough'')"

section \<open>Registry and factory\<close>

text \<open>
  A creator is a closure that builds the same fresh parser at every call, so it is the value
  it builds. \<open>pool\<close> holds addresses of \<open>shared\<close>, the store of pooled instances.
\<close>

record parser_registry =
  creators :: "string \<rightharpoonup> base_parser"
  pool :: "string \<rightharpoonup> nat"
  patterns :: "(string \<times> string) list"
  shared :: "base_parser list"

definition registry_new :: parser_registry where
  "registry_new = \<lparr>creators = Map.empty, pool = Map.empty, patterns = [], shared = []\<rparr>"

definition register_parser :: "string \<Rightarrow> base_parser \<Rightarrow> parser_registry \<Rightarrow> parser_registry" where
  "register_parser n c r = r\<lparr>creators := (creators r)(n \<mapsto> c)\<rparr>"

definition register_pattern :: "string \<Rightarrow> string \<Rightarrow> parser_registry \<Rightarrow> parser_registry" where
  "register_pattern pat n r = r\<lparr>patterns := patterns r @ [(pat, n)]\<rparr>"

definition get_pooled_parser ::
    "string \<Rightarrow> parser_registry \<Rightarrow> parser_registry \<times> nat option" where
  "get_pooled_parser n r = (case pool r n of
       Some a \<Rightarrow> (r, Some a)
     | None \<Rightarrow> (case creators r n of
         Some c \<Rightarrow> (r\<lparr>shared := shared r @ [c], pool := (pool r)(n \<mapsto> length (shared r))\<rparr>,
                    Some (length (shared r)))
       | None \<Rightarrow> (r, None)))"

definition has_parser :: "parser_registry \<Rightarrow> string \<Rightarrow> bool" where
  "has_parser r n \<longleftrightarrow> creators r n \<noteq> None"

definition create_parser :: "parser_registry \<Rightarrow> string \<Rightarrow> base_parser option" where
  "create_parser r n = creators r n"

text \<open>
  The search for the first pattern that occurs in the lower-cased model id, common to the
  three lookups. \<open>lower\<close> is \<open>str::to_lowercase\<close>.
\<close>

definition matching_parser ::
    "(string \<Rightarrow> string) \<Rightarrow> parser_registry \<Rightarrow> string \<Rightarrow> string option" where
  "matching_parser lower r m =
     map_option snd (find (\<lambda>(pat, n). contains (lower pat) (lower m)) (patterns r))"

definition find_pooled_parser_for_model ::
    "(string \<Rightarrow> string) \<Rightarrow> string \<Rightarrow> parser_registry \<Rightarrow> parser_registry \<times> nat option" where
  "find_pooled_parser_for_model lower m r = (case matching_parser lower r m of
       Some n \<Rightarrow> get_pooled_parser n r
     | None \<Rightarrow> (r, None))"

definition has_parser_for_model ::
    "(string \<Rightarrow> string) \<Rightarrow> parser_registry \<Rightarrow> string \<Rightarrow> bool" where
  "has_parser_for_model lower r m = (case matching_parser lower r m of
       Some n \<Rightarrow> has_parser r n
     | None \<Rightarrow> False)"

definition create_for_model ::
    "(string \<Rightarrow> string) \<Rightarrow> parser_registry \<Rightarrow> string \<Rightarrow> base_parser option" where
  "create_for_model lower r m = (case matching_parser lower r m of
       Some n \<Rightarrow> create_parser r n
     | None \<Rightarrow> None)"

definition clear_pool :: "parser_registry \<Rightarrow> parser_registry" where
  "clear_pool r = r\<lparr>pool := Map.empty\<rparr>"

definition default_parsers :: "(string \<times> base_parser) list" where
  "default_parsers =
     [(''base'', base_new config_default),
      (''deepseek_r1'', deepseek_r1_new),
      (''qwen3'', qwen3_new),
      (''qwen3_thinking'', qwen_thinking_new),
      (''kimi'', kimi_new),
      (''glm45'', glm45_new),
      (''step3'', step3_new),
      (''minimax'', minimax_new),
      (''cohere_cmd'', cohere_cmd_new),
      (''nano_v3'', nano_v3_new),
      (''deepseek_v31'', with_model_type (base_new (think_config False)) (str ''deepseek_v31'')),
      (''kimi_k25'', with_model_type (base_new (think_config False)) (str ''kimi_k25'')),
      (''kimi_thinking'', with_model_type (base_new (think_config True)) (str ''kimi_thinking''))]"

definition default_patterns :: "(string \<times> string) list" where
  "default_patterns =
     [(''deepseek-r1'', ''deepseek_r1''), (''deepseek-v3.1'', ''deepseek_v31''),
      (''deepseek-v3-1'', ''deepseek_v31''), (''qwen3-thinking'', ''qwen3_thinking''),
      (''qwen-thinking'', ''qwen3_thinking''), (''qwen3'', ''qwen3''), (''qwen'', ''qwen3''),
      (''glm45'', ''glm45''), (''glm47'', ''glm45''), (''kimi-k2-thinking'', ''kimi_thinking''),
      (''kimi-k2.5'', ''kimi_k25''), (''kimi'', ''kimi''), (''step3'', ''step3''),
      (''minimax'', ''minimax''), (''minimax-m2'', ''minimax''), (''mm-m2'', ''minimax''),
      (''command-r'', ''cohere_cmd''), (''command-a'', ''cohere_cmd''),
      (''c4ai-command'', ''cohere_cmd''), (''cohere'', ''cohere_cmd''),
      (''nemotron-nano'', ''nano_v3''), (''nemotron-super'', ''nano_v3''),
      (''nano-v3'', ''nano_v3'')]"

definition factory_new :: parser_registry where
  "factory_new = fold (\<lambda>(pat, n). register_pattern pat n) default_patterns
     (fold (\<lambda>(n, c). register_parser n c) default_parsers registry_new)"

definition factory_get_pooled ::
    "(string \<Rightarrow> string) \<Rightarrow> string \<Rightarrow> parser_registry \<Rightarrow> parser_registry \<times> nat option" where
  "factory_get_pooled lower m r = (case find_pooled_parser_for_model lower m r of
       (r, Some a) \<Rightarrow> (r, Some a)
     | (r, None) \<Rightarrow> (case get_pooled_parser ''passthrough'' r of
         (r, Some a) \<Rightarrow> (r, Some a)
       | (r, None) \<Rightarrow>
           get_pooled_parser ''passthrough'' (register_parser ''passthrough'' passthrough_new r)))"

definition factory_create :: "(string \<Rightarrow> string) \<Rightarrow> parser_registry \<Rightarrow> string \<Rightarrow> base_parser" where
  "factory_create lower r m = (case create_for_model lower r m of
       Some p \<Rightarrow> p
     | None \<Rightarrow> passthrough_new)"

section \<open>Streams of chunks\<close>

text \<open>
  The incremental parser applied to the chunks of a response: the final parser and the
  normal and reasoning text it emitted, or no result when a call returns an error.
\<close>

fun parse_stream ::
    "base_parser \<Rightarrow> ustr list \<Rightarrow> (base_parser \<times> ustr \<times> ustr) option" where
  "parse_stream p [] = Some (p, [], [])"
| "parse_stream p (c # cs) =
     (case parse_reasoning_streaming_incremental p c of
        (p1, Inl e) \<Rightarrow> None
      | (p1, Inr x) \<Rightarrow> map_option (\<lambda>(p2, n, r). (p2, normal_text x @ n, reasoning_text x @ r))
                         (parse_stream p1 cs))"


definition fits :: "base_parser \<Rightarrow> ustr \<Rightarrow> bool" where
  "fits p t \<longleftrightarrow> str_len (buffer p) + str_len t \<le> max_buffer_size (config p)"


lemma step_normal:
  assumes "fits p t" "\<not> is_partial_token p (buffer p @ t)" "\<not> in_reasoning p"
    "stripped_think_start p \<or> \<not> contains (think_start_token (config p)) (buffer p @ t)"
  shows "parse_reasoning_streaming_incremental p t
    = (p\<lparr>buffer := []\<rparr>, Inr (result_normal (buffer p @ t)))"
  using assms
  by (auto simp: parse_reasoning_streaming_incremental_def fits_def is_partial_token_def Let_def)




text \<open>After a tag or in plain text nothing is held back but a proper prefix of a tag.\<close>

lemma partial_with_buffer [simp]: "is_partial_token (p\<lparr>buffer := b\<rparr>) t = is_partial_token p t"
  by (simp add: is_partial_token_def)

lemma result_simps [simp]:
  "normal_text result_default = []" "reasoning_text result_default = []"
  "normal_text (result_normal t) = t" "reasoning_text (result_normal t) = []"
  "normal_text (result_reasoning t) = []" "reasoning_text (result_reasoning t) = t"
  by (simp_all add: result_defs)


lemma stream_of_whole_chunks:
  assumes "buffer p = []" "list_all (\<lambda>c. \<not> is_partial_token p c \<and> str_len c \<le> max_buffer_size (config p)
      \<and> \<not> contains (think_start_token (config p)) c) cs" "\<not> in_reasoning p"
  shows "parse_stream p cs = Some (p, concat cs, [])"
  using assms
proof (induction cs)
  case (Cons c cs)
  then have "parse_reasoning_streaming_incremental p c = (p, Inr (result_normal c))"
    using step_normal [of p c] by (simp add: fits_def)
  with Cons show ?case by simp
qed simp





section \<open>One-shot parsing of a tagged response\<close>

lemma oneshot_tagged:
  fixes p r n
  defines "st \<equiv> think_start_token (config p)" and "en \<equiv> think_end_token (config p)"
  assumes "st \<noteq> []" "en \<noteq> []" "\<not> is_whitespace (hd en)" "\<not> is_whitespace (last en)"
    "\<not> contains st (r @ en @ n)" "find_sub en (r @ en) = Some (length r)"
    "str_len (st @ r @ en @ n) \<le> max_buffer_size (config p)"
  shows "detect_and_parse_reasoning p (st @ r @ en @ n)
    = Inr (result_new (trim n) (dropWhile is_whitespace r))"
proof -
  let ?r = "dropWhile is_whitespace r"
  have start: "contains st (st @ r @ en @ n)" by (simp add: contains_appendI1)
  have body: "trim (remove_all st (st @ r @ en @ n)) = ?r @ en @ trim_end n"
    using assms by (simp add: remove_all_prefix trim_append)
  obtain w where "r = w @ ?r" using dropWhile_suffix by blast
  with find_sub_in_suffix [of en w ?r] assms(8)
  have found: "find_sub en (?r @ en @ trim_end n) = Some (length ?r)" by (metis append_assoc)
  then have "contains en (?r @ en @ trim_end n)" by (simp add: contains_def)
  moreover have "split_once en (?r @ en @ trim_end n) = (?r, trim_end n)"
    by (simp add: split_once_def found)
  ultimately show ?thesis
    using assms(9) start body
    by (simp add: detect_and_parse_reasoning_def Let_def flip: st_def en_def)
qed

section \<open>The passthrough parser\<close>

definition passthrough_state :: "base_parser \<Rightarrow> bool" where
  "passthrough_state p \<longleftrightarrow> config p = config passthrough_new \<and> buffer p = []
     \<and> (in_reasoning p \<longrightarrow> stripped_think_start p)"

lemma passthrough_step:
  assumes "passthrough_state p" "str_len c \<le> DEFAULT_MAX_BUFFER_SIZE"
  shows "\<exists>p'. parse_reasoning_streaming_incremental p c = (p', Inr (result_normal c))
    \<and> passthrough_state p'"
  using assms
  by (auto simp: parse_reasoning_streaming_incremental_def passthrough_state_def Let_def
      is_partial_token_def passthrough_new_def with_model_type_def base_new_def result_defs)

lemma passthrough_stream:
  "passthrough_state p \<Longrightarrow> list_all (\<lambda>c. str_len c \<le> DEFAULT_MAX_BUFFER_SIZE) cs \<Longrightarrow>
     \<exists>p'. parse_stream p cs = Some (p', concat cs, [])"
proof (induction cs arbitrary: p)
  case (Cons c cs)
  then obtain q where q: "parse_reasoning_streaming_incremental p c = (q, Inr (result_normal c))"
    "passthrough_state q" using passthrough_step [of p c] by auto
  with Cons.IH [of q] Cons.prems obtain p' where "parse_stream q cs = Some (p', concat cs, [])"
    by auto
  with q show ?case by simp
qed simp

lemma passthrough_new_state: "passthrough_state passthrough_new"
  by (simp add: passthrough_state_def passthrough_new_def with_model_type_def base_new_def)

lemma passthrough_oneshot:
  "str_len t \<le> DEFAULT_MAX_BUFFER_SIZE \<Longrightarrow>
     detect_and_parse_reasoning passthrough_new t = Inr (result_normal (trim t))"
  by (simp add: detect_and_parse_reasoning_def passthrough_new_def with_model_type_def base_new_def
      split_once_def result_defs)

section \<open>Text held back\<close>

definition held_ok :: "parser_config \<Rightarrow> base_parser \<Rightarrow> bool" where
  "held_ok c p \<longleftrightarrow> config p = c \<and> stream_reasoning c \<and> (buffer p = [] \<or> is_partial_token p (buffer p))"

lemma partial_frame [simp]:
  "is_partial_token (p\<lparr>stripped_think_start := s\<rparr>) t = is_partial_token p t"
  "is_partial_token (p\<lparr>in_reasoning := s\<rparr>) t = is_partial_token p t"
  by (simp_all add: is_partial_token_def)

lemma held_step: "held_ok c p \<Longrightarrow> held_ok c (fst (parse_reasoning_streaming_incremental p t))"
  by (auto simp: held_ok_def parse_reasoning_streaming_incremental_def Let_def)

interpretation held: invariant_system
  "\<lambda>p t. fst (parse_reasoning_streaming_incremental p t)" "held_ok c" for c
  by unfold_locales (rule held_step)

lemma partial_length:
  "is_partial_token p t \<Longrightarrow>
     length t < max (length (think_start_token (config p))) (length (think_end_token (config p)))"
proof -
  assume "is_partial_token p t"
  then have "strict_prefix t (think_start_token (config p))
      \<or> strict_prefix t (think_end_token (config p))"
    by (auto simp: is_partial_token_def strict_prefix_def)
  then show ?thesis by (auto dest: prefix_length_less)
qed

section \<open>Properties\<close>

text \<open>The conditions on a chunk of plain text before the start tag, and of reasoning after it.\<close>

definition plain_chunk :: "parser_config \<Rightarrow> ustr \<Rightarrow> bool" where
  "plain_chunk c t \<longleftrightarrow> \<not> is_partial_token (base_new c) t \<and> str_len t \<le> max_buffer_size c
     \<and> \<not> contains (think_start_token c) t"

definition reasoning_chunk :: "parser_config \<Rightarrow> ustr \<Rightarrow> bool" where
  "reasoning_chunk c t \<longleftrightarrow> \<not> is_partial_token (base_new c) t \<and> str_len t \<le> max_buffer_size c
     \<and> \<not> contains (think_end_token c) t"

text \<open>Neither tag is empty, longer than the buffer or a proper prefix of the other.\<close>

definition usable_tags :: "parser_config \<Rightarrow> bool" where
  "usable_tags c \<longleftrightarrow> think_start_token c \<noteq> [] \<and> think_end_token c \<noteq> []
     \<and> \<not> strict_prefix (think_start_token c) (think_end_token c)
     \<and> \<not> strict_prefix (think_end_token c) (think_start_token c)
     \<and> str_len (think_start_token c) \<le> max_buffer_size c
     \<and> str_len (think_end_token c) \<le> max_buffer_size c"



lemmas parser_eval = str_def config_default_def think_config_def base_new_def with_model_type_def
  DEFAULT_MAX_BUFFER_SIZE_def usable_tags_def plain_chunk_def reasoning_chunk_def
  is_partial_token_def contains_def char_len_def strict_prefix_def


lemma length_trim_le: "length (trim t) \<le> length t"
  unfolding trim_def trim_end_def by (metis length_dropWhile_le length_rev order.trans)

lemma length_remove_all_le: "length (remove_all p t) \<le> length t"
  by (induction p t rule: remove_all.induct) (auto intro: order.trans)

lemma length_remove_all_less: "p \<noteq> [] \<Longrightarrow> contains p t \<Longrightarrow> length (remove_all p t) < length t"
proof (induction p t rule: remove_all.induct)
  case (2 p x xs)
  show ?case
  proof (cases "prefix p (x # xs)")
    case True
    have "length (remove_all p (drop (length p) (x # xs))) \<le> length (drop (length p) (x # xs))"
      by (rule length_remove_all_le)
    with True 2(3) show ?thesis by (cases p) auto
  next
    case False
    with 2(4) have "contains p xs" by (auto simp: contains_def)
    with 2(2,3) False show ?thesis by auto
  qed
qed (simp add: contains_def)

text \<open>The one-shot parser never returns a text with a start tag as it is.\<close>

lemma oneshot_finds_tag:
  assumes "think_start_token (config p) \<noteq> []" "contains (think_start_token (config p)) t"
  shows "detect_and_parse_reasoning p t \<noteq> Inr (result_normal t)"
proof -
  let ?u = "trim (remove_all (think_start_token (config p)) t)"
  obtain r n where s: "split_once (think_end_token (config p)) ?u = (r, n)" by force
  have "length ?u < length t" using length_trim_le length_remove_all_less [OF assms] by (rule order.strict_trans1)
  moreover have "length n \<le> length ?u" using s by (auto simp: split_once_def split: option.splits)
  ultimately have "length (trim n) < length t" using length_trim_le [of n] by linarith
  then have "trim n \<noteq> t" by blast
  moreover have "t \<noteq> []" using assms(2) assms(1) by (auto simp: contains_def)
  ultimately show ?thesis using assms(2) s by (auto simp: detect_and_parse_reasoning_def result_defs Let_def)
qed

text \<open>
  C18: The streaming parser looks for the start tag in what it holds only, which is one chunk unless that is a
  proper prefix of a tag. So if the start tag of a response is cut by a chunk boundary and its
  first part stands behind other text in its chunk, it is lost: for every configuration that
  does not start in reasoning, and every stream whose chunks fit into the buffer, of which none is a proper
  prefix of a tag and none contains the start tag, the whole text comes out as normal text, tags included,
  although it contains the start tag, in which case the one-shot parser never returns it like this.
  The trait says that streaming handles partial tokens and chunk boundaries.
\<close>

theorem split_tag_leaks:
  assumes "think_start_token c \<noteq> []" and "\<not> always_in_reasoning c" and "list_all (plain_chunk c) ts"
    and "contains (think_start_token c) (concat ts)"
  shows "parse_stream (base_new c) ts = Some (base_new c, concat ts, [])
    \<and> detect_and_parse_reasoning (base_new c) (concat ts) \<noteq> Inr (result_normal (concat ts))"
proof
  have cfg: "config (base_new c) = c" "buffer (base_new c) = []" "\<not> in_reasoning (base_new c)"
    using assms(2) by (simp_all add: base_new_def)
  show "parse_stream (base_new c) ts = Some (base_new c, concat ts, [])"
    using stream_of_whole_chunks [of "base_new c" ts] assms(3) cfg by (simp add: plain_chunk_def [abs_def])
  show "detect_and_parse_reasoning (base_new c) (concat ts) \<noteq> Inr (result_normal (concat ts))"
    by (rule oneshot_finds_tag) (simp_all add: cfg assms(1,4))
qed

theorem split_tag_leaks_witness:
  "parse_stream (base_new config_default) [str ''x<th'', str ''ink>a</think>b'']
     = Some (base_new config_default, str ''x<think>a</think>b'', [])"
proof -
  let ?ts = "[str ''x<th'', str ''ink>a</think>b'']"
  have tag: "think_start_token config_default \<noteq> []" "\<not> always_in_reasoning config_default"
    "contains (think_start_token config_default) (concat ?ts)"
    by (simp_all add: parser_eval)
  have "list_all (plain_chunk config_default) ?ts" by (simp add: parser_eval)
  with split_tag_leaks [OF tag(1,2) _ tag(3)] show ?thesis by (simp add: str_def)
qed

text \<open>
  On a complete response that starts with the start tag, one-shot parsing returns the text
  between the tags without leading whitespace as reasoning and the trimmed rest as normal text.
\<close>

theorem oneshot_splits_at_tags:
  assumes "think_start_token (config p) \<noteq> []" "think_end_token (config p) = x # en"
    and "\<not> is_whitespace x" "\<not> is_whitespace (last (x # en))"
    and "\<not> contains (think_start_token (config p)) (r @ think_end_token (config p) @ n)"
    and "find_sub (think_end_token (config p)) (r @ think_end_token (config p)) = Some (length r)"
    and "str_len (think_start_token (config p) @ r @ think_end_token (config p) @ n)
      \<le> max_buffer_size (config p)"
  shows "detect_and_parse_reasoning p
      (think_start_token (config p) @ r @ think_end_token (config p) @ n)
    = Inr (result_new (trim n) (dropWhile is_whitespace r))"
  using assms by (intro oneshot_tagged) (simp_all del: str_len_simps)

theorem oneshot_splits_at_tags_witness:
  "detect_and_parse_reasoning deepseek_r1_new
     (think_start_token (config deepseek_r1_new) @ str '' why''
        @ think_end_token (config deepseek_r1_new) @ str '' so'')
   = Inr (result_new (trim (str '' so'')) (dropWhile is_whitespace (str '' why'')))"
  by (rule oneshot_splits_at_tags [where x = 60 and en = "str ''/think>''"];
      simp add: parser_eval deepseek_r1_new_def is_whitespace_def)

text \<open>
  The parser for models without a pattern, whose tags are empty, passes a stream through
  unchanged, but a one-shot call strips the surrounding whitespace of the response.
\<close>

theorem passthrough_parser:
  assumes "list_all (\<lambda>c. str_len c \<le> DEFAULT_MAX_BUFFER_SIZE) cs"
    and "str_len t \<le> DEFAULT_MAX_BUFFER_SIZE"
  shows "(\<exists>p. parse_stream passthrough_new cs = Some (p, concat cs, []))
    \<and> detect_and_parse_reasoning passthrough_new t = Inr (result_normal (trim t))"
  using passthrough_stream [OF passthrough_new_state assms(1)] passthrough_oneshot [OF assms(2)]
  by simp_all

theorem passthrough_parser_witness:
  "(\<exists>p. parse_stream passthrough_new [[], str '' hi''] = Some (p, str '' hi'', []))
   \<and> detect_and_parse_reasoning passthrough_new (str '' hi'') = Inr (result_normal (str ''hi''))"
  using passthrough_parser [of "[[], str '' hi'']" "str '' hi''"]
  by (simp add: str_def char_len_def DEFAULT_MAX_BUFFER_SIZE_def trim_def trim_end_def
      is_whitespace_def)

text \<open>
  With streaming of reasoning enabled, the text that the parser holds back after any
  sequence of chunks is shorter than the longer tag, whatever the chunks are and even when
  some of them were rejected.
\<close>

theorem held_text_bounded:
  "stream_reasoning c \<Longrightarrow>
     length (buffer (foldl (\<lambda>p t. fst (parse_reasoning_streaming_incremental p t)) (base_new c) ts))
       \<le> max (length (think_start_token c)) (length (think_end_token c)) - 1"
proof -
  let ?p = "foldl (\<lambda>p t. fst (parse_reasoning_streaming_incremental p t)) (base_new c) ts"
  assume "stream_reasoning c"
  then have "held_ok c (base_new c)" by (simp add: held_ok_def base_new_def)
  from held.inv_run [OF this] have "held_ok c ?p" .
  then show ?thesis using partial_length [of ?p "buffer ?p"] by (auto simp: held_ok_def)
qed

theorem held_text_bounded_witness:
  "length (buffer (foldl (\<lambda>p t. fst (parse_reasoning_streaming_incremental p t))
      (base_new config_default) [str ''a<'', str ''<t'']))
     \<le> max (length (think_start_token config_default)) (length (think_end_token config_default)) - 1"
  by (rule held_text_bounded) (simp add: config_default_def)

section \<open>Pooled parsers\<close>

definition pool_ok :: "parser_registry \<Rightarrow> bool" where
  "pool_ok r \<longleftrightarrow> (\<forall>n a. pool r n = Some a \<longrightarrow> a < length (shared r))"

lemma pool_ok_bound: "pool_ok r \<Longrightarrow> pool r n = Some a \<Longrightarrow> a < length (shared r)"
  by (auto simp: pool_ok_def)

lemma get_pooled_hit: "pool r n = Some a \<Longrightarrow> get_pooled_parser n r = (r, Some a)"
  by (simp add: get_pooled_parser_def)

lemma get_pooled_miss:
  "pool r n = None \<Longrightarrow> creators r n = None \<Longrightarrow> get_pooled_parser n r = (r, None)"
  by (simp add: get_pooled_parser_def)

lemma get_pooled_found:
  assumes "pool r n \<noteq> None \<or> creators r n \<noteq> None"
  obtains r' a where "get_pooled_parser n r = (r', Some a)" "pool r' = (pool r)(n \<mapsto> a)"
    "patterns r' = patterns r" "creators r' = creators r" "pool_ok r \<Longrightarrow> pool_ok r'"
proof (cases "pool r n")
  case (Some a)
  then have "(pool r)(n \<mapsto> a) = pool r" by auto
  with that [of r a] Some show thesis by (simp add: get_pooled_hit)
next
  case None
  with assms obtain c where "creators r n = Some c" by auto
  let ?r = "r\<lparr>shared := shared r @ [c], pool := (pool r)(n \<mapsto> length (shared r))\<rparr>"
  have "pool_ok r \<Longrightarrow> pool_ok ?r"
    by (auto simp: pool_ok_def less_Suc_eq split: if_splits)
  with that [of ?r "length (shared r)"] None \<open>creators r n = Some c\<close> show thesis
    by (simp add: get_pooled_parser_def)
qed

lemma matching_parser_cong: "patterns r' = patterns r \<Longrightarrow> matching_parser lower r' m = matching_parser lower r m"
  by (simp add: matching_parser_def)

lemma pool_ok_register: "pool_ok (register_parser n c r) = pool_ok r"
  by (simp add: pool_ok_def register_parser_def)

lemma fallback_pooled:
  assumes miss: "\<And>n. matching_parser lower r m = Some n \<Longrightarrow> n \<noteq> ''passthrough'' \<Longrightarrow>
      pool r n = None \<and> creators r n = None"
    and r': "pool r' = (pool r)(''passthrough'' \<mapsto> a)" "patterns r' = patterns r"
      "\<And>n. n \<noteq> ''passthrough'' \<Longrightarrow> creators r' n = creators r n"
  shows "factory_get_pooled lower m r' = (r', Some a)"
proof (cases "matching_parser lower r m")
  case None
  then show ?thesis using r'
    by (simp add: factory_get_pooled_def find_pooled_parser_for_model_def get_pooled_hit
        matching_parser_cong [OF r'(2)])
next
  case (Some n)
  show ?thesis
  proof (cases "n = ''passthrough''")
    case True
    with Some r' show ?thesis
      by (simp add: factory_get_pooled_def find_pooled_parser_for_model_def get_pooled_hit
          matching_parser_cong [OF r'(2)])
  next
    case False
    with Some miss r' have "pool r' n = None" "creators r' n = None" by simp_all
    with Some r' show ?thesis
      by (simp add: factory_get_pooled_def find_pooled_parser_for_model_def get_pooled_hit
          get_pooled_miss matching_parser_cong [OF r'(2)])
  qed
qed

text \<open>
  Asking the factory for a pooled parser always yields a parser, also for a model without a
  pattern, and asking again for the same model yields the same shared object and changes
  nothing.
\<close>

theorem pooled_parser_is_shared:
  assumes "pool_ok r"
  shows "\<exists>r' a. factory_get_pooled lower m r = (r', Some a) \<and> pool_ok r' \<and> a < length (shared r')
    \<and> factory_get_pooled lower m r' = (r', Some a)"
proof (cases "\<exists>n. matching_parser lower r m = Some n \<and> (pool r n \<noteq> None \<or> creators r n \<noteq> None)")
  case True
  then obtain n where n: "matching_parser lower r m = Some n" "pool r n \<noteq> None \<or> creators r n \<noteq> None"
    by blast
  obtain r' a where r': "get_pooled_parser n r = (r', Some a)" "pool r' = (pool r)(n \<mapsto> a)"
    "patterns r' = patterns r" "pool_ok r'" using get_pooled_found [OF n(2)] assms by metis
  have "factory_get_pooled lower m r = (r', Some a)"
    using n(1) r'(1) by (simp add: factory_get_pooled_def find_pooled_parser_for_model_def)
  moreover have "factory_get_pooled lower m r' = (r', Some a)"
    using n(1) r'(2) by (simp add: factory_get_pooled_def find_pooled_parser_for_model_def
        get_pooled_hit matching_parser_cong [OF r'(3)])
  moreover have "a < length (shared r')" using pool_ok_bound [of r' n a] r'(2, 4) by simp
  ultimately show ?thesis using r'(4) by blast
next
  case False
  then have miss: "find_pooled_parser_for_model lower m r = (r, None)"
    by (auto simp: find_pooled_parser_for_model_def get_pooled_miss split: option.splits)
  define r0 where "r0 = (if pool r ''passthrough'' = None \<and> creators r ''passthrough'' = None
    then register_parser ''passthrough'' passthrough_new r else r)"
  have r0: "pool r0 = pool r" "patterns r0 = patterns r" "pool_ok r0"
      "\<And>n. n \<noteq> ''passthrough'' \<Longrightarrow> creators r0 n = creators r n"
      "pool r0 ''passthrough'' \<noteq> None \<or> creators r0 ''passthrough'' \<noteq> None"
    using assms by (auto simp: r0_def register_parser_def pool_ok_def)
  obtain r' a where r': "get_pooled_parser ''passthrough'' r0 = (r', Some a)"
    "pool r' = (pool r0)(''passthrough'' \<mapsto> a)" "patterns r' = patterns r0"
    "creators r' = creators r0" "pool_ok r'" using get_pooled_found [OF r0(5)] r0(3) by metis
  have "factory_get_pooled lower m r = (r', Some a)"
    using r'(1) get_pooled_found [of r "''passthrough''"] get_pooled_miss [of r "''passthrough''"]
    by (cases "pool r ''passthrough'' = None \<and> creators r ''passthrough'' = None")
      (auto simp: factory_get_pooled_def miss r0_def)
  moreover have "factory_get_pooled lower m r' = (r', Some a)"
    using False r' r0 by (intro fallback_pooled [of lower r m]) auto
  moreover have "a < length (shared r')"
    using pool_ok_bound [of r' "''passthrough''" a] r'(2, 5) by simp
  ultimately show ?thesis using r'(5) by blast
qed

theorem pooled_parser_is_shared_witness:
  "\<exists>r' a. factory_get_pooled id ''gpt-4'' factory_new = (r', Some a) \<and> pool_ok r'
     \<and> a < length (shared r') \<and> factory_get_pooled id ''gpt-4'' r' = (r', Some a)"
  by (rule pooled_parser_is_shared)
    (simp add: pool_ok_def factory_new_def default_patterns_def default_parsers_def registry_new_def
      register_pattern_def register_parser_def)

end
