(* ===== verification/StopDecoder.thy ===== *)
theory StopDecoder
  imports RustText
begin

text \<open>
  Incremental decoding of generated tokens with stop sequences: the default
  \<open>decode_step\<close> of the \<open>Decoder\<close> trait (\<open>crates/tokenizer/src/traits.rs\<close>), \<open>Sequence\<close>
  (\<open>sequence.rs\<close>) and \<open>StopSequenceDecoder\<close> with its builder (\<open>stop.rs\<close>). Texts are UTF-8
  buffers, indices are byte offsets, and a slice at an offset inside a character is a panic.
  The tokenizer and the Aho-Corasick automaton are third-party code and are arguments.
\<close>

section \<open>Tokenizer interface\<close>

type_synonym token_id = u32

datatype decode_error = DecodeError | Panic

text \<open>
  \<open>decode\<close> and \<open>decode_step\<close> of the tokenizer. A step returns its result together with the
  new values of the three variables it is lent.
\<close>

type_synonym decode_fn = "token_id list \<Rightarrow> bool \<Rightarrow> decode_error + bytes"
type_synonym decode_step_fn = "token_id \<Rightarrow> token_id list \<Rightarrow> bytes \<Rightarrow> nat \<Rightarrow> bool
  \<Rightarrow> (decode_error + bytes option) \<times> token_id list \<times> bytes \<times> nat"

record tokenizer =
  tk_decode :: decode_fn
  tk_decode_step :: decode_step_fn

definition REPLACEMENT_CHARACTER :: bytes where
  "REPLACEMENT_CHARACTER = [0xEF, 0xBF, 0xBD]"

text \<open>The loops that move an offset to a character boundary, downwards and upwards.\<close>

fun boundary_below :: "bytes \<Rightarrow> nat \<Rightarrow> nat" where
  "boundary_below s 0 = 0"
| "boundary_below s (Suc i) = (if is_char_boundary s (Suc i) then Suc i else boundary_below s i)"

function boundary_above :: "bytes \<Rightarrow> nat \<Rightarrow> nat" where
  "boundary_above s i =
     (if i < length s \<and> \<not> is_char_boundary s i then boundary_above s (Suc i) else i)"
  by pat_completeness auto
termination
  by (relation "measure (\<lambda>(s, i). length s - i)") auto

declare boundary_above.simps [simp del]

text \<open>The default implementation: decode with and without the new token, and compare.\<close>

definition default_decode_step :: "decode_fn \<Rightarrow> decode_step_fn" where
  "default_decode_step decode t ids prefix_text prefix_index skip =
     (case (if prefix_text = [] \<and> ids \<noteq> [] then
              map_sum id (\<lambda>p. if \<not> suffix REPLACEMENT_CHARACTER p then (p, length ids)
                              else (prefix_text, prefix_index)) (decode ids skip)
            else Inr (prefix_text, prefix_index)) of
        Inl e \<Rightarrow> (Inl e, ids, prefix_text, prefix_index)
      | Inr (prefix_text, prefix_index) \<Rightarrow>
          let ids = ids @ [t] in
          (case decode ids skip of
             Inl e \<Rightarrow> (Inl e, ids, prefix_text, prefix_index)
           | Inr s \<Rightarrow>
               if length s > length prefix_text \<and> \<not> suffix REPLACEMENT_CHARACTER s then
                 let new_text = drop (boundary_below s (length prefix_text)) s in
                 if prefix_index > length ids then (Inl Panic, ids, prefix_text, prefix_index)
                 else
                   let new_prefix_len = length ids - prefix_index; ids = drop prefix_index ids in
                   (case decode ids skip of
                      Inl e \<Rightarrow> (Inl e, ids, prefix_text, new_prefix_len)
                    | Inr p \<Rightarrow> (Inr (Some new_text), ids, p, new_prefix_len))
               else (Inr None, ids, prefix_text, prefix_index)))"

section \<open>Sequence\<close>

record sequence =
  token_ids :: "token_id list"
  total_tokens :: nat
  prefix_index :: nat
  cached_prefix :: bytes
  skip_special_tokens :: bool

definition new_with_options :: "bool \<Rightarrow> sequence" where
  "new_with_options skip = \<lparr>token_ids = [], total_tokens = 0, prefix_index = 0,
     cached_prefix = [], skip_special_tokens = skip\<rparr>"

definition with_tokens_and_options :: "token_id list \<Rightarrow> bool \<Rightarrow> sequence" where
  "with_tokens_and_options ids skip = \<lparr>token_ids = ids, total_tokens = length ids,
     prefix_index = 0, cached_prefix = [], skip_special_tokens = skip\<rparr>"

definition sequence_is_empty :: "sequence \<Rightarrow> bool" where
  "sequence_is_empty q \<longleftrightarrow> total_tokens q = 0"

definition sequence_clear :: "sequence \<Rightarrow> sequence" where
  "sequence_clear q = q\<lparr>token_ids := [], total_tokens := 0, prefix_index := 0,
     cached_prefix := []\<rparr>"

definition append_token ::
    "tokenizer \<Rightarrow> token_id \<Rightarrow> sequence \<Rightarrow> (decode_error + bytes) \<times> sequence" where
  "append_token tk t q =
     (case tk_decode_step tk t (token_ids q) (cached_prefix q) (prefix_index q)
             (skip_special_tokens q) of
        (r, ids, p, i) \<Rightarrow>
          let q = q\<lparr>token_ids := ids, cached_prefix := p, prefix_index := i\<rparr> in
          (case r of
             Inl e \<Rightarrow> (Inl e, q)
           | Inr x \<Rightarrow> (Inr (case x of Some s \<Rightarrow> s | None \<Rightarrow> []),
                       q\<lparr>total_tokens := total_tokens q + 1\<rparr>)))"

definition sequence_text :: "tokenizer \<Rightarrow> sequence \<Rightarrow> decode_error + bytes" where
  "sequence_text tk q = tk_decode tk (token_ids q) (skip_special_tokens q)"

section \<open>Stop sequences\<close>

datatype decoder_output = Text bytes | Held | Stopped | StoppedWithText bytes

record stop_config =
  stop_tokens :: "token_id set"
  stop_sequences :: "bytes list"
  visible_stop_tokens :: "token_id set"
  visible_stop_sequences :: "bytes list"

definition stop_config_default :: stop_config where
  "stop_config_default = \<lparr>stop_tokens = {}, stop_sequences = [], visible_stop_tokens = {},
     visible_stop_sequences = []\<rparr>"

definition with_stop_token :: "token_id \<Rightarrow> stop_config \<Rightarrow> stop_config" where
  "with_stop_token t c = c\<lparr>stop_tokens := insert t (stop_tokens c)\<rparr>"

definition with_stop_sequence :: "bytes \<Rightarrow> stop_config \<Rightarrow> stop_config" where
  "with_stop_sequence s c = c\<lparr>stop_sequences := stop_sequences c @ [s]\<rparr>"

definition with_visible_stop_token :: "token_id \<Rightarrow> stop_config \<Rightarrow> stop_config" where
  "with_visible_stop_token t c = c\<lparr>visible_stop_tokens := insert t (visible_stop_tokens c)\<rparr>"

definition with_visible_stop_sequence :: "bytes \<Rightarrow> stop_config \<Rightarrow> stop_config" where
  "with_visible_stop_sequence s c = c\<lparr>visible_stop_sequences := visible_stop_sequences c @ [s]\<rparr>"

text \<open>
  The automaton is the list of its patterns; \<open>ac ps text start\<close> is the search of the span from
  \<open>start\<close> to the end of the text, with pattern number, start and end of the match.
\<close>

type_synonym ac_fn = "bytes list \<Rightarrow> bytes \<Rightarrow> nat \<Rightarrow> (nat \<times> nat \<times> nat) option"

record stop_decoder =
  sequence :: sequence
  dconfig :: stop_config
  aho_corasick :: "bytes list option"
  visible_boundary_idx :: nat
  jail_buffer :: bytes
  jail_max_bytes :: nat
  stopped :: bool
  token_only :: bool

definition hidden_patterns :: "stop_config \<Rightarrow> bytes list" where
  "hidden_patterns c = filter (\<lambda>s. s \<noteq> []) (stop_sequences c)"

definition all_patterns :: "stop_config \<Rightarrow> bytes list" where
  "all_patterns c = hidden_patterns c @ filter (\<lambda>s. s \<noteq> []) (visible_stop_sequences c)"

definition stop_decoder_new :: "stop_config \<Rightarrow> bool \<Rightarrow> stop_decoder" where
  "stop_decoder_new c skip =
     (let ps = all_patterns c; ac = (if ps = [] then None else Some ps) in
      \<lparr>sequence = new_with_options skip, dconfig = c, aho_corasick = ac,
       visible_boundary_idx = length (hidden_patterns c), jail_buffer = [],
       jail_max_bytes = foldr max (map length (stop_sequences c @ visible_stop_sequences c)) 0,
       stopped = False, token_only = (ac = None)\<rparr>)"

text \<open>\<open>&s[..i]\<close> and \<open>s.split_off(i)\<close>, which panic at an offset that is no boundary.\<close>

definition slice_to :: "bytes \<Rightarrow> nat \<Rightarrow> bytes option" where
  "slice_to s i = (if is_char_boundary s i then Some (take i s) else None)"

definition split_off :: "bytes \<Rightarrow> nat \<Rightarrow> (bytes \<times> bytes) option" where
  "split_off s i = (if is_char_boundary s i then Some (take i s, drop i s) else None)"

definition process_token ::
    "ac_fn \<Rightarrow> tokenizer \<Rightarrow> token_id \<Rightarrow> stop_decoder
       \<Rightarrow> (decode_error + decoder_output) \<times> stop_decoder" where
  "process_token ac tk t d =
     (if stopped d then (Inr Stopped, d)
      else if t \<in> stop_tokens (dconfig d) then
        if jail_buffer d \<noteq> []
          then (Inr (StoppedWithText (jail_buffer d)), d\<lparr>stopped := True, jail_buffer := []\<rparr>)
        else (Inr Stopped, d\<lparr>stopped := True\<rparr>)
      else if t \<in> visible_stop_tokens (dconfig d) then
        (case tk_decode tk [t] (skip_special_tokens (sequence d)) of
           Inl e \<Rightarrow> (Inl e, d\<lparr>stopped := True\<rparr>)
         | Inr s \<Rightarrow> (Inr (StoppedWithText (jail_buffer d @ s)),
                     d\<lparr>stopped := True, jail_buffer := []\<rparr>))
      else
        (case append_token tk t (sequence d) of
           (Inl e, q) \<Rightarrow> (Inl e, d\<lparr>sequence := q\<rparr>)
         | (Inr new_text, q) \<Rightarrow>
             let d = d\<lparr>sequence := q\<rparr> in
             if token_only d then
               (Inr (if new_text = [] then Held else Text new_text), d)
             else
               let old_len = length (jail_buffer d);
                   d = d\<lparr>jail_buffer := jail_buffer d @ new_text\<rparr>;
                   found = (case aho_corasick d of
                       None \<Rightarrow> None
                     | Some ps \<Rightarrow>
                         let search_start =
                           (if old_len \<ge> jail_max_bytes d
                            then boundary_above (jail_buffer d) (old_len + 1 - jail_max_bytes d)
                            else 0)
                         in ac ps (jail_buffer d) search_start)
               in
               (case found of
                  Some (pat, mstart, mend) \<Rightarrow>
                    let d = d\<lparr>stopped := True\<rparr> in
                    if pat \<ge> visible_boundary_idx d then
                      (case slice_to (jail_buffer d) mend of
                         None \<Rightarrow> (Inl Panic, d)
                       | Some out \<Rightarrow> (Inr (StoppedWithText out), d\<lparr>jail_buffer := []\<rparr>))
                    else
                      (case slice_to (jail_buffer d) mstart of
                         None \<Rightarrow> (Inl Panic, d)
                       | Some out \<Rightarrow> (Inr (if out = [] then Stopped else StoppedWithText out),
                                      d\<lparr>jail_buffer := []\<rparr>))
                | None \<Rightarrow>
                    if length (jail_buffer d) > jail_max_bytes d then
                      let drain_to =
                        boundary_below (jail_buffer d) (length (jail_buffer d) - jail_max_bytes d) in
                      if drain_to > 0 then
                        (case split_off (jail_buffer d) drain_to of
                           None \<Rightarrow> (Inl Panic, d)
                         | Some (out, rest) \<Rightarrow> (Inr (Text out), d\<lparr>jail_buffer := rest\<rparr>))
                      else (Inr Held, d)
                    else (Inr Held, d))))"

definition stops :: "decoder_output \<Rightarrow> bool" where
  "stops x \<longleftrightarrow> (case x of Stopped \<Rightarrow> True | StoppedWithText s \<Rightarrow> True | _ \<Rightarrow> False)"

fun process_tokens ::
    "ac_fn \<Rightarrow> tokenizer \<Rightarrow> token_id list \<Rightarrow> stop_decoder
       \<Rightarrow> (decode_error + decoder_output list) \<times> stop_decoder" where
  "process_tokens ac tk [] d = (Inr [], d)"
| "process_tokens ac tk (t # ts) d =
     (case process_token ac tk t d of
        (Inl e, d) \<Rightarrow> (Inl e, d)
      | (Inr x, d) \<Rightarrow>
          if stops x then (Inr [x], d)
          else (case process_tokens ac tk ts d of
                  (Inl e, d) \<Rightarrow> (Inl e, d)
                | (Inr xs, d) \<Rightarrow> (Inr (x # xs), d)))"

definition decoder_flush :: "stop_decoder \<Rightarrow> decoder_output \<times> stop_decoder" where
  "decoder_flush d = (if jail_buffer d = [] then (Held, d)
     else (Text (jail_buffer d), d\<lparr>jail_buffer := []\<rparr>))"

definition decoder_reset :: "stop_decoder \<Rightarrow> stop_decoder" where
  "decoder_reset d = d\<lparr>jail_buffer := [], sequence := sequence_clear (sequence d),
     stopped := False\<rparr>"

text \<open>The builder collects the configuration.\<close>

record stop_decoder_builder =
  bconfig :: stop_config
  bskip :: bool

definition builder_new :: stop_decoder_builder where
  "builder_new = \<lparr>bconfig = stop_config_default, bskip = True\<rparr>"

definition builder_stop_token :: "token_id \<Rightarrow> stop_decoder_builder \<Rightarrow> stop_decoder_builder" where
  "builder_stop_token t b = b\<lparr>bconfig := (bconfig b)\<lparr>stop_tokens := insert t (stop_tokens (bconfig b))\<rparr>\<rparr>"

definition builder_stop_sequence :: "bytes \<Rightarrow> stop_decoder_builder \<Rightarrow> stop_decoder_builder" where
  "builder_stop_sequence s b =
     b\<lparr>bconfig := (bconfig b)\<lparr>stop_sequences := stop_sequences (bconfig b) @ [s]\<rparr>\<rparr>"

definition builder_visible_stop_token ::
    "token_id \<Rightarrow> stop_decoder_builder \<Rightarrow> stop_decoder_builder" where
  "builder_visible_stop_token t b =
     b\<lparr>bconfig := (bconfig b)\<lparr>visible_stop_tokens := insert t (visible_stop_tokens (bconfig b))\<rparr>\<rparr>"

definition builder_visible_stop_sequence ::
    "bytes \<Rightarrow> stop_decoder_builder \<Rightarrow> stop_decoder_builder" where
  "builder_visible_stop_sequence s b =
     b\<lparr>bconfig := (bconfig b)\<lparr>visible_stop_sequences := visible_stop_sequences (bconfig b) @ [s]\<rparr>\<rparr>"

definition builder_skip_special_tokens :: "bool \<Rightarrow> stop_decoder_builder \<Rightarrow> stop_decoder_builder" where
  "builder_skip_special_tokens skip b = b\<lparr>bskip := skip\<rparr>"

definition builder_build :: "stop_decoder_builder \<Rightarrow> stop_decoder" where
  "builder_build b = stop_decoder_new (bconfig b) (bskip b)"

section \<open>Occurrences\<close>

definition occurs :: "bytes \<Rightarrow> bytes \<Rightarrow> nat \<Rightarrow> bool" where
  "occurs p w s \<longleftrightarrow> s + length p \<le> length w \<and> take (length p) (drop s w) = p"

definition no_match :: "bytes list \<Rightarrow> bytes \<Rightarrow> bool" where
  "no_match ps w \<longleftrightarrow> (\<forall>p\<in>set ps. \<forall>s. \<not> occurs p w s)"

text \<open>
  A match that ends first among those that start at or after an offset. This is what
  \<open>AhoCorasick::find\<close> documents for the standard match kind: matches are reported as they are
  seen.
\<close>

definition first_match :: "bytes list \<Rightarrow> bytes \<Rightarrow> nat \<Rightarrow> nat \<times> nat \<times> nat \<Rightarrow> bool" where
  "first_match ps w from m \<longleftrightarrow> (case m of (i, s, e) \<Rightarrow>
     i < length ps \<and> from \<le> s \<and> e = s + length (ps ! i) \<and> occurs (ps ! i) w s
     \<and> (\<forall>p\<in>set ps. \<forall>s'\<ge>from. occurs p w s' \<longrightarrow> e \<le> s' + length p))"

definition standard_matcher :: "ac_fn \<Rightarrow> bool" where
  "standard_matcher ac \<longleftrightarrow> (\<forall>ps w from. from \<le> length w \<longrightarrow> [] \<notin> set ps \<longrightarrow>
     (case ac ps w from of
        None \<Rightarrow> (\<forall>p\<in>set ps. \<forall>s\<ge>from. \<not> occurs p w s)
      | Some m \<Rightarrow> first_match ps w from m))"

lemma occurs_shift: "occurs p (a @ b) (length a + s) \<longleftrightarrow> occurs p b s"
  by (auto simp: occurs_def)

lemma occurs_append1: "occurs p w s \<Longrightarrow> occurs p (w @ u) s"
  by (auto simp: occurs_def)

lemma occurs_append_inside: "occurs p (w @ u) s \<Longrightarrow> s + length p \<le> length w \<Longrightarrow> occurs p w s"
  by (auto simp: occurs_def)

lemma occurs_split: "occurs p w s \<Longrightarrow> w = take s w @ p @ drop (s + length p) w"
  unfolding occurs_def by (metis append_take_drop_id drop_drop add.commute)

lemma occurs_not_cont:
  assumes "occurs p w s" "utf8 p" "p \<noteq> []"
  shows "s < length w" "\<not> is_cont (w ! s)"
proof -
  from assms(1, 3) show s: "s < length w" by (cases p) (auto simp: occurs_def)
  have "hd (drop s w) = hd p"
    using assms(1, 3) unfolding occurs_def by (metis hd_take length_greater_0_conv)
  with utf8_hd_not_cont [OF assms(2, 3)] s show "\<not> is_cont (w ! s)" by (simp add: hd_drop_conv_nth)
qed

lemma occurs_boundaries:
  assumes "occurs p w s" "utf8 w" "utf8 p" "p \<noteq> []"
  shows "is_char_boundary w s" "is_char_boundary w (s + length p)"
proof -
  have eq: "w = take s w @ p @ drop (s + length p) w" by (rule occurs_split [OF assms(1)])
  have len: "s + length p \<le> length w" using assms(1) by (simp add: occurs_def)
  have "\<not> is_cont (hd (p @ drop (s + length p) w))"
    using assms(3, 4) utf8_hd_not_cont [of p] by simp
  with is_char_boundary_append [OF eq [symmetric]] len show "is_char_boundary w s"
    by (simp add: min_absorb2)
  have "utf8 (drop (s + length p) w)"
    using utf8_match_boundaries [of "take s w" p "drop (s + length p) w"] eq assms(2-4) by simp
  then have "drop (s + length p) w = [] \<or> \<not> is_cont (hd (drop (s + length p) w))"
    using utf8_hd_not_cont by blast
  with is_char_boundary_iff [OF assms(2)] len show "is_char_boundary w (s + length p)" by simp
qed

section \<open>The boundary loops\<close>

lemma boundary_below_le: "boundary_below s i \<le> i"
  by (induction i) auto

lemma boundary_below_boundary: "is_char_boundary s (boundary_below s i)"
  by (induction i) (auto simp: is_char_boundary_def)

lemma boundary_above_spec:
  "i \<le> length s \<Longrightarrow> i \<le> boundary_above s i \<and> boundary_above s i \<le> length s
     \<and> (\<forall>k. i \<le> k \<longrightarrow> k < boundary_above s i \<longrightarrow> is_cont (s ! k))"
proof (induction s i rule: boundary_above.induct)
  case (1 s i)
  show ?case
  proof (cases "i < length s \<and> \<not> is_char_boundary s i")
    case True
    then have "is_cont (s ! i)" by (auto simp: is_char_boundary_def)
    have IH: "Suc i \<le> boundary_above s (Suc i)" "boundary_above s (Suc i) \<le> length s"
      "\<And>k. Suc i \<le> k \<Longrightarrow> k < boundary_above s (Suc i) \<Longrightarrow> is_cont (s ! k)"
      using 1(1) True by auto
    have "boundary_above s i = boundary_above s (Suc i)"
      using True by (subst boundary_above.simps) simp
    moreover have "is_cont (s ! k)" if "i \<le> k" "k < boundary_above s (Suc i)" for k
      using that IH(3) \<open>is_cont (s ! i)\<close> by (cases "k = i") auto
    ultimately show ?thesis using IH by auto
  next
    case False
    then have "boundary_above s i = i" by (subst boundary_above.simps) auto
    with 1 show ?thesis by auto
  qed
qed

text \<open>Skipping to a boundary loses no match, because patterns start with a lead byte.\<close>

lemma occurs_from_boundary:
  assumes "occurs p w s" "utf8 p" "p \<noteq> []" "i \<le> s" "i \<le> length w"
  shows "boundary_above w i \<le> s"
proof (rule ccontr)
  assume "\<not> boundary_above w i \<le> s"
  then have "is_cont (w ! s)" using boundary_above_spec [OF assms(5)] assms(4) by auto
  with occurs_not_cont [OF assms(1-3)] show False by simp
qed

section \<open>The invariant of the jail\<close>

text \<open>
  \<open>pats\<close> are the patterns of the decoder, \<open>e\<close> the text emitted so far. The text seen so far has
  no match, and what was emitted is out of reach of any match to come.
\<close>

definition wf_decoder :: "bytes list \<Rightarrow> stop_decoder \<Rightarrow> bool" where
  "wf_decoder ps d \<longleftrightarrow> aho_corasick d = (if ps = [] then None else Some ps)
     \<and> token_only d = (ps = []) \<and> [] \<notin> set ps \<and> list_all utf8 ps
     \<and> list_all (\<lambda>p. length p \<le> jail_max_bytes d) ps \<and> (ps = [] \<longrightarrow> jail_max_bytes d = 0)"

definition jail_inv :: "bytes list \<Rightarrow> stop_decoder \<Rightarrow> bytes \<Rightarrow> bool" where
  "jail_inv ps d e \<longleftrightarrow> wf_decoder ps d \<and> \<not> stopped d \<and> utf8 e \<and> utf8 (jail_buffer d)
     \<and> no_match ps (e @ jail_buffer d) \<and> (e = [] \<or> jail_max_bytes d \<le> length (jail_buffer d))
     \<and> (ps = [] \<longrightarrow> jail_buffer d = [])"

definition search_start :: "stop_decoder \<Rightarrow> bytes \<Rightarrow> nat" where
  "search_start d new = (if length (jail_buffer d) \<ge> jail_max_bytes d
     then boundary_above (jail_buffer d @ new) (length (jail_buffer d) + 1 - jail_max_bytes d)
     else 0)"

lemma max_pos: "wf_decoder ps d \<Longrightarrow> ps \<noteq> [] \<Longrightarrow> 0 < jail_max_bytes d"
proof -
  assume "wf_decoder ps d" "ps \<noteq> []"
  then obtain p qs where "ps = p # qs" "p \<noteq> []" "length p \<le> jail_max_bytes d"
    by (cases ps) (auto simp: wf_decoder_def)
  then show ?thesis by (cases p) auto
qed

lemma search_start_le:
  "wf_decoder ps d \<Longrightarrow> ps \<noteq> [] \<Longrightarrow> search_start d new \<le> length (jail_buffer d @ new)"
  using max_pos [of ps d] boundary_above_spec [of "length (jail_buffer d) + 1 - jail_max_bytes d"
      "jail_buffer d @ new"]
  by (auto simp: search_start_def)

text \<open>Every match in the text so far with the new piece is seen by the search.\<close>

lemma match_in_span:
  assumes "jail_inv ps d e" "p \<in> set ps" "occurs p (e @ jail_buffer d @ new) s"
  shows "\<exists>k \<ge> search_start d new. s = length e + k \<and> occurs p (jail_buffer d @ new) k"
proof -
  have p: "p \<noteq> []" "utf8 p" "length p \<le> jail_max_bytes d"
    using assms(1, 2) by (auto simp: jail_inv_def wf_decoder_def list_all_iff)
  have "\<not> occurs p (e @ jail_buffer d) s"
    using assms(1, 2) by (auto simp: jail_inv_def no_match_def)
  with occurs_append_inside [of p "e @ jail_buffer d" new s] assms(3)
  have late: "length e + length (jail_buffer d) < s + length p" by force
  have "e = [] \<or> length e + (length (jail_buffer d) + 1 - jail_max_bytes d) \<le> s"
    using late p(3) assms(1) by (auto simp: jail_inv_def)
  then have "length e \<le> s" by auto
  then obtain k where k: "s = length e + k" using le_Suc_ex by blast
  with occurs_shift [of p e "jail_buffer d @ new" k] assms(3)
  have occ: "occurs p (jail_buffer d @ new) k" by simp
  have "search_start d new \<le> k"
  proof (cases "length (jail_buffer d) \<ge> jail_max_bytes d")
    case True
    have "length (jail_buffer d) + 1 - jail_max_bytes d \<le> k" using late p(3) True k by linarith
    moreover have "length (jail_buffer d) + 1 - jail_max_bytes d \<le> length (jail_buffer d @ new)"
      using p by (cases p) auto
    ultimately show ?thesis
      using occurs_from_boundary [OF occ p(2, 1)] True by (simp add: search_start_def)
  qed (simp add: search_start_def)
  with k occ show ?thesis by blast
qed

lemma span_match_is_first:
  assumes "jail_inv ps d e" "first_match ps (jail_buffer d @ new) (search_start d new) (i, s, f)"
  shows "first_match ps (e @ jail_buffer d @ new) 0 (i, length e + s, length e + f)"
proof -
  have "length e + f \<le> s' + length p"
    if pat: "p \<in> set ps" and occ: "occurs p (e @ jail_buffer d @ new) s'" for p s'
  proof -
    obtain k where k: "k \<ge> search_start d new" "s' = length e + k"
      "occurs p (jail_buffer d @ new) k" using match_in_span [OF assms(1) pat occ] by blast
    with assms(2) pat have "f \<le> k + length p"
      unfolding first_match_def prod.case by blast
    with k(2) show ?thesis by simp
  qed
  with assms(2) show ?thesis by (auto simp: first_match_def occurs_shift)
qed

section \<open>One token\<close>

definition output_text :: "decoder_output \<Rightarrow> bytes" where
  "output_text x = (case x of Text s \<Rightarrow> s | StoppedWithText s \<Rightarrow> s | _ \<Rightarrow> [])"

lemma output_text_simps [simp]:
  "output_text (Text s) = s" "output_text (StoppedWithText s) = s"
  "output_text Held = []" "output_text Stopped = []"
  "\<not> stops (Text s)" "stops (StoppedWithText s)" "\<not> stops Held" "stops Stopped"
  by (simp_all add: output_text_def stops_def)

text \<open>What a match leaves of the text: a visible stop sequence is kept, a hidden one is not.\<close>

definition cut_at :: "nat \<Rightarrow> bytes \<Rightarrow> nat \<times> nat \<times> nat \<Rightarrow> bytes" where
  "cut_at vis w m = (case m of (i, s, f) \<Rightarrow> if i \<ge> vis then take f w else take s w)"

definition plain_token :: "stop_config \<Rightarrow> token_id \<Rightarrow> bool" where
  "plain_token c t \<longleftrightarrow> t \<notin> stop_tokens c \<and> t \<notin> visible_stop_tokens c"

lemma matcher_cases:
  assumes "standard_matcher ac" "jail_inv ps d e" "ps \<noteq> []"
  obtains (found) m where "ac ps (jail_buffer d @ new) (search_start d new) = Some m"
      "first_match ps (jail_buffer d @ new) (search_start d new) m"
  | (absent) "ac ps (jail_buffer d @ new) (search_start d new) = None"
      "no_match ps (e @ jail_buffer d @ new)"
proof (cases "ac ps (jail_buffer d @ new) (search_start d new)")
  case None
  have "search_start d new \<le> length (jail_buffer d @ new)" "[] \<notin> set ps"
    using assms(2, 3) search_start_le [of ps d new] by (auto simp: jail_inv_def wf_decoder_def)
  with assms(1) None have "\<forall>p\<in>set ps. \<forall>s\<ge>search_start d new. \<not> occurs p (jail_buffer d @ new) s"
    unfolding standard_matcher_def by fastforce
  then have "no_match ps (e @ jail_buffer d @ new)"
    using match_in_span [OF assms(2)] unfolding no_match_def by blast
  with None show thesis by (rule absent)
next
  case (Some m)
  have "search_start d new \<le> length (jail_buffer d @ new)" "[] \<notin> set ps"
    using assms(2, 3) search_start_le [of ps d new] by (auto simp: jail_inv_def wf_decoder_def)
  with assms(1) Some have "first_match ps (jail_buffer d @ new) (search_start d new) m"
    unfolding standard_matcher_def by fastforce
  with Some show thesis by (rule found)
qed

lemma first_match_boundaries:
  assumes "first_match ps w k (i, s, f)" "utf8 w" "list_all utf8 ps" "[] \<notin> set ps"
  shows "is_char_boundary w s" "is_char_boundary w f"
proof -
  have "ps ! i \<in> set ps" "occurs (ps ! i) w s" "f = s + length (ps ! i)"
    using assms(1) by (auto simp: first_match_def)
  moreover from this(1) assms(4) have "ps ! i \<noteq> []" by auto
  ultimately show "is_char_boundary w s" "is_char_boundary w f"
    using occurs_boundaries [of "ps ! i" w s] assms(2, 3) by (auto simp: list_all_iff)
qed

lemma jail_utf8: "jail_inv ps d e \<Longrightarrow> utf8 new \<Longrightarrow> utf8 (jail_buffer d @ new)"
  by (simp add: jail_inv_def utf8_append)

lemma step_match:
  assumes "jail_inv ps d e" "ps \<noteq> []" "plain_token (dconfig d) t" "utf8 new"
    "append_token tk t (sequence d) = (Inr new, q)"
    "ac ps (jail_buffer d @ new) (search_start d new) = Some m"
    "first_match ps (jail_buffer d @ new) (search_start d new) m"
  shows "\<exists>x. process_token ac tk t d
      = (Inr x, d\<lparr>sequence := q, stopped := True, jail_buffer := []\<rparr>) \<and> stops x
      \<and> output_text x = cut_at (visible_boundary_idx d) (jail_buffer d @ new) m"
proof -
  obtain i s f where m: "m = (i, s, f)" by (cases m)
  have "list_all utf8 ps" "[] \<notin> set ps" "aho_corasick d = Some ps" "\<not> token_only d" "\<not> stopped d"
    using assms(1, 2) by (auto simp: jail_inv_def wf_decoder_def)
  with first_match_boundaries [OF assms(7) [unfolded m] jail_utf8 [OF assms(1, 4)]] assms(3, 5, 6)
  show ?thesis
    by (auto simp: process_token_def plain_token_def m cut_at_def slice_to_def Let_def
        search_start_def)
qed

text \<open>The number of bytes that leave the jail when there is no match.\<close>

definition drained :: "stop_decoder \<Rightarrow> bytes \<Rightarrow> nat" where
  "drained d new = boundary_below (jail_buffer d @ new)
     (length (jail_buffer d @ new) - jail_max_bytes d)"

lemma step_no_match:
  assumes "jail_inv ps d e" "ps \<noteq> []" "plain_token (dconfig d) t" "utf8 new"
    "append_token tk t (sequence d) = (Inr new, q)"
    "ac ps (jail_buffer d @ new) (search_start d new) = None"
  shows "\<exists>x. process_token ac tk t d
      = (Inr x, d\<lparr>sequence := q, jail_buffer := drop (drained d new) (jail_buffer d @ new)\<rparr>)
      \<and> \<not> stops x \<and> output_text x = take (drained d new) (jail_buffer d @ new)"
proof -
  let ?J = "jail_buffer d @ new"
  have "aho_corasick d = Some ps" "\<not> token_only d" "\<not> stopped d"
    using assms(1, 2) by (auto simp: jail_inv_def wf_decoder_def)
  moreover have "length ?J \<le> jail_max_bytes d \<Longrightarrow> drained d new = 0"
    by (simp add: drained_def)
  moreover have "is_char_boundary ?J (drained d new)"
    by (simp add: drained_def boundary_below_boundary)
  moreover have "boundary_below ?J (length (jail_buffer d) + length new - jail_max_bytes d)
      = drained d new" by (simp add: drained_def)
  ultimately show ?thesis using assms(3, 5, 6)
    by (cases "drained d new = 0"; cases "length ?J \<le> jail_max_bytes d")
      (auto simp: process_token_def plain_token_def split_off_def Let_def search_start_def)
qed

lemma drained_inv:
  assumes "jail_inv ps d e" "ps \<noteq> []" "utf8 new" "no_match ps (e @ jail_buffer d @ new)"
  shows "jail_inv ps (d\<lparr>sequence := q, jail_buffer := drop (drained d new) (jail_buffer d @ new)\<rparr>)
    (e @ take (drained d new) (jail_buffer d @ new))"
proof -
  let ?J = "jail_buffer d @ new" and ?k = "drained d new"
  have bnd: "is_char_boundary ?J ?k" by (simp add: drained_def boundary_below_boundary)
  have k: "?k \<le> length ?J - jail_max_bytes d" by (simp add: drained_def boundary_below_le)
  have u: "utf8 (take ?k ?J)" "utf8 (drop ?k ?J)"
    using utf8_take_drop [OF jail_utf8 [OF assms(1, 3)] bnd] by simp_all
  have "e @ take ?k ?J = [] \<or> jail_max_bytes d \<le> length (drop ?k ?J)"
  proof (cases "?k = 0")
    case True
    with assms(1) show ?thesis by (auto simp: jail_inv_def)
  next
    case False
    with k have "jail_max_bytes d \<le> length ?J - ?k" by linarith
    then show ?thesis by (simp del: drop_append length_append)
  qed
  moreover have "(e @ take ?k ?J) @ drop ?k ?J = e @ ?J"
    by (metis append_assoc append_take_drop_id)
  ultimately show ?thesis
    using assms u by (auto simp: jail_inv_def wf_decoder_def utf8_append)
qed

lemma step_token_only:
  assumes "jail_inv [] d e" "plain_token (dconfig d) t" "utf8 new"
    "append_token tk t (sequence d) = (Inr new, q)"
  shows "\<exists>x. process_token ac tk t d = (Inr x, d\<lparr>sequence := q\<rparr>) \<and> \<not> stops x
      \<and> output_text x = new \<and> jail_inv [] (d\<lparr>sequence := q\<rparr>) (e @ new)"
  using assms
  by (auto simp: jail_inv_def wf_decoder_def process_token_def plain_token_def Let_def
      utf8_append no_match_def)

section \<open>Streams of tokens\<close>

text \<open>The pieces of text that the tokenizer returns for a list of tokens.\<close>

fun decode_pieces :: "tokenizer \<Rightarrow> sequence \<Rightarrow> token_id list \<Rightarrow> bytes list option" where
  "decode_pieces tk q [] = Some []"
| "decode_pieces tk q (t # ts) = (case append_token tk t q of
      (Inl e, q) \<Rightarrow> None
    | (Inr s, q) \<Rightarrow> map_option (Cons s) (decode_pieces tk q ts))"

lemma first_match_extend:
  assumes "first_match ps v 0 m"
  shows "first_match ps (v @ u) 0 m \<and> cut_at vis (v @ u) m = cut_at vis v m"
proof -
  obtain i s f where m: "m = (i, s, f)" by (cases m)
  have f: "f \<le> length v" "s \<le> f"
    using assms by (auto simp: m first_match_def occurs_def)
  have "f \<le> s' + length p" if "p \<in> set ps" "occurs p (v @ u) s'" for p s'
  proof (cases "s' + length p \<le> length v")
    case True
    with that occurs_append_inside [of p v u s'] assms show ?thesis
      by (auto simp: m first_match_def)
  qed (use f in simp)
  with assms f show ?thesis by (auto simp: m first_match_def cut_at_def occurs_append1)
qed

lemma match_not_absent: "first_match ps w k m \<Longrightarrow> \<not> no_match ps w"
  by (auto simp: first_match_def no_match_def split: prod.splits)

lemma no_match_prefix: "no_match ps (v @ u) \<Longrightarrow> no_match ps v"
  unfolding no_match_def using occurs_append1 by blast

definition outcome ::
    "bytes list \<Rightarrow> stop_decoder \<Rightarrow> bytes \<Rightarrow> bytes \<Rightarrow> stop_decoder \<Rightarrow> bytes \<Rightarrow> bool" where
  "outcome ps d e w d' out \<longleftrightarrow>
     (if no_match ps (e @ w) then jail_inv ps d' (e @ out) \<and> out @ jail_buffer d' = w
      else stopped d' \<and> jail_buffer d' = [] \<and>
        (\<exists>m. first_match ps (e @ w) 0 m \<and> e @ out = cut_at (visible_boundary_idx d) (e @ w) m))"

lemma step_outcome:
  assumes "standard_matcher ac" "jail_inv ps d e" "plain_token (dconfig d) t" "utf8 new"
    "append_token tk t (sequence d) = (Inr new, q)"
  shows "\<exists>x d'. process_token ac tk t d = (Inr x, d') \<and> dconfig d' = dconfig d
    \<and> visible_boundary_idx d' = visible_boundary_idx d \<and> sequence d' = q
    \<and> outcome ps d e (jail_buffer d @ new) d' (output_text x)
    \<and> stops x = (\<not> no_match ps (e @ jail_buffer d @ new))"
proof (cases "ps = []")
  case True
  with assms(2) have "jail_buffer d = []" "\<And>w. no_match ps w"
    by (simp_all add: jail_inv_def no_match_def)
  moreover obtain x where "process_token ac tk t d = (Inr x, d\<lparr>sequence := q\<rparr>)" "\<not> stops x"
    "output_text x = new" "jail_inv [] (d\<lparr>sequence := q\<rparr>) (e @ new)"
    using step_token_only [of d e t new tk q ac] assms True by blast
  ultimately show ?thesis using True by (simp add: outcome_def)
next
  case False
  show ?thesis
  proof (cases rule: matcher_cases [OF assms(1, 2) False, where new = new, case_names found absent])
    case (found m)
    obtain i s f where m: "m = (i, s, f)" by (cases m)
    let ?m = "(i, length e + s, length e + f)"
    have fm: "first_match ps (e @ jail_buffer d @ new) 0 ?m"
      using span_match_is_first [OF assms(2)] found(2) m by simp
    have "e @ cut_at v (jail_buffer d @ new) m = cut_at v (e @ jail_buffer d @ new) ?m" for v
      by (simp add: cut_at_def m)
    moreover obtain x where "process_token ac tk t d
        = (Inr x, d\<lparr>sequence := q, stopped := True, jail_buffer := []\<rparr>)" "stops x"
        "output_text x = cut_at (visible_boundary_idx d) (jail_buffer d @ new) m"
      using step_match [of ps d e t new tk q ac m] assms False found by blast
    ultimately show ?thesis using fm match_not_absent [OF fm]
      by (auto simp: outcome_def)
  next
    case absent
    obtain x where "process_token ac tk t d
        = (Inr x, d\<lparr>sequence := q, jail_buffer := drop (drained d new) (jail_buffer d @ new)\<rparr>)"
        "\<not> stops x" "output_text x = take (drained d new) (jail_buffer d @ new)"
      using step_no_match [of ps d e t new tk q ac] assms False absent by blast
    with absent(2) drained_inv [OF assms(2) False assms(4) absent(2), of q] show ?thesis
      by (simp add: outcome_def del: take_append drop_append)
  qed
qed

definition outputs_text :: "decoder_output list \<Rightarrow> bytes" where
  "outputs_text xs = concat (map output_text xs)"

lemma outputs_text_simps [simp]:
  "outputs_text [] = []" "outputs_text (x # xs) = output_text x @ outputs_text xs"
  by (simp_all add: outputs_text_def)

lemma outcome_matchI:
  assumes "first_match ps (e @ w) 0 m" "e @ out = cut_at (visible_boundary_idx d) (e @ w) m"
    "stopped d'" "jail_buffer d' = []"
  shows "outcome ps d e w d' out"
  unfolding outcome_def if_not_P [OF match_not_absent [OF assms(1)]] using assms by blast

lemma outcome_shift:
  assumes "visible_boundary_idx d' = visible_boundary_idx d" "outcome ps d' (e @ x) w d2 out"
  shows "outcome ps d e (x @ w) d2 (x @ out)"
proof (cases "no_match ps (e @ x @ w)")
  case True
  with assms(2) show ?thesis by (simp add: outcome_def)
next
  case False
  with assms show ?thesis
    unfolding outcome_def append_assoc if_not_P [OF False] by simp
qed

lemma stream_outcome:
  assumes "standard_matcher ac" "jail_inv ps d e" "list_all (plain_token (dconfig d)) ts"
    "decode_pieces tk (sequence d) ts = Some ws" "list_all utf8 ws"
  shows "\<exists>xs d'. process_tokens ac tk ts d = (Inr xs, d')
    \<and> outcome ps d e (jail_buffer d @ concat ws) d' (outputs_text xs)"
  using assms(2-5)
proof (induction ts arbitrary: d e ws)
  case Nil
  then have "no_match ps (e @ jail_buffer d)" by (simp add: jail_inv_def)
  with Nil show ?case by (simp add: outcome_def)
next
  case (Cons t ts)
  obtain new q ws' where step: "append_token tk t (sequence d) = (Inr new, q)"
      "decode_pieces tk q ts = Some ws'" "ws = new # ws'"
    using Cons.prems(3) by (auto split: prod.splits sum.splits)
  obtain x d' where d': "process_token ac tk t d = (Inr x, d')" "dconfig d' = dconfig d"
      "visible_boundary_idx d' = visible_boundary_idx d" "sequence d' = q"
      "outcome ps d e (jail_buffer d @ new) d' (output_text x)"
      "stops x = (\<not> no_match ps (e @ jail_buffer d @ new))"
    using step_outcome [OF assms(1) Cons.prems(1) _ _ step(1)] Cons.prems step by auto
  show ?case
  proof (cases "stops x")
    case True
    with d' obtain m where m: "first_match ps (e @ jail_buffer d @ new) 0 m" "stopped d'"
        "jail_buffer d' = []"
        "e @ output_text x = cut_at (visible_boundary_idx d) (e @ jail_buffer d @ new) m"
      by (auto simp: outcome_def)
    from first_match_extend [OF m(1), of "concat ws'"]
    have fm: "first_match ps (e @ jail_buffer d @ concat ws) 0 m"
      "e @ output_text x = cut_at (visible_boundary_idx d) (e @ jail_buffer d @ concat ws) m"
      using m(4) step(3) by simp_all
    have "outcome ps d e (jail_buffer d @ concat ws) d' (output_text x)"
      by (rule outcome_matchI [OF fm m(2, 3)])
    with True d' show ?thesis by simp
  next
    case False
    with d' have inv: "jail_inv ps d' (e @ output_text x)"
      "output_text x @ jail_buffer d' = jail_buffer d @ new" by (simp_all add: outcome_def)
    from Cons.IH [OF inv(1), of ws'] Cons.prems step d' obtain xs d2 where
      xs: "process_tokens ac tk ts d' = (Inr xs, d2)"
      "outcome ps d' (e @ output_text x) (jail_buffer d' @ concat ws') d2 (outputs_text xs)" by auto
    have eq: "jail_buffer d @ concat ws = output_text x @ jail_buffer d' @ concat ws'"
      using inv(2) step(3) by (metis append_assoc concat.simps(2))
    from xs(2) have "outcome ps d e (jail_buffer d @ concat ws) d2 (output_text x @ outputs_text xs)"
      unfolding eq by (rule outcome_shift [OF d'(3)])
    with False d' xs(1) show ?thesis by simp
  qed
qed

section \<open>Fresh decoders\<close>

lemma in_set_le_foldr_max: "n \<in> set ns \<Longrightarrow> n \<le> foldr max ns (0::nat)"
  by (induction ns) auto

lemma foldr_max_zero: "list_all (\<lambda>n. n = 0) ns \<Longrightarrow> foldr max ns (0::nat) = 0"
  by (induction ns) auto

definition utf8_config :: "stop_config \<Rightarrow> bool" where
  "utf8_config c \<longleftrightarrow> list_all utf8 (stop_sequences c) \<and> list_all utf8 (visible_stop_sequences c)"

lemma new_jail_inv:
  assumes "utf8_config c"
  shows "jail_inv (all_patterns c) (stop_decoder_new c skip) []"
proof -
  have len: "list_all (\<lambda>p. length p \<le> jail_max_bytes (stop_decoder_new c skip)) (all_patterns c)"
    using in_set_le_foldr_max [of _ "map length (stop_sequences c @ visible_stop_sequences c)"]
    by (auto simp: list_all_iff stop_decoder_new_def Let_def all_patterns_def hidden_patterns_def
        simp del: foldr_append map_append)
  have "jail_max_bytes (stop_decoder_new c skip) = 0" if "all_patterns c = []"
  proof -
    from that have "list_all (\<lambda>n. n = 0) (map length (stop_sequences c @ visible_stop_sequences c))"
      by (auto simp: all_patterns_def hidden_patterns_def filter_empty_conv list_all_iff)
    from foldr_max_zero [OF this] show ?thesis by (simp add: stop_decoder_new_def Let_def)
  qed
  moreover have "list_all utf8 (all_patterns c)" "[] \<notin> set (all_patterns c)"
    using assms by (auto simp: utf8_config_def list_all_iff all_patterns_def hidden_patterns_def)
  moreover have "no_match (all_patterns c) []"
    using \<open>[] \<notin> set (all_patterns c)\<close> by (auto simp: no_match_def occurs_def)
  ultimately show ?thesis
    using len
    by (simp add: jail_inv_def wf_decoder_def)
      (auto simp: stop_decoder_new_def Let_def no_match_def)
qed

section \<open>A matcher\<close>

text \<open>A direct search that satisfies the contract of the automaton.\<close>

definition naive_find :: ac_fn where
  "naive_find ps w k = min_by_key (\<lambda>(i, s, e). e)
     (concat (map (\<lambda>s. map (\<lambda>i. (i, s, s + length (ps ! i)))
        (filter (\<lambda>i. occurs (ps ! i) w s) [0..<length ps])) [k..<Suc (length w)]))"

lemma set_candidates:
  "set (concat (map (\<lambda>s. map (\<lambda>i. (i, s, s + length (ps ! i)))
        (filter (\<lambda>i. occurs (ps ! i) w s) [0..<length ps])) [k..<Suc (length w)]))
   = {(i, s, e). i < length ps \<and> k \<le> s \<and> e = s + length (ps ! i) \<and> occurs (ps ! i) w s}"
  by (auto simp: occurs_def)

lemma naive_find_standard: "standard_matcher naive_find"
proof -
  have "case naive_find ps w k of
        None \<Rightarrow> (\<forall>p\<in>set ps. \<forall>s\<ge>k. \<not> occurs p w s)
      | Some m \<Rightarrow> first_match ps w k m" for ps w k
  proof (cases "naive_find ps w k")
    case None
    then have "{(i, s, e). i < length ps \<and> k \<le> s \<and> e = s + length (ps ! i)
        \<and> occurs (ps ! i) w s} = {}"
      unfolding naive_find_def min_by_key_None_iff using set_candidates [of ps w k] by simp
    then show ?thesis using None by (auto simp: in_set_conv_nth)
  next
    case (Some m)
    from min_by_key_SomeD [OF Some [unfolded naive_find_def]]
    show ?thesis unfolding set_candidates using Some
      by (fastforce simp: first_match_def in_set_conv_nth)
  qed
  then show ?thesis by (simp add: standard_matcher_def)
qed

section \<open>Incremental decoding\<close>

definition token_bytes :: "(token_id \<Rightarrow> bytes) \<Rightarrow> token_id list \<Rightarrow> bytes" where
  "token_bytes tb ids = concat (map tb ids)"

lemma token_bytes_simps [simp]:
  "token_bytes tb [] = []" "token_bytes tb (t # ts) = tb t @ token_bytes tb ts"
  "token_bytes tb (xs @ ys) = token_bytes tb xs @ token_bytes tb ys"
  by (simp_all add: token_bytes_def)

text \<open>
  A byte-level tokenizer: a token stands for bytes, and decoding is the lossy reading of their
  concatenation (\<open>String::from_utf8_lossy\<close>), which keeps valid UTF-8 and ends in the
  replacement character when the last character is incomplete.
\<close>

definition byte_level :: "(token_id \<Rightarrow> bytes) \<Rightarrow> decode_fn \<Rightarrow> bool" where
  "byte_level tb decode \<longleftrightarrow>
     (\<forall>ids skip. utf8 (token_bytes tb ids) \<longrightarrow> decode ids skip = Inr (token_bytes tb ids))
     \<and> (\<forall>ids skip y. utf8 (token_bytes tb ids @ y) \<longrightarrow> \<not> utf8 (token_bytes tb ids) \<longrightarrow>
          (\<exists>s. decode ids skip = Inr s \<and> suffix REPLACEMENT_CHARACTER s))"

definition sequence_inv :: "(token_id \<Rightarrow> bytes) \<Rightarrow> token_id list \<Rightarrow> sequence \<Rightarrow> bytes \<Rightarrow> bool" where
  "sequence_inv tb seen q e \<longleftrightarrow> (\<exists>old. seen = old @ token_ids q \<and> prefix_index q \<le> length (token_ids q)
     \<and> utf8 (token_bytes tb old)
     \<and> cached_prefix q = token_bytes tb (take (prefix_index q) (token_ids q))
     \<and> utf8 (cached_prefix q) \<and> e = token_bytes tb old @ cached_prefix q
     \<and> (utf8 (token_bytes tb (token_ids q)) \<longrightarrow>
          token_bytes tb (drop (prefix_index q) (token_ids q)) = []))"

lemma boundary_below_at: "is_char_boundary s i \<Longrightarrow> boundary_below s i = i"
  by (cases i) simp_all

lemma boundary_at_append: "utf8 (x @ y) \<Longrightarrow> utf8 x \<Longrightarrow> is_char_boundary (x @ y) (length x)"
  using utf8_append [of x y] utf8_hd_not_cont [of y] is_char_boundary_append [of x y] by blast

lemma take_drop_bytes:
  "token_bytes tb (take i ids) @ token_bytes tb (drop i ids) = token_bytes tb ids"
  by (metis append_take_drop_id token_bytes_simps(3))

text \<open>The cached prefix is recomputed only when that changes nothing.\<close>

lemma recompute_prefix:
  assumes "byte_level tb decode" "ids \<noteq> []" "utf8 (token_bytes tb ids @ y)"
    "token_bytes tb (take i ids) = []"
    "utf8 (token_bytes tb ids) \<Longrightarrow> token_bytes tb (drop i ids) = []" "i \<le> length ids"
  shows "\<exists>j \<le> length ids. map_sum id (\<lambda>p. if \<not> suffix REPLACEMENT_CHARACTER p then (p, length ids)
      else ([], i)) (decode ids skip) = Inr ([], j) \<and> token_bytes tb (take j ids) = []
      \<and> (utf8 (token_bytes tb ids) \<longrightarrow> token_bytes tb (drop j ids) = [])"
proof (cases "utf8 (token_bytes tb ids)")
  case True
  with assms(5) take_drop_bytes [of tb i ids] assms(4) have "token_bytes tb ids = []" by simp
  with True assms(1) show ?thesis
    by (intro exI [of _ "length ids"]) (simp add: byte_level_def REPLACEMENT_CHARACTER_def)
next
  case False
  with assms(1, 3) obtain s where "decode ids skip = Inr s" "suffix REPLACEMENT_CHARACTER s"
    unfolding byte_level_def by blast
  with False assms(4, 6) show ?thesis by (intro exI [of _ i]) simp
qed

lemma decode_step_emits:
  assumes bl: "byte_level tb decode"
    and q: "utf8 (token_bytes tb old)" "i \<le> length ids" "c = token_bytes tb (take i ids)" "utf8 c"
      "utf8 (token_bytes tb ids) \<longrightarrow> token_bytes tb (drop i ids) = []"
    and pre: "(if c = [] \<and> ids \<noteq> [] then
        map_sum id (\<lambda>p. if \<not> suffix REPLACEMENT_CHARACTER p then (p, length ids) else (c, i0))
          (decode ids skip) else Inr (c, i0)) = Inr (c, i)"
    and all: "utf8 (token_bytes tb (old @ ids @ [t]) @ y)"
      "\<not> suffix REPLACEMENT_CHARACTER (token_bytes tb (old @ ids @ [t]))"
  shows "\<exists>r ids' p j old'. default_decode_step decode t ids c i0 skip = (Inr r, ids', p, j)
    \<and> old' @ ids' = old @ ids @ [t] \<and> j \<le> length ids' \<and> utf8 (token_bytes tb old')
    \<and> p = token_bytes tb (take j ids') \<and> utf8 p
    \<and> (utf8 (token_bytes tb ids') \<longrightarrow> token_bytes tb (drop j ids') = [])
    \<and> token_bytes tb old' @ p = token_bytes tb old @ c @ (case r of Some s \<Rightarrow> s | None \<Rightarrow> [])
    \<and> utf8 (case r of Some s \<Rightarrow> s | None \<Rightarrow> [])"
proof -
  let ?ids = "ids @ [t]"
  have valid: "utf8 (token_bytes tb ?ids @ y)"
    using all(1) q(1) utf8_append [of "token_bytes tb old"] by simp
  have split: "token_bytes tb ?ids = c @ token_bytes tb (drop i ids) @ tb t"
    using take_drop_bytes [of tb i ids] q(3) by simp
  show ?thesis
  proof (cases "utf8 (token_bytes tb ?ids)")
    case False
    with bl valid obtain s where s: "decode ?ids skip = Inr s" "suffix REPLACEMENT_CHARACTER s"
      unfolding byte_level_def by blast
    with q False pre show ?thesis
      by (intro exI [of _ None] exI [of _ ?ids] exI [of _ c] exI [of _ i] exI [of _ old])
        (auto simp: default_decode_step_def Let_def)
  next
    case True
    let ?new = "token_bytes tb (drop i ids) @ tb t"
    have dec: "decode ?ids skip = Inr (token_bytes tb ?ids)"
      using bl True unfolding byte_level_def by blast
    have new: "utf8 ?new" using True q(4) utf8_append [of c ?new] split by simp
    have norep: "\<not> suffix REPLACEMENT_CHARACTER (token_bytes tb ?ids)"
      using all(2) suffix_appendI [of REPLACEMENT_CHARACTER "token_bytes tb ?ids" "token_bytes tb old"]
      by auto
    show ?thesis
    proof (cases "?new = []")
      case True
      with q dec split pre show ?thesis
        by (intro exI [of _ None] exI [of _ ?ids] exI [of _ c] exI [of _ i] exI [of _ old])
          (auto simp: default_decode_step_def Let_def)
    next
      case False
      have "boundary_below (token_bytes tb ?ids) (length c) = length c"
        using boundary_below_at [OF boundary_at_append [of c ?new]] True split q(4) by simp
      moreover have "decode (drop i ?ids) skip = Inr ?new"
        using bl new q(2) unfolding byte_level_def by (auto simp: token_bytes_def)
      moreover have "length c < length (token_bytes tb ?ids)" using False split by auto
      ultimately have "default_decode_step decode t ids c i0 skip
          = (Inr (Some ?new), drop i ?ids, ?new, length ?ids - i)"
        using dec norep q(2) pre split by (auto simp: default_decode_step_def Let_def)
      moreover have "utf8 (token_bytes tb (old @ take i ids))"
        using q(1, 3, 4) by (simp add: utf8_append)
      ultimately show ?thesis using q(2, 3) new
        by (intro exI [of _ "Some ?new"] exI [of _ "drop i ?ids"] exI [of _ ?new]
            exI [of _ "length ?ids - i"] exI [of _ "old @ take i ids"]) simp
    qed
  qed
qed

lemma append_token_inv:
  assumes tk: "tk_decode_step tk = default_decode_step decode" and bl: "byte_level tb decode"
    and inv: "sequence_inv tb seen q e" and ok: "utf8 (token_bytes tb (seen @ [t]) @ y)"
      "\<not> suffix REPLACEMENT_CHARACTER (token_bytes tb (seen @ [t]))"
  shows "\<exists>s q'. append_token tk t q = (Inr s, q') \<and> sequence_inv tb (seen @ [t]) q' (e @ s) \<and> utf8 s"
proof -
  let ?ids = "token_ids q" and ?c = "cached_prefix q"
  obtain old where old: "seen = old @ ?ids" "prefix_index q \<le> length ?ids" "utf8 (token_bytes tb old)"
      "?c = token_bytes tb (take (prefix_index q) ?ids)" "utf8 ?c" "e = token_bytes tb old @ ?c"
      "utf8 (token_bytes tb ?ids) \<longrightarrow> token_bytes tb (drop (prefix_index q) ?ids) = []"
    using inv by (auto simp: sequence_inv_def)
  have ids: "utf8 (token_bytes tb ?ids @ tb t @ y)"
    using ok(1) old(1, 3) by (simp add: utf8_append)
  have "\<exists>i. (if ?c = [] \<and> ?ids \<noteq> [] then
        map_sum id (\<lambda>p. if \<not> suffix REPLACEMENT_CHARACTER p then (p, length ?ids)
          else (?c, prefix_index q)) (decode ?ids (skip_special_tokens q))
        else Inr (?c, prefix_index q)) = Inr (?c, i) \<and> i \<le> length ?ids
      \<and> ?c = token_bytes tb (take i ?ids)
      \<and> (utf8 (token_bytes tb ?ids) \<longrightarrow> token_bytes tb (drop i ?ids) = [])"
  proof (cases "?c = [] \<and> ?ids \<noteq> []")
    case True
    then have c: "?c = []" "?ids \<noteq> []" by simp_all
    have "token_bytes tb (take (prefix_index q) ?ids) = []" using old(4) c(1) by simp
    from recompute_prefix [OF bl c(2) ids this, of "skip_special_tokens q"] old(2, 7)
    obtain j where "j \<le> length ?ids" "map_sum id (\<lambda>p. if \<not> suffix REPLACEMENT_CHARACTER p
        then (p, length ?ids) else ([], prefix_index q)) (decode ?ids (skip_special_tokens q))
        = Inr ([], j)" "token_bytes tb (take j ?ids) = []"
        "utf8 (token_bytes tb ?ids) \<longrightarrow> token_bytes tb (drop j ?ids) = []" by blast
    then show ?thesis unfolding c(1) using c(2) by (intro exI [of _ j]) simp
  next
    case False
    with old show ?thesis by (intro exI [of _ "prefix_index q"]) auto
  qed
  then obtain i where i: "(if ?c = [] \<and> ?ids \<noteq> [] then
        map_sum id (\<lambda>p. if \<not> suffix REPLACEMENT_CHARACTER p then (p, length ?ids)
          else (?c, prefix_index q)) (decode ?ids (skip_special_tokens q))
        else Inr (?c, prefix_index q)) = Inr (?c, i)" "i \<le> length ?ids"
      "?c = token_bytes tb (take i ?ids)"
      "utf8 (token_bytes tb ?ids) \<longrightarrow> token_bytes tb (drop i ?ids) = []"
    by blast
  have ok': "utf8 (token_bytes tb (old @ ?ids @ [t]) @ y)"
    "\<not> suffix REPLACEMENT_CHARACTER (token_bytes tb (old @ ?ids @ [t]))"
    using ok old(1) by simp_all
  obtain r ids' p j old' where st: "default_decode_step decode t ?ids ?c (prefix_index q)
      (skip_special_tokens q) = (Inr r, ids', p, j)" "old' @ ids' = old @ ?ids @ [t]"
      "j \<le> length ids'" "utf8 (token_bytes tb old')" "p = token_bytes tb (take j ids')" "utf8 p"
      "utf8 (token_bytes tb ids') \<longrightarrow> token_bytes tb (drop j ids') = []"
      "token_bytes tb old' @ p = token_bytes tb old @ ?c @ (case r of Some s \<Rightarrow> s | None \<Rightarrow> [])"
      "utf8 (case r of Some s \<Rightarrow> s | None \<Rightarrow> [])"
    using decode_step_emits [OF bl old(3) i(2, 3) old(5) i(4) i(1) ok'] by blast
  let ?q = "q\<lparr>token_ids := ids', cached_prefix := p, prefix_index := j,
    total_tokens := total_tokens q + 1\<rparr>"
  have "append_token tk t q = (Inr (case r of Some s \<Rightarrow> s | None \<Rightarrow> []), ?q)"
    by (simp add: append_token_def tk st(1) Let_def)
  moreover have "sequence_inv tb (seen @ [t]) ?q (e @ (case r of Some s \<Rightarrow> s | None \<Rightarrow> []))"
    unfolding sequence_inv_def using st old by (intro exI [of _ old']) simp
  ultimately show ?thesis using st(9) by blast
qed

text \<open>
  For a text that contains no replacement character, all pieces together are the bytes of the
  tokens.
\<close>

definition no_replacement :: "(token_id \<Rightarrow> bytes) \<Rightarrow> token_id list \<Rightarrow> bool" where
  "no_replacement tb ts \<longleftrightarrow>
     list_all (\<lambda>k. \<not> suffix REPLACEMENT_CHARACTER (token_bytes tb (take k ts))) [0..<Suc (length ts)]"

lemma no_replacement_prefix:
  "no_replacement tb (xs @ ys) \<Longrightarrow> \<not> suffix REPLACEMENT_CHARACTER (token_bytes tb xs)"
proof -
  assume "no_replacement tb (xs @ ys)"
  moreover have "length xs \<in> set [0..<Suc (length (xs @ ys))]" by simp
  ultimately have "\<not> suffix REPLACEMENT_CHARACTER (token_bytes tb (take (length xs) (xs @ ys)))"
    unfolding no_replacement_def list_all_iff by blast
  then show ?thesis by simp
qed

lemma decode_pieces_inv:
  assumes tk: "tk_decode_step tk = default_decode_step decode" and bl: "byte_level tb decode"
    and "sequence_inv tb seen q e" "utf8 (token_bytes tb (seen @ ts))" "no_replacement tb (seen @ ts)"
  shows "\<exists>ws q'. decode_pieces tk q ts = Some ws \<and> list_all utf8 ws
    \<and> sequence_inv tb (seen @ ts) q' (e @ concat ws)"
  using assms(3-5)
proof (induction ts arbitrary: seen q e)
  case Nil
  then show ?case by auto
next
  case (Cons t ts)
  have ok: "utf8 (token_bytes tb (seen @ [t]) @ token_bytes tb ts)"
    "\<not> suffix REPLACEMENT_CHARACTER (token_bytes tb (seen @ [t]))"
    using Cons.prems no_replacement_prefix [of tb "seen @ [t]" ts] by simp_all
  obtain s q1 where s: "append_token tk t q = (Inr s, q1)"
      "sequence_inv tb (seen @ [t]) q1 (e @ s)" "utf8 s"
    using append_token_inv [OF tk bl Cons.prems(1) ok] by blast
  from Cons.IH [OF s(2)] Cons.prems obtain ws q' where
    "decode_pieces tk q1 ts = Some ws" "list_all utf8 ws"
    "sequence_inv tb (seen @ t # ts) q' (e @ s @ concat ws)" by auto
  with s show ?case by auto
qed

lemma sequence_inv_complete:
  assumes "sequence_inv tb seen q e" "utf8 (token_bytes tb seen)"
  shows "e = token_bytes tb seen"
proof -
  obtain old where old: "seen = old @ token_ids q" "utf8 (token_bytes tb old)"
      "cached_prefix q = token_bytes tb (take (prefix_index q) (token_ids q))"
      "e = token_bytes tb old @ cached_prefix q"
      "utf8 (token_bytes tb (token_ids q)) \<longrightarrow>
          token_bytes tb (drop (prefix_index q) (token_ids q)) = []"
    using assms(1) by (auto simp: sequence_inv_def)
  from assms(2) old(1, 2) have "utf8 (token_bytes tb (token_ids q))" by (simp add: utf8_append)
  with old take_drop_bytes [of tb "prefix_index q" "token_ids q"] show ?thesis by simp
qed

lemma new_sequence_inv: "sequence_inv tb [] (new_with_options skip) []"
  by (auto simp: sequence_inv_def new_with_options_def)

lemma decode_pieces_complete:
  assumes "tk_decode_step tk = default_decode_step decode" "byte_level tb decode"
    "utf8 (token_bytes tb ts)" "no_replacement tb ts"
  shows "\<exists>ws. decode_pieces tk (new_with_options skip) ts = Some ws \<and> list_all utf8 ws
    \<and> concat ws = token_bytes tb ts"
proof -
  obtain ws q' where "decode_pieces tk (new_with_options skip) ts = Some ws" "list_all utf8 ws"
      "sequence_inv tb ts q' (concat ws)"
    using decode_pieces_inv [OF assms(1, 2) new_sequence_inv, of ts skip] assms(3, 4) by auto
  with sequence_inv_complete assms(3) show ?thesis by blast
qed

section \<open>Well-typed strings\<close>

text \<open>A tokenizer written in safe Rust returns strings, so valid UTF-8, and does not panic.\<close>

definition string_tokenizer :: "tokenizer \<Rightarrow> bool" where
  "string_tokenizer tk \<longleftrightarrow>
     (\<forall>ids skip. case tk_decode tk ids skip of Inl e \<Rightarrow> e \<noteq> Panic | Inr s \<Rightarrow> utf8 s)
     \<and> (\<forall>t ids p i skip. case fst (tk_decode_step tk t ids p i skip) of
          Inl e \<Rightarrow> e \<noteq> Panic | Inr x \<Rightarrow> (case x of None \<Rightarrow> True | Some s \<Rightarrow> utf8 s))"

definition string_ok :: "bytes list \<Rightarrow> stop_decoder \<Rightarrow> bool" where
  "string_ok ps d \<longleftrightarrow> wf_decoder ps d \<and> utf8 (jail_buffer d)"

lemma append_token_string:
  assumes "string_tokenizer tk"
  shows "case fst (append_token tk t q) of Inl e \<Rightarrow> e \<noteq> Panic | Inr s \<Rightarrow> utf8 s"
proof -
  obtain r ids p i where st: "tk_decode_step tk t (token_ids q) (cached_prefix q) (prefix_index q)
      (skip_special_tokens q) = (r, ids, p, i)" by (metis prod_cases4)
  have "case r of Inl e \<Rightarrow> e \<noteq> Panic | Inr x \<Rightarrow> (case x of None \<Rightarrow> True | Some s \<Rightarrow> utf8 s)"
    using assms st unfolding string_tokenizer_def by (metis fst_conv)
  then show ?thesis
    by (auto simp: append_token_def st Let_def split: sum.splits option.splits)
qed

lemma slice_string: "utf8 s \<Longrightarrow> is_char_boundary s i \<Longrightarrow> \<exists>out. slice_to s i = Some out \<and> utf8 out"
  using utf8_take_drop [of s i] by (simp add: slice_to_def)

definition good_result :: "bytes list \<Rightarrow> (decode_error + decoder_output) \<times> stop_decoder \<Rightarrow> bool" where
  "good_result ps r \<longleftrightarrow> string_ok ps (snd r)
     \<and> (case fst r of Inl e \<Rightarrow> e \<noteq> Panic | Inr x \<Rightarrow> utf8 (output_text x))"

lemma good_resultI:
  "string_ok ps d \<Longrightarrow> utf8 (output_text x) \<Longrightarrow> good_result ps (Inr x, d)"
  "string_ok ps d \<Longrightarrow> e \<noteq> Panic \<Longrightarrow> good_result ps (Inl e, d)"
  by (simp_all add: good_result_def)

lemma string_ok_frame [simp]:
  "string_ok ps (d\<lparr>stopped := b\<rparr>) = string_ok ps d"
  "string_ok ps (d\<lparr>sequence := q\<rparr>) = string_ok ps d"
  "string_ok ps (d\<lparr>jail_buffer := s\<rparr>) \<longleftrightarrow> wf_decoder ps d \<and> utf8 s"
  "wf_decoder ps (d\<lparr>stopped := b\<rparr>) = wf_decoder ps d"
  "wf_decoder ps (d\<lparr>sequence := q\<rparr>) = wf_decoder ps d"
  "wf_decoder ps (d\<lparr>jail_buffer := s\<rparr>) = wf_decoder ps d"
  by (simp_all add: string_ok_def wf_decoder_def)

text \<open>The part of \<open>process_token\<close> after the new text has been appended to the jail.\<close>

lemma search_result_string:
  assumes "standard_matcher ac" "string_ok ps d" "utf8 new" "ps \<noteq> []"
    "append_token tk t (sequence d) = (Inr new, q)" "\<not> stopped d" "plain_token (dconfig d) t"
  shows "good_result ps (process_token ac tk t d)"
proof -
  let ?J = "jail_buffer d @ new"
  have wf: "wf_decoder ps d" "utf8 ?J" "aho_corasick d = Some ps" "\<not> token_only d" "[] \<notin> set ps"
      "list_all utf8 ps"
    using assms(2-4) by (auto simp: string_ok_def wf_decoder_def utf8_append)
  have in_text: "search_start d new \<le> length ?J" by (rule search_start_le [OF wf(1) assms(4)])
  show ?thesis
  proof (cases "ac ps ?J (search_start d new)")
    case (Some m)
    obtain i s f where m: "m = (i, s, f)" by (cases m)
    have "first_match ps ?J (search_start d new) (i, s, f)"
      using assms(1) Some in_text wf(5) unfolding standard_matcher_def m by fastforce
    from first_match_boundaries [OF this wf(2, 6, 5)] wf(2)
    have "\<exists>out. slice_to ?J s = Some out \<and> utf8 out" "\<exists>out. slice_to ?J f = Some out \<and> utf8 out"
      using slice_string by blast+
    then show ?thesis using assms(5-7) wf Some
      by (auto simp: process_token_def plain_token_def m Let_def search_start_def good_result_def)
  next
    case None
    let ?k = "drained d new"
    have bb: "boundary_below ?J (length (jail_buffer d) + length new - jail_max_bytes d) = ?k"
      by (simp add: drained_def)
    have bnd: "is_char_boundary ?J ?k" by (simp add: drained_def boundary_below_boundary)
    have "utf8 (take ?k ?J)" "utf8 (drop ?k ?J)" using utf8_take_drop [OF wf(2) bnd] by simp_all
    then have "split_off ?J ?k = Some (take ?k ?J, drop ?k ?J)" "utf8 (take ?k ?J)" "utf8 (drop ?k ?J)"
      using bnd by (simp_all add: split_off_def)
    then show ?thesis using assms(5-7) wf None bb
      by (auto simp: process_token_def plain_token_def Let_def search_start_def good_result_def
          simp del: take_append drop_append)
  qed
qed

lemma process_token_string:
  assumes "standard_matcher ac" "string_tokenizer tk" "string_ok ps d"
  shows "good_result ps (process_token ac tk t d)"
proof (cases "stopped d \<or> \<not> plain_token (dconfig d) t")
  case True
  have "case tk_decode tk [t] (skip_special_tokens (sequence d)) of Inl e \<Rightarrow> e \<noteq> Panic | Inr s \<Rightarrow> utf8 s"
    using assms(2) unfolding string_tokenizer_def by blast
  with True assms(3) show ?thesis
    by (auto simp: process_token_def plain_token_def good_result_def string_ok_def utf8_append
        split: sum.splits)
next
  case False
  then have d: "\<not> stopped d" "plain_token (dconfig d) t" by simp_all
  obtain r q where ap: "append_token tk t (sequence d) = (r, q)" by (cases "append_token tk t (sequence d)")
  show ?thesis
  proof (cases r)
    case (Inl e)
    with append_token_string [OF assms(2), of t "sequence d"] ap have "e \<noteq> Panic" by simp
    with Inl ap d assms(3) show ?thesis
      by (simp add: process_token_def plain_token_def good_result_def)
  next
    case (Inr new)
    with append_token_string [OF assms(2), of t "sequence d"] ap have new: "utf8 new" by simp
    show ?thesis
    proof (cases "ps = []")
      case True
      then have "token_only d" using assms(3) by (simp add: string_ok_def wf_decoder_def)
      with Inr ap d assms(3) new show ?thesis
        by (simp add: process_token_def plain_token_def good_result_def Let_def)
    next
      case False
      with search_result_string [OF assms(1, 3) new False _ d] ap Inr show ?thesis by blast
    qed
  qed
qed

lemma process_tokens_string:
  assumes "standard_matcher ac" "string_tokenizer tk" "string_ok ps d"
  shows "case process_tokens ac tk ts d of (r, d') \<Rightarrow> string_ok ps d' \<and>
    (case r of Inl e \<Rightarrow> e = DecodeError | Inr xs \<Rightarrow> list_all (\<lambda>x. utf8 (output_text x)) xs)"
  using assms(3)
proof (induction ts arbitrary: d)
  case (Cons t ts)
  obtain r d1 where st: "process_token ac tk t d = (r, d1)" by (cases "process_token ac tk t d")
  have good: "string_ok ps d1" "case r of Inl e \<Rightarrow> e \<noteq> Panic | Inr x \<Rightarrow> utf8 (output_text x)"
    using process_token_string [OF assms(1, 2) Cons.prems, of t] st by (simp_all add: good_result_def)
  show ?case
  proof (cases r)
    case (Inl e)
    with good st show ?thesis by (cases e) simp_all
  next
    case (Inr x)
    obtain r2 d2 where "process_tokens ac tk ts d1 = (r2, d2)" by (cases "process_tokens ac tk ts d1")
    with Inr good st Cons.IH [OF good(1)] show ?thesis by (cases r2) auto
  qed
qed simp

section \<open>Properties\<close>

text \<open>A byte-level tokenizer for the witnesses: the bytes of a token are a fixed table.\<close>

definition table_bytes :: "token_id \<Rightarrow> bytes" where
  "table_bytes t = (if t = 1 then [0x61] else if t = 2 then [0xC3] else if t = 3 then [0xA9]
     else if t = 4 then [0x62, 0x62] else [])"

definition table_decode :: decode_fn where
  "table_decode ids skip = (if utf8 (token_bytes table_bytes ids)
     then Inr (token_bytes table_bytes ids) else Inr REPLACEMENT_CHARACTER)"

definition table_tokenizer :: tokenizer where
  "table_tokenizer = \<lparr>tk_decode = table_decode, tk_decode_step = default_decode_step table_decode\<rparr>"

lemma table_byte_level: "byte_level table_bytes table_decode"
  by (auto simp: byte_level_def table_decode_def)

lemma utf8_REPLACEMENT: "utf8 REPLACEMENT_CHARACTER"
  by (simp add: REPLACEMENT_CHARACTER_def lead_len_def is_cont_def)

text \<open>
  Incremental decoding of a byte-level tokenizer is exact. When the tokens make up a
  complete text without replacement characters, every step succeeds, every piece is valid
  UTF-8 although characters may be cut across tokens, and the pieces together are the bytes
  of the tokens.
\<close>

theorem incremental_decode_exact:
  assumes "tk_decode_step tk = default_decode_step decode" "byte_level tb decode"
    and "utf8 (token_bytes tb ts)" "no_replacement tb ts"
  shows "\<exists>ws. decode_pieces tk (new_with_options skip) ts = Some ws \<and> list_all utf8 ws
    \<and> concat ws = token_bytes tb ts"
  using assms by (rule decode_pieces_complete)

theorem incremental_decode_exact_witness:
  "\<exists>ws. decode_pieces table_tokenizer (new_with_options True) [1, 2, 3, 4] = Some ws
    \<and> list_all utf8 ws \<and> concat ws = [0x61, 0xC3, 0xA9, 0x62, 0x62]"
  using incremental_decode_exact [of table_tokenizer table_decode table_bytes "[1, 2, 3, 4]" True]
    table_byte_level
  by (simp add: table_tokenizer_def table_bytes_def lead_len_def is_cont_def no_replacement_def
      REPLACEMENT_CHARACTER_def suffix_def upt_rec)

text \<open>
  C19: Decoding token by token with stop sequences equals one search of the whole text. If no
  stop sequence occurs in the text of the tokens, everything is emitted but the part still
  held, and decoding goes on. Otherwise decoding stops, and what was emitted is the text up to
  the match that ends first, without the match if the sequence is hidden and with it if it is
  visible. The window of held text and the restricted search never miss or invent a match.
\<close>

theorem stop_stream_exact:
  assumes "standard_matcher ac" "tk_decode_step tk = default_decode_step decode"
    and "byte_level tb decode" "utf8_config c" "list_all (plain_token c) ts"
    and "utf8 (token_bytes tb ts)" "no_replacement tb ts"
  shows "\<exists>xs d. process_tokens ac tk ts (stop_decoder_new c skip) = (Inr xs, d) \<and>
    (if no_match (all_patterns c) (token_bytes tb ts)
     then \<not> stopped d \<and> outputs_text xs @ jail_buffer d = token_bytes tb ts
     else stopped d \<and> (\<exists>m. first_match (all_patterns c) (token_bytes tb ts) 0 m
       \<and> outputs_text xs = cut_at (length (hidden_patterns c)) (token_bytes tb ts) m))"
proof -
  let ?d = "stop_decoder_new c skip"
  have d: "dconfig ?d = c" "sequence ?d = new_with_options skip" "jail_buffer ?d = []"
      "visible_boundary_idx ?d = length (hidden_patterns c)"
    by (simp_all add: stop_decoder_new_def Let_def)
  obtain ws where ws: "decode_pieces tk (new_with_options skip) ts = Some ws" "list_all utf8 ws"
      "concat ws = token_bytes tb ts"
    using decode_pieces_complete [OF assms(2, 3, 6, 7)] by blast
  have "list_all (plain_token (dconfig ?d)) ts" "decode_pieces tk (sequence ?d) ts = Some ws"
    using assms(5) ws(1) d by simp_all
  from stream_outcome [OF assms(1) new_jail_inv [OF assms(4)] this ws(2)] obtain xs d' where
    "process_tokens ac tk ts ?d = (Inr xs, d')"
    "outcome (all_patterns c) ?d [] (token_bytes tb ts) d' (outputs_text xs)"
    unfolding d ws(3) append_Nil by blast
  then show ?thesis
    unfolding outcome_def d append_Nil jail_inv_def by (intro exI [of _ xs] exI [of _ d']) metis
qed

definition bb_config :: stop_config where
  "bb_config = with_stop_sequence [0x62] stop_config_default"

theorem stop_stream_exact_witness:
  "\<exists>xs d. process_tokens naive_find table_tokenizer [1, 2, 3, 4] (stop_decoder_new bb_config True)
      = (Inr xs, d) \<and>
    (if no_match (all_patterns bb_config) [0x61, 0xC3, 0xA9, 0x62, 0x62]
     then \<not> stopped d \<and> outputs_text xs @ jail_buffer d = [0x61, 0xC3, 0xA9, 0x62, 0x62]
     else stopped d \<and> (\<exists>m. first_match (all_patterns bb_config) [0x61, 0xC3, 0xA9, 0x62, 0x62] 0 m
       \<and> outputs_text xs = cut_at (length (hidden_patterns bb_config)) [0x61, 0xC3, 0xA9, 0x62, 0x62] m))"
proof -
  have tok: "token_bytes table_bytes [1, 2, 3, 4] = [0x61, 0xC3, 0xA9, 0x62, 0x62]"
    by (simp add: table_bytes_def)
  have cfg: "utf8_config bb_config" "list_all (plain_token bb_config) [1, 2, 3, 4]"
    by (simp_all add: bb_config_def with_stop_sequence_def stop_config_default_def utf8_config_def
        plain_token_def lead_len_def)
  have whole: "utf8 (token_bytes table_bytes [1, 2, 3, 4])" "no_replacement table_bytes [1, 2, 3, 4]"
    by (simp_all add: table_bytes_def lead_len_def is_cont_def no_replacement_def
        REPLACEMENT_CHARACTER_def suffix_def upt_rec)
  have tk: "tk_decode_step table_tokenizer = default_decode_step table_decode"
    by (simp add: table_tokenizer_def)
  from stop_stream_exact [OF naive_find_standard tk table_byte_level cfg whole, of True]
  show ?thesis unfolding tok .
qed

text \<open>
  Every string the decoder produces is valid UTF-8 and no slice of it panics, for every
  configuration of strings and every sequence of tokens, stop tokens included. The only error
  is one of the tokenizer, and the held text stays a valid string.
\<close>

theorem decoder_strings_valid:
  assumes "standard_matcher ac" "string_tokenizer tk" "utf8_config c"
  shows "case process_tokens ac tk ts (stop_decoder_new c skip) of (r, d) \<Rightarrow> utf8 (jail_buffer d) \<and>
    (case r of Inl e \<Rightarrow> e = DecodeError | Inr xs \<Rightarrow> list_all (\<lambda>x. utf8 (output_text x)) xs)"
proof -
  have "string_ok (all_patterns c) (stop_decoder_new c skip)"
    using new_jail_inv [OF assms(3)] by (simp add: jail_inv_def string_ok_def)
  from process_tokens_string [OF assms(1, 2) this, of ts] show ?thesis
    by (auto simp: string_ok_def split: prod.splits)
qed

definition char_tokenizer :: tokenizer where
  "char_tokenizer = \<lparr>tk_decode = (\<lambda>ids skip. Inr [0x61]),
     tk_decode_step = (\<lambda>t ids p i skip. (Inr (Some [0x61]), ids, p, i))\<rparr>"

theorem decoder_strings_valid_witness:
  "case process_tokens naive_find char_tokenizer [7, 8] (stop_decoder_new bb_config True) of
    (r, d) \<Rightarrow> utf8 (jail_buffer d) \<and>
    (case r of Inl e \<Rightarrow> e = DecodeError | Inr xs \<Rightarrow> list_all (\<lambda>x. utf8 (output_text x)) xs)"
proof (rule decoder_strings_valid [OF naive_find_standard])
  show "string_tokenizer char_tokenizer"
    by (simp add: string_tokenizer_def char_tokenizer_def lead_len_def)
  show "utf8_config bb_config"
    by (simp add: bb_config_def with_stop_sequence_def stop_config_default_def utf8_config_def
        lead_len_def)
qed

text \<open>A stop token releases the held text, so that nothing generated before it is lost.\<close>

lemma stop_token_releases:
  assumes "jail_inv ps d e" "t \<in> stop_tokens (dconfig d)"
  shows "\<exists>x. process_token ac tk t d = (Inr x, d\<lparr>stopped := True, jail_buffer := []\<rparr>)
    \<and> stops x \<and> output_text x = jail_buffer d"
  using assms by (cases "jail_buffer d = []") (auto simp: process_token_def jail_inv_def)

text \<open>Resetting a decoder makes it as good as new.\<close>

lemma reset_is_new:
  assumes "string_ok (all_patterns c) d" "dconfig d = c" "utf8_config c"
  shows "jail_inv (all_patterns c) (decoder_reset d) []"
  using new_jail_inv [OF assms(3), of True] assms(1)
  by (auto simp: jail_inv_def decoder_reset_def wf_decoder_def string_ok_def
      stop_decoder_new_def Let_def)

end
