(* ===== verification/MeshChunking.thy ===== *)
theory MeshChunking
  imports Prelude "HOL-Library.AList" "HOL-Library.Multiset"
begin

text \<open>
  Oversized stream values of the mesh: the sender's chunking and batching
  (\<open>crates/mesh/src/chunking.rs\<close>) and the receiver's reassembly
  (\<open>crates/mesh/src/chunk_assembler.rs\<close>) with its generation check, its two memory bounds and
  its garbage collection. A call of \<open>receive_chunk\<close> is one step. The map of assemblies is an
  association list, whose order stands for the iteration order; \<open>slot\<close> is the size of an
  \<open>Option<Bytes>\<close>. Notifying the subscribers of a key appends to a list of deliveries.
\<close>

section \<open>Sender\<close>

type_synonym payload = "u8 list"

record stream_entry =
  entry_key :: string
  entry_generation :: u64
  chunk_index :: u32
  total_chunks :: u32
  data :: payload

text \<open>The generation counter: \<open>fetch_add\<close> returns the old value.\<close>

definition next_generation :: "u64 \<Rightarrow> u64 \<times> u64" where
  "next_generation c = (c, c + 1)"

definition DEFAULT_MAX_CHUNKS_PER_BATCH :: nat where
  "DEFAULT_MAX_CHUNKS_PER_BATCH = 5"

definition MAX_MESSAGE_SIZE :: nat where
  "MAX_MESSAGE_SIZE = 10 * 1024 * 1024"

definition STREAM_CHUNK_OVERHEAD_MARGIN :: nat where
  "STREAM_CHUNK_OVERHEAD_MARGIN = 64 * 1024"

definition MAX_STREAM_CHUNK_BYTES :: nat where
  "MAX_STREAM_CHUNK_BYTES = MAX_MESSAGE_SIZE - STREAM_CHUNK_OVERHEAD_MARGIN"

definition div_ceil :: "nat \<Rightarrow> nat \<Rightarrow> nat" where
  "div_ceil n m = n div m + (if n mod m > 0 then 1 else 0)"

text \<open>
  \<open>None\<close> is the failed assertion on the chunk size. The assertion on the key is compiled into
  debug builds only and has no part in the release behaviour.
\<close>

definition chunk_value :: "string \<Rightarrow> u64 \<Rightarrow> payload \<Rightarrow> nat \<Rightarrow> stream_entry list option" where
  "chunk_value key gen v max_chunk_bytes =
     (if \<not> max_chunk_bytes > 0 then None
      else if length v \<le> max_chunk_bytes then
        Some [\<lparr>entry_key = key, entry_generation = gen, chunk_index = 0, total_chunks = 1, data = v\<rparr>]
      else
        let tot = div_ceil (length v) max_chunk_bytes in
        Some (map (\<lambda>index.
            let start = index * max_chunk_bytes; stop = min (start + max_chunk_bytes) (length v) in
            \<lparr>entry_key = key, entry_generation = gen, chunk_index = word_of_nat index,
             total_chunks = word_of_nat tot, data = take (stop - start) (drop start v)\<rparr>)
          [0..<tot]))"

text \<open>The loop of \<open>build_stream_batches\<close> with the open batch and its number of bytes.\<close>

fun batch_loop ::
    "nat \<Rightarrow> nat \<Rightarrow> stream_entry list \<Rightarrow> stream_entry list \<Rightarrow> nat \<Rightarrow> stream_entry list list" where
  "batch_loop max_chunks max_bytes [] current bytes = (if current \<noteq> [] then [current] else [])"
| "batch_loop max_chunks max_bytes (e # es) current bytes =
     (let entry_bytes = length (data e);
          at_count_cap = length current \<ge> max_chunks;
          would_exceed = current \<noteq> [] \<and> bytes + entry_bytes > max_bytes
      in if at_count_cap \<or> would_exceed
         then current # batch_loop max_chunks max_bytes es [e] entry_bytes
         else batch_loop max_chunks max_bytes es (current @ [e]) (bytes + entry_bytes))"

definition build_stream_batches ::
    "stream_entry list \<Rightarrow> nat \<Rightarrow> nat \<Rightarrow> stream_entry list list" where
  "build_stream_batches es max_chunks max_bytes =
     (if max_chunks = 0 \<or> max_bytes = 0 \<or> es = [] then []
      else batch_loop max_chunks max_bytes es [] 0)"

section \<open>Receiver\<close>

definition DEFAULT_MAX_CONCURRENT_ASSEMBLIES :: nat where
  "DEFAULT_MAX_CONCURRENT_ASSEMBLIES = 20"

definition DEFAULT_MAX_ASSEMBLER_BYTES :: nat where
  "DEFAULT_MAX_ASSEMBLER_BYTES = 512 * 1024 * 1024"

definition MAX_TOTAL_CHUNKS :: u32 where
  "MAX_TOTAL_CHUNKS = 1024"

type_synonym assembly_key = "string \<times> string"

record assembly_state =
  generation :: u64
  received_count :: u32
  chunks :: "payload option list"
  created_at :: nat

record chunk_assembler =
  assemblies :: "(assembly_key \<times> assembly_state) list"
  max_concurrent :: nat
  max_bytes :: nat

definition assembly_new :: "u64 \<Rightarrow> u32 \<Rightarrow> nat \<Rightarrow> assembly_state" where
  "assembly_new gen tot now = \<lparr>generation = gen, received_count = 0,
     chunks = replicate (unat tot) None, created_at = now\<rparr>"

definition is_complete :: "assembly_state \<Rightarrow> bool" where
  "is_complete s \<longleftrightarrow> unat (received_count s) = length (chunks s)"

definition present :: "'a option list \<Rightarrow> 'a list" where
  "present cs = List.map_filter id cs"

definition bytes_held :: "nat \<Rightarrow> assembly_state \<Rightarrow> nat" where
  "bytes_held slot s = sum_list (map length (present (chunks s))) + length (chunks s) * slot"

definition assemble :: "assembly_state \<Rightarrow> payload list" where
  "assemble s = present (chunks s)"

definition with_limits :: "nat \<Rightarrow> nat \<Rightarrow> chunk_assembler" where
  "with_limits mc mb = \<lparr>assemblies = [], max_concurrent = mc, max_bytes = mb\<rparr>"

definition assembler_new :: chunk_assembler where
  "assembler_new = with_limits DEFAULT_MAX_CONCURRENT_ASSEMBLIES DEFAULT_MAX_ASSEMBLER_BYTES"

definition incomplete :: "chunk_assembler \<Rightarrow> (assembly_key \<times> assembly_state) list" where
  "incomplete a = filter (\<lambda>(k, s). \<not> is_complete s) (assemblies a)"

definition incomplete_count :: "chunk_assembler \<Rightarrow> nat" where
  "incomplete_count a = length (incomplete a)"

definition incomplete_bytes :: "nat \<Rightarrow> chunk_assembler \<Rightarrow> nat" where
  "incomplete_bytes slot a = sum_list (map (\<lambda>(k, s). bytes_held slot s) (incomplete a))"

definition remove_if ::
    "assembly_key \<Rightarrow> (assembly_state \<Rightarrow> bool) \<Rightarrow> chunk_assembler \<Rightarrow> chunk_assembler" where
  "remove_if key p a = a\<lparr>assemblies := filter (\<lambda>(k, s). \<not> (k = key \<and> p s)) (assemblies a)\<rparr>"

definition try_evict_stale :: "assembly_key \<Rightarrow> u64 \<Rightarrow> chunk_assembler \<Rightarrow> chunk_assembler" where
  "try_evict_stale key gen a = remove_if key (\<lambda>s. generation s = gen \<and> \<not> is_complete s) a"

definition oldest_incomplete :: "chunk_assembler \<Rightarrow> (assembly_key \<times> u64) option" where
  "oldest_incomplete a = map_option (\<lambda>(k, s). (k, generation s))
     (min_by_key (\<lambda>(k, s). created_at s) (incomplete a))"

definition largest_incomplete :: "nat \<Rightarrow> chunk_assembler \<Rightarrow> (assembly_key \<times> u64) option" where
  "largest_incomplete slot a = map_option (\<lambda>(k, s). (k, generation s))
     (max_by_key (\<lambda>(k, s). bytes_held slot s) (incomplete a))"

lemma evict_shrinks:
  assumes "(k, s) \<in> set (incomplete a)"
  shows "length (assemblies (try_evict_stale k (generation s) a)) < length (assemblies a)"
  using assms
  by (auto simp: try_evict_stale_def remove_if_def incomplete_def intro: length_filter_less)

lemma oldest_shrinks:
  "oldest_incomplete a = Some (k, g) \<Longrightarrow>
     length (assemblies (try_evict_stale k g a)) < length (assemblies a)"
  using evict_shrinks by (auto simp: oldest_incomplete_def dest!: min_by_key_SomeD)

lemma largest_shrinks:
  "largest_incomplete slot a = Some (k, g) \<Longrightarrow>
     length (assemblies (try_evict_stale k g a)) < length (assemblies a)"
  using evict_shrinks by (auto simp: largest_incomplete_def dest!: max_by_key_SomeD)

text \<open>The two eviction loops of \<open>enforce_bounds\<close>. Every round removes an assembly.\<close>

function enforce_concurrent :: "chunk_assembler \<Rightarrow> chunk_assembler" where
  "enforce_concurrent a =
     (if incomplete_count a > max_concurrent a then
        (case oldest_incomplete a of
           None \<Rightarrow> a
         | Some (k, g) \<Rightarrow> enforce_concurrent (try_evict_stale k g a))
      else a)"
  by pat_completeness auto
termination
  by (relation "measure (\<lambda>a. length (assemblies a))") (auto dest: oldest_shrinks)

function enforce_bytes :: "nat \<Rightarrow> chunk_assembler \<Rightarrow> chunk_assembler" where
  "enforce_bytes slot a =
     (if incomplete_bytes slot a > max_bytes a then
        (case largest_incomplete slot a of
           None \<Rightarrow> a
         | Some (k, g) \<Rightarrow> enforce_bytes slot (try_evict_stale k g a))
      else a)"
  by pat_completeness auto
termination
  by (relation "measure (\<lambda>(slot, a). length (assemblies a))") (auto dest: largest_shrinks)

declare enforce_concurrent.simps [simp del] enforce_bytes.simps [simp del]

definition enforce_bounds :: "nat \<Rightarrow> chunk_assembler \<Rightarrow> chunk_assembler" where
  "enforce_bounds slot a = enforce_bytes slot (enforce_concurrent a)"

text \<open>
  The block under the shard lock: the assembly that the chunk belongs to, if it is accepted,
  and the recorded chunk.
\<close>

definition target_assembly ::
    "assembly_key \<Rightarrow> u64 \<Rightarrow> u32 \<Rightarrow> nat \<Rightarrow> chunk_assembler \<Rightarrow> assembly_state option" where
  "target_assembly key gen tot now a =
     (let s = (case map_of (assemblies a) key of Some s \<Rightarrow> s | None \<Rightarrow> assembly_new gen tot now) in
      if gen > generation s then Some (assembly_new gen tot now)
      else if gen < generation s then None
      else if length (chunks s) \<noteq> unat tot then None
      else Some s)"

definition record_chunk :: "u32 \<Rightarrow> payload \<Rightarrow> assembly_state \<Rightarrow> assembly_state" where
  "record_chunk index d s =
     s\<lparr>received_count := (if chunks s ! unat index = None then received_count s + 1
                          else received_count s),
       chunks := (chunks s)[unat index := Some d]\<rparr>"

definition receive_chunk ::
    "nat \<Rightarrow> string \<Rightarrow> string \<Rightarrow> u64 \<Rightarrow> u32 \<Rightarrow> u32 \<Rightarrow> payload \<Rightarrow> nat \<Rightarrow> chunk_assembler
       \<Rightarrow> payload list option \<times> chunk_assembler" where
  "receive_chunk slot peer key gen index tot d now a =
     (if tot = 0 \<or> tot > MAX_TOTAL_CHUNKS \<or> index \<ge> tot then (None, a)
      else
        let asm_key = (peer, key) in
        (case target_assembly asm_key gen tot now a of
           None \<Rightarrow> (None, a)
         | Some s \<Rightarrow>
             let s = record_chunk index d s;
                 a = a\<lparr>assemblies := AList.update asm_key s (assemblies a)\<rparr>
             in if \<not> is_complete s then (None, enforce_bounds slot a)
                else
                  (case map_of (assemblies a) asm_key of
                     Some s' \<Rightarrow>
                       if generation s' = gen \<and> is_complete s'
                       then (Some (assemble s'),
                             remove_if asm_key (\<lambda>s. generation s = gen \<and> is_complete s) a)
                       else (None, a)
                   | None \<Rightarrow> (None, a))))"

definition drop_pending :: "string \<Rightarrow> string \<Rightarrow> chunk_assembler \<Rightarrow> chunk_assembler" where
  "drop_pending peer key a = remove_if (peer, key) (\<lambda>s. True) a"

definition expired :: "nat \<Rightarrow> nat \<Rightarrow> assembly_state \<Rightarrow> bool" where
  "expired timeout now s \<longleftrightarrow> now - created_at s \<ge> timeout \<and> \<not> is_complete s"

definition collect_expired :: "nat \<Rightarrow> nat \<Rightarrow> chunk_assembler \<Rightarrow> assembly_key list" where
  "collect_expired timeout now a = map fst (filter (\<lambda>(k, s). expired timeout now s) (assemblies a))"

definition remove_stale ::
    "assembly_key list \<Rightarrow> nat \<Rightarrow> nat \<Rightarrow> chunk_assembler \<Rightarrow> chunk_assembler" where
  "remove_stale keys timeout now a = fold (\<lambda>k. remove_if k (expired timeout now)) keys a"

definition assembler_gc :: "nat \<Rightarrow> nat \<Rightarrow> chunk_assembler \<Rightarrow> chunk_assembler" where
  "assembler_gc timeout now a = remove_stale (collect_expired timeout now a) timeout now a"

section \<open>Dispatch\<close>

text \<open>The assembler of a node and the values delivered to subscribers so far.\<close>

record mesh_node =
  chunk_assembler :: chunk_assembler
  delivered :: "(string \<times> payload list) list"

definition notify_subscribers :: "string \<Rightarrow> payload list \<Rightarrow> mesh_node \<Rightarrow> mesh_node" where
  "notify_subscribers key v n = n\<lparr>delivered := delivered n @ [(key, v)]\<rparr>"

definition dispatch_entry :: "nat \<Rightarrow> string \<Rightarrow> nat \<Rightarrow> stream_entry \<Rightarrow> mesh_node \<Rightarrow> mesh_node" where
  "dispatch_entry slot peer now e n =
     (if total_chunks e = 1
      then notify_subscribers (entry_key e) [data e]
             (n\<lparr>chunk_assembler := drop_pending peer (entry_key e) (chunk_assembler n)\<rparr>)
      else
        (case receive_chunk slot peer (entry_key e) (entry_generation e) (chunk_index e)
                (total_chunks e) (data e) now (chunk_assembler n) of
           (Some fragments, a) \<Rightarrow>
             notify_subscribers (entry_key e) fragments (n\<lparr>chunk_assembler := a\<rparr>)
         | (None, a) \<Rightarrow> n\<lparr>chunk_assembler := a\<rparr>))"

definition dispatch_stream_batch ::
    "nat \<Rightarrow> string \<Rightarrow> nat \<Rightarrow> stream_entry list \<Rightarrow> mesh_node \<Rightarrow> mesh_node" where
  "dispatch_stream_batch slot peer now es n = fold (dispatch_entry slot peer now) es n"

section \<open>Chunks of a value\<close>

lemma concat_slices:
  "concat (map (\<lambda>i. take (min (i * m + m) (length v) - i * m) (drop (i * m) v)) [0..<k])
     = take (k * m) v"
proof (induction k)
  case (Suc k)
  have "take (min (k * m + m) (length v) - k * m) (drop (k * m) v) = take m (drop (k * m) v)"
    by (cases "k * m + m \<le> length v") simp_all
  with Suc show ?case by (simp add: take_add add.commute [of m])
qed simp

lemma div_ceil_covers: "0 < m \<Longrightarrow> n \<le> div_ceil n m * m"
proof -
  assume m: "0 < m"
  have n: "n = n div m * m + n mod m" by simp
  have "n mod m < m" using m by simp
  with n have "n \<le> n div m * m + m" by linarith
  then show ?thesis by (cases "n mod m = 0") (auto simp: div_ceil_def add_mult_distrib)
qed

lemma concat_chunks:
  "0 < m \<Longrightarrow> concat (map (\<lambda>i. take (min (i * m + m) (length v) - i * m) (drop (i * m) v))
     [0..<div_ceil (length v) m]) = v"
  by (simp add: concat_slices div_ceil_covers)

section \<open>Batches\<close>

lemma batch_loop_concat: "concat (batch_loop mc mb es cur b) = cur @ es"
  by (induction es arbitrary: cur b) (simp_all add: Let_def)

definition batch_ok :: "nat \<Rightarrow> nat \<Rightarrow> stream_entry list \<Rightarrow> bool" where
  "batch_ok mc mb es \<longleftrightarrow> es \<noteq> [] \<and> length es \<le> mc
     \<and> (sum_list (map (\<lambda>e. length (data e)) es) \<le> mb \<or> length es = 1)"

lemma batch_loop_ok:
  "0 < mc \<Longrightarrow> cur = [] \<or> batch_ok mc mb cur \<Longrightarrow> b = sum_list (map (\<lambda>e. length (data e)) cur) \<Longrightarrow>
     list_all (batch_ok mc mb) (batch_loop mc mb es cur b)"
proof (induction es arbitrary: cur b)
  case Nil
  then show ?case by auto
next
  case (Cons e es)
  show ?case
  proof (cases "length cur \<ge> mc \<or> (cur \<noteq> [] \<and> b + length (data e) > mb)")
    case True
    then have "batch_ok mc mb cur" using Cons.prems by auto
    moreover have "batch_ok mc mb [e]" using Cons.prems(1) by (simp add: batch_ok_def)
    ultimately show ?thesis using Cons.IH [of "[e]"] Cons.prems(1) True by (auto simp: Let_def)
  next
    case False
    then have "batch_ok mc mb (cur @ [e])" using Cons.prems by (cases cur) (auto simp: batch_ok_def)
    then show ?thesis
      using Cons.IH [of "cur @ [e]" "b + length (data e)"] Cons.prems False by (auto simp: Let_def)
  qed
qed

section \<open>Recorded chunks\<close>

lemma present_simps [simp]:
  "present [] = []" "present (None # cs) = present cs" "present (Some c # cs) = c # present cs"
  by (simp_all add: present_def List.map_filter_def)

lemma length_present_le: "length (present cs) \<le> length cs"
proof (induction cs)
  case (Cons c cs)
  then show ?case by (cases c) simp_all
qed simp

lemma length_present_update:
  "i < length cs \<Longrightarrow> length (present (cs[i := Some d]))
     = (if cs ! i = None then Suc (length (present cs)) else length (present cs))"
proof (induction cs arbitrary: i)
  case (Cons c cs)
  then show ?case by (cases i; cases c) simp_all
qed simp

lemma present_all: "length (present cs) = length cs \<Longrightarrow> cs = map Some (present cs)"
proof (induction cs)
  case (Cons c cs)
  have "length (present cs) \<le> length cs" by (rule length_present_le)
  with Cons show ?case by (cases c) simp_all
qed simp

lemma present_replicate [simp]: "present (replicate n None) = []"
  by (induction n) simp_all

definition wf_state :: "assembly_state \<Rightarrow> bool" where
  "wf_state s \<longleftrightarrow> unat (received_count s) = length (present (chunks s)) \<and> length (chunks s) \<le> 1024"

lemma wf_new: "tot \<le> MAX_TOTAL_CHUNKS \<Longrightarrow> wf_state (assembly_new gen tot now)"
  by (simp add: wf_state_def assembly_new_def MAX_TOTAL_CHUNKS_def word_le_nat_alt)

lemma record_chunk_simps [simp]:
  "generation (record_chunk i d s) = generation s"
  "chunks (record_chunk i d s) = (chunks s)[unat i := Some d]"
  by (simp_all add: record_chunk_def)

lemma wf_record: "wf_state s \<Longrightarrow> unat i < length (chunks s) \<Longrightarrow> wf_state (record_chunk i d s)"
proof -
  assume s: "wf_state s" "unat i < length (chunks s)"
  have "length (present (chunks s)) < 2 ^ 32 - 1"
    using s length_present_le [of "chunks s"] by (simp add: wf_state_def)
  then have "unat (received_count s + 1) = Suc (unat (received_count s))"
    using s by (simp add: wf_state_def unat_word_ariths)
  with s show ?thesis
    by (auto simp: wf_state_def record_chunk_def length_present_update)
qed

lemma complete_chunks: "wf_state s \<Longrightarrow> is_complete s \<Longrightarrow> chunks s = map Some (assemble s)"
  by (simp add: wf_state_def is_complete_def assemble_def present_all)

section \<open>Eviction\<close>

lemma try_evict_filter: "\<exists>P. try_evict_stale k g a = a\<lparr>assemblies := filter P (assemblies a)\<rparr>"
  by (auto simp: try_evict_stale_def remove_if_def)

lemma enforce_concurrent_filter:
  "\<exists>P. enforce_concurrent a = a\<lparr>assemblies := filter P (assemblies a)\<rparr>"
proof (induction a rule: enforce_concurrent.induct)
  case (1 a)
  show ?case
  proof (cases "incomplete_count a > max_concurrent a \<and> oldest_incomplete a \<noteq> None")
    case True
    then obtain k g where kg: "oldest_incomplete a = Some (k, g)" by (metis not_None_eq surj_pair)
    from True have "incomplete_count a > max_concurrent a" by simp
    from 1 [OF this kg refl] obtain P where "enforce_concurrent (try_evict_stale k g a)
        = (try_evict_stale k g a)\<lparr>assemblies := filter P (assemblies (try_evict_stale k g a))\<rparr>" by blast
    moreover obtain Q where "try_evict_stale k g a = a\<lparr>assemblies := filter Q (assemblies a)\<rparr>"
      using try_evict_filter by blast
    ultimately have "enforce_concurrent a = a\<lparr>assemblies := filter P (filter Q (assemblies a))\<rparr>"
      using True kg by (subst enforce_concurrent.simps) simp
    then show ?thesis by (auto simp del: filter_filter simp: filter_filter [of P Q])
  next
    case False
    then have "enforce_concurrent a = a\<lparr>assemblies := filter (\<lambda>x. True) (assemblies a)\<rparr>"
      by (subst enforce_concurrent.simps) (cases "oldest_incomplete a"; simp)
    then show ?thesis by blast
  qed
qed

lemma enforce_bytes_filter:
  "\<exists>P. enforce_bytes slot a = a\<lparr>assemblies := filter P (assemblies a)\<rparr>"
proof (induction slot a rule: enforce_bytes.induct)
  case (1 slot a)
  show ?case
  proof (cases "incomplete_bytes slot a > max_bytes a \<and> largest_incomplete slot a \<noteq> None")
    case True
    then obtain k g where kg: "largest_incomplete slot a = Some (k, g)" by (metis not_None_eq surj_pair)
    from True have "incomplete_bytes slot a > max_bytes a" by simp
    from 1 [OF this kg refl] obtain P where "enforce_bytes slot (try_evict_stale k g a)
        = (try_evict_stale k g a)\<lparr>assemblies := filter P (assemblies (try_evict_stale k g a))\<rparr>" by blast
    moreover obtain Q where "try_evict_stale k g a = a\<lparr>assemblies := filter Q (assemblies a)\<rparr>"
      using try_evict_filter by blast
    ultimately have "enforce_bytes slot a = a\<lparr>assemblies := filter P (filter Q (assemblies a))\<rparr>"
      using True kg by (subst enforce_bytes.simps) simp
    then show ?thesis by (auto simp del: filter_filter simp: filter_filter [of P Q])
  next
    case False
    then have "enforce_bytes slot a = a\<lparr>assemblies := filter (\<lambda>x. True) (assemblies a)\<rparr>"
      by (subst enforce_bytes.simps) (cases "largest_incomplete slot a"; simp)
    then show ?thesis by blast
  qed
qed

lemma enforce_concurrent_bound: "incomplete_count (enforce_concurrent a) \<le> max_concurrent a"
proof (induction a rule: enforce_concurrent.induct)
  case (1 a)
  show ?case
  proof (cases "incomplete_count a > max_concurrent a")
    case True
    then have "incomplete a \<noteq> []" by (auto simp: incomplete_count_def)
    then obtain k g where kg: "oldest_incomplete a = Some (k, g)"
      using min_by_key_ex [of "incomplete a"] by (fastforce simp: oldest_incomplete_def)
    have "max_concurrent (try_evict_stale k g a) = max_concurrent a"
      by (simp add: try_evict_stale_def remove_if_def)
    with 1 [OF True kg refl] True kg show ?thesis by (subst enforce_concurrent.simps) simp
  next
    case False
    then show ?thesis by (subst enforce_concurrent.simps) simp
  qed
qed

lemma enforce_bytes_bound: "incomplete_bytes slot (enforce_bytes slot a) \<le> max_bytes a"
proof (induction slot a rule: enforce_bytes.induct)
  case (1 slot a)
  show ?case
  proof (cases "incomplete_bytes slot a > max_bytes a")
    case True
    then have "incomplete a \<noteq> []" by (auto simp: incomplete_bytes_def)
    then obtain x where "max_by_key (\<lambda>(k, s). bytes_held slot s) (incomplete a) = Some x"
      using max_by_key_None_iff by (metis not_None_eq)
    then obtain k g where kg: "largest_incomplete slot a = Some (k, g)"
      by (cases x) (simp add: largest_incomplete_def)
    have "max_bytes (try_evict_stale k g a) = max_bytes a"
      by (simp add: try_evict_stale_def remove_if_def)
    with 1 [OF True kg refl] True kg show ?thesis by (subst enforce_bytes.simps) simp
  next
    case False
    then show ?thesis by (subst enforce_bytes.simps) simp
  qed
qed

definition within_limits :: "nat \<Rightarrow> chunk_assembler \<Rightarrow> bool" where
  "within_limits slot a \<longleftrightarrow>
     incomplete_count a \<le> max_concurrent a \<and> incomplete_bytes slot a \<le> max_bytes a"

lemma sum_list_filter_le: "sum_list (map f (filter P xs)) \<le> sum_list (map (f :: 'a \<Rightarrow> nat) xs)"
  by (induction xs) auto

lemma incomplete_filter:
  "incomplete (a\<lparr>assemblies := filter P (assemblies a)\<rparr>) = filter P (incomplete a)"
  by (simp add: incomplete_def conj_commute)

lemma within_limits_filter:
  "within_limits slot a \<Longrightarrow> within_limits slot (a\<lparr>assemblies := filter P (assemblies a)\<rparr>)"
proof -
  assume a: "within_limits slot a"
  let ?b = "a\<lparr>assemblies := filter P (assemblies a)\<rparr>"
  have "length (filter P (incomplete a)) \<le> max_concurrent a"
    using a length_filter_le [of P "incomplete a"]
    unfolding within_limits_def incomplete_count_def by linarith
  moreover have "incomplete_bytes slot ?b \<le> incomplete_bytes slot a"
    unfolding incomplete_bytes_def incomplete_filter by (rule sum_list_filter_le)
  ultimately show ?thesis
    using a unfolding within_limits_def incomplete_count_def incomplete_filter by auto
qed

lemma enforce_bounds_within: "within_limits slot (enforce_bounds slot a)"
proof -
  let ?c = "enforce_concurrent a"
  obtain P where P: "enforce_bytes slot ?c = ?c\<lparr>assemblies := filter P (assemblies ?c)\<rparr>"
    using enforce_bytes_filter by blast
  obtain Q where Q: "?c = a\<lparr>assemblies := filter Q (assemblies a)\<rparr>"
    using enforce_concurrent_filter by blast
  have "incomplete_count (enforce_bytes slot ?c) \<le> incomplete_count ?c"
    unfolding P incomplete_count_def incomplete_filter by simp
  moreover have "incomplete_count ?c \<le> max_concurrent a" by (rule enforce_concurrent_bound)
  moreover have "max_concurrent (enforce_bytes slot ?c) = max_concurrent a"
    "max_bytes (enforce_bytes slot ?c) = max_bytes ?c"
    using P Q by (metis chunk_assembler.select_convs(2, 3) chunk_assembler.surjective
        chunk_assembler.update_convs(1))+
  ultimately show ?thesis
    using enforce_bytes_bound [of slot ?c] by (simp add: within_limits_def enforce_bounds_def)
qed

lemma enforce_bounds_filter:
  "\<exists>P. enforce_bounds slot a = a\<lparr>assemblies := filter P (assemblies a)\<rparr>"
proof -
  obtain Q where Q: "enforce_concurrent a = a\<lparr>assemblies := filter Q (assemblies a)\<rparr>"
    using enforce_concurrent_filter by blast
  obtain P where "enforce_bytes slot (enforce_concurrent a)
      = (enforce_concurrent a)\<lparr>assemblies := filter P (assemblies (enforce_concurrent a))\<rparr>"
    using enforce_bytes_filter by blast
  with Q show ?thesis by (auto simp: enforce_bounds_def)
qed

section \<open>What an assembly holds\<close>

text \<open>A chunk as it was received: sender, key, generation, index, number of chunks, bytes.\<close>

type_synonym chunk_msg = "string \<times> string \<times> u64 \<times> nat \<times> nat \<times> payload"

definition recorded_from :: "chunk_msg set \<Rightarrow> assembly_key \<Rightarrow> assembly_state \<Rightarrow> bool" where
  "recorded_from L k s \<longleftrightarrow> (\<forall>i d. i < length (chunks s) \<longrightarrow> chunks s ! i = Some d \<longrightarrow>
     (fst k, snd k, generation s, i, length (chunks s), d) \<in> L)"

definition asm_inv :: "chunk_msg set \<Rightarrow> chunk_assembler \<Rightarrow> bool" where
  "asm_inv L a \<longleftrightarrow> distinct (map fst (assemblies a)) \<and>
     (\<forall>(k, s) \<in> set (assemblies a). wf_state s \<and> \<not> is_complete s \<and> recorded_from L k s)"

lemma asm_inv_filter: "asm_inv L a \<Longrightarrow> asm_inv L (a\<lparr>assemblies := filter P (assemblies a)\<rparr>)"
  by (auto simp: asm_inv_def distinct_map_filter)

lemma asm_inv_mono: "asm_inv L a \<Longrightarrow> L \<subseteq> M \<Longrightarrow> asm_inv M a"
  by (fastforce simp: asm_inv_def recorded_from_def)

lemma recorded_new: "recorded_from L k (assembly_new gen tot now)"
  by (simp add: recorded_from_def assembly_new_def)

lemma target_props:
  assumes "asm_inv L a" "target_assembly k gen tot now a = Some s" "tot \<le> MAX_TOTAL_CHUNKS"
  shows "wf_state s" "recorded_from L k s" "generation s = gen" "length (chunks s) = unat tot"
proof -
  let ?new = "assembly_new gen tot now"
  have new: "wf_state ?new" "recorded_from L k ?new" "generation ?new = gen"
      "length (chunks ?new) = unat tot"
    using assms(3) by (simp_all add: wf_new recorded_new) (simp_all add: assembly_new_def)
  have "s = ?new \<or> (map_of (assemblies a) k = Some s \<and> generation s = gen \<and> length (chunks s) = unat tot)"
    using assms(2) by (auto simp: target_assembly_def Let_def split: if_splits option.splits)
  then have "wf_state s \<and> recorded_from L k s \<and> generation s = gen \<and> length (chunks s) = unat tot"
  proof
    assume "map_of (assemblies a) k = Some s \<and> generation s = gen \<and> length (chunks s) = unat tot"
    moreover from this have "(k, s) \<in> set (assemblies a)" by (simp add: map_of_SomeD)
    ultimately show ?thesis using assms(1) by (auto simp: asm_inv_def)
  qed (use new in simp)
  then show "wf_state s" "recorded_from L k s" "generation s = gen" "length (chunks s) = unat tot"
    by simp_all
qed

lemma recorded_record:
  assumes "recorded_from L k s" "unat i < length (chunks s)"
  shows "recorded_from (insert (fst k, snd k, generation s, unat i, length (chunks s), d) L) k
    (record_chunk i d s)"
  using assms by (auto simp: recorded_from_def nth_list_update)

lemma update_entries:
  assumes "distinct (map fst xs)" "\<forall>(k, s) \<in> set xs. k \<noteq> key \<longrightarrow> Q k s" "Q key s"
  shows "distinct (map fst (AList.update key s xs))
    \<and> (\<forall>(k, s) \<in> set (AList.update key s xs). Q k s)"
proof -
  have d: "distinct (map fst (AList.update key s xs))" using assms(1) by (rule distinct_update)
  have "Q k s'" if "(k, s') \<in> set (AList.update key s xs)" for k s'
  proof -
    from that d have "map_of (AList.update key s xs) k = Some s'" by (simp add: map_of_eq_Some_iff)
    then show ?thesis using assms(2, 3) by (auto simp: update_conv' split: if_splits dest: map_of_SomeD)
  qed
  with d show ?thesis by blast
qed

lemma filter_update_other:
  "filter (\<lambda>(k, s). k \<noteq> key) (AList.update key v xs) = filter (\<lambda>(k, s). k \<noteq> key) xs"
  by (induction xs) auto

text \<open>What a call of \<open>receive_chunk\<close> does, case by case.\<close>

lemma receive_recorded:
  assumes "target_assembly (peer, key) gen tot now a = Some s" "\<not> is_complete (record_chunk i d s)"
    "i < tot" "tot \<le> MAX_TOTAL_CHUNKS"
  shows "receive_chunk slot peer key gen i tot d now a = (None, enforce_bounds slot
    (a\<lparr>assemblies := AList.update (peer, key) (record_chunk i d s) (assemblies a)\<rparr>))"
proof -
  from assms(3) have "tot \<noteq> 0" by auto
  with assms show ?thesis by (simp add: receive_chunk_def Let_def not_less not_le)
qed

lemma receive_completed:
  assumes inv: "asm_inv L a" and s: "target_assembly (peer, key) gen tot now a = Some s"
    and comp: "is_complete (record_chunk i d s)" and b: "i < tot" "tot \<le> MAX_TOTAL_CHUNKS"
  shows "receive_chunk slot peer key gen i tot d now a = (Some (assemble (record_chunk i d s)),
    a\<lparr>assemblies := filter (\<lambda>(k, s). k \<noteq> (peer, key)) (assemblies a)\<rparr>)"
proof -
  let ?s = "record_chunk i d s" and ?as = "AList.update (peer, key) (record_chunk i d s) (assemblies a)"
  have gen: "generation s = gen" using target_props [OF inv s b(2)] by simp
  have "distinct (map fst (assemblies a))" using inv by (simp add: asm_inv_def)
  then have d: "distinct (map fst ?as)" by (rule distinct_update)
  have "filter (\<lambda>(k, s). \<not> (k = (peer, key) \<and> generation s = gen \<and> is_complete s)) ?as
      = filter (\<lambda>(k, s). k \<noteq> (peer, key)) ?as"
  proof (rule filter_cong [OF refl])
    fix x assume x: "x \<in> set ?as"
    obtain k s' where ks: "x = (k, s')" by (cases x)
    from x ks d have "map_of ?as k = Some s'" by (simp add: map_of_eq_Some_iff)
    then show "(case x of (k, s) \<Rightarrow> \<not> (k = (peer, key) \<and> generation s = gen \<and> is_complete s))
        = (case x of (k, s) \<Rightarrow> k \<noteq> (peer, key))"
      using ks gen comp by (auto simp: update_conv')
  qed
  then have rem: "remove_if (peer, key) (\<lambda>s. generation s = gen \<and> is_complete s) (a\<lparr>assemblies := ?as\<rparr>)
      = a\<lparr>assemblies := filter (\<lambda>(k, s). k \<noteq> (peer, key)) (assemblies a)\<rparr>"
    unfolding remove_if_def filter_update_other by simp
  from b(1) have "tot \<noteq> 0" by auto
  with b s gen comp rem show ?thesis
    by (simp add: receive_chunk_def Let_def update_conv' not_less not_le)
qed

lemma receive_chunk_cases:
  assumes "asm_inv L a"
  obtains (ignored) "receive_chunk slot peer key gen i tot d now a = (None, a)"
  | (recorded) s where "target_assembly (peer, key) gen tot now a = Some s"
      "\<not> is_complete (record_chunk i d s)" "i < tot" "tot \<le> MAX_TOTAL_CHUNKS"
      "receive_chunk slot peer key gen i tot d now a = (None, enforce_bounds slot
         (a\<lparr>assemblies := AList.update (peer, key) (record_chunk i d s) (assemblies a)\<rparr>))"
  | (completed) s where "target_assembly (peer, key) gen tot now a = Some s"
      "is_complete (record_chunk i d s)" "i < tot" "tot \<le> MAX_TOTAL_CHUNKS"
      "receive_chunk slot peer key gen i tot d now a = (Some (assemble (record_chunk i d s)),
         a\<lparr>assemblies := filter (\<lambda>(k, s). k \<noteq> (peer, key)) (assemblies a)\<rparr>)"
proof (cases "tot = 0 \<or> tot > MAX_TOTAL_CHUNKS \<or> i \<ge> tot \<or> target_assembly (peer, key) gen tot now a = None")
  case True
  then show thesis by (intro ignored) (auto simp: receive_chunk_def)
next
  case False
  then obtain s where s: "target_assembly (peer, key) gen tot now a = Some s" by auto
  from False have b: "i < tot" "tot \<le> MAX_TOTAL_CHUNKS" by auto
  show thesis
  proof (cases "is_complete (record_chunk i d s)")
    case False
    from recorded [OF s False b receive_recorded [OF s False b]] show thesis .
  next
    case True
    from completed [OF s True b receive_completed [OF assms s True b]] show thesis .
  qed
qed

lemma receive_chunk_inv:
  assumes "asm_inv L a"
  shows "asm_inv (insert (peer, key, gen, unat i, unat tot, d) L)
    (snd (receive_chunk slot peer key gen i tot d now a))"
proof (cases rule: receive_chunk_cases [OF assms, where slot = slot and peer = peer and key = key
      and gen = gen and i = i and tot = tot and d = d and now = now,
      case_names ignored recorded completed])
  case ignored
  then show ?thesis using asm_inv_mono [OF assms] by auto
next
  case (recorded s)
  note t = target_props [OF assms recorded(1, 4)]
  let ?M = "insert (peer, key, gen, unat i, unat tot, d) L" and ?s = "record_chunk i d s"
  have i: "unat i < length (chunks s)" using recorded(3) t(4) by (simp add: word_less_nat_alt)
  have "recorded_from ?M (peer, key) ?s" using recorded_record [OF t(2) i, of d] t(3, 4) by simp
  moreover have "wf_state ?s" using wf_record t(1) i by blast
  ultimately have new: "wf_state ?s \<and> \<not> is_complete ?s \<and> recorded_from ?M (peer, key) ?s"
    using recorded(2) by simp
  have old: "asm_inv ?M a" using asm_inv_mono [OF assms] by blast
  have "asm_inv ?M (a\<lparr>assemblies := AList.update (peer, key) ?s (assemblies a)\<rparr>)"
    using update_entries [of "assemblies a" "(peer, key)"
        "\<lambda>k s. wf_state s \<and> \<not> is_complete s \<and> recorded_from ?M k s" ?s] old new
    by (auto simp: asm_inv_def)
  with enforce_bounds_filter [of slot] recorded(5) show ?thesis by (metis asm_inv_filter snd_conv)
next
  case (completed s)
  have "asm_inv (insert (peer, key, gen, unat i, unat tot, d) L) a"
    using asm_inv_mono [OF assms] by blast
  with completed(5) show ?thesis by (simp add: asm_inv_filter)
qed

lemma receive_chunk_limits:
  assumes "asm_inv L a" "within_limits slot a"
  shows "within_limits slot (snd (receive_chunk slot peer key gen i tot d now a))"
  by (cases rule: receive_chunk_cases [OF assms(1), where slot = slot and peer = peer and key = key
      and gen = gen and i = i and tot = tot and d = d and now = now])
    (simp_all add: assms(2) enforce_bounds_within within_limits_filter)

lemma receive_chunk_limits_kept:
  assumes "asm_inv L a"
  shows "max_concurrent (snd (receive_chunk slot peer key gen i tot d now a)) = max_concurrent a
    \<and> max_bytes (snd (receive_chunk slot peer key gen i tot d now a)) = max_bytes a"
proof (cases rule: receive_chunk_cases [OF assms, where slot = slot and peer = peer and key = key
      and gen = gen and i = i and tot = tot and d = d and now = now,
      case_names ignored recorded completed])
  case (recorded s)
  obtain P where "enforce_bounds slot
         (a\<lparr>assemblies := AList.update (peer, key) (record_chunk i d s) (assemblies a)\<rparr>)
      = a\<lparr>assemblies := filter P (AList.update (peer, key) (record_chunk i d s) (assemblies a))\<rparr>"
    using enforce_bounds_filter [of slot "a\<lparr>assemblies := AList.update (peer, key) (record_chunk i d s) (assemblies a)\<rparr>"]
    by auto
  with recorded(5) show ?thesis by simp
qed simp_all

text \<open>A returned value is put together from chunks of one publication.\<close>

lemma receive_chunk_result:
  assumes "asm_inv L a" "receive_chunk slot peer key gen i tot d now a = (Some fs, a')"
  shows "length fs = unat tot \<and> (\<forall>j<unat tot. (peer, key, gen, j, unat tot, fs ! j)
    \<in> insert (peer, key, gen, unat i, unat tot, d) L)"
proof (cases rule: receive_chunk_cases [OF assms(1), where slot = slot and peer = peer and key = key
      and gen = gen and i = i and tot = tot and d = d and now = now,
      case_names ignored recorded completed])
  case (completed s)
  note t = target_props [OF assms(1) completed(1, 4)]
  let ?s = "record_chunk i d s"
  have i: "unat i < length (chunks s)" using completed(3) t(4) by (simp add: word_less_nat_alt)
  have fs: "chunks ?s = map Some fs"
    using complete_chunks [OF wf_record [OF t(1) i] completed(2)] completed(5) assms(2) by simp
  then have len: "length fs = unat tot" using t(4) by (metis length_list_update length_map record_chunk_simps(2))
  have "recorded_from (insert (peer, key, gen, unat i, unat tot, d) L) (peer, key) ?s"
    using recorded_record [OF t(2) i, of d] t(3, 4) by simp
  then have "\<forall>j<unat tot. (peer, key, gen, j, unat tot, fs ! j)
      \<in> insert (peer, key, gen, unat i, unat tot, d) L"
    unfolding recorded_from_def fs using len t(3) by simp
  with len show ?thesis by simp
qed (use assms(2) in simp_all)

section \<open>Delivery of a chunked value\<close>

lemma enforce_bounds_id: "within_limits slot a \<Longrightarrow> enforce_bounds slot a = a"
  by (subst enforce_bounds_def, subst enforce_concurrent.simps, subst enforce_bytes.simps)
    (simp add: within_limits_def)

lemma sum_list_entry:
  "distinct (map fst xs) \<Longrightarrow> map_of xs k = Some s \<Longrightarrow>
     sum_list (map g xs) = (g (k, s) :: nat) + sum_list (map g (filter (\<lambda>(k', s). k' \<noteq> k) xs))"
proof (induction xs)
  case (Cons x xs)
  obtain k' s' where x: "x = (k', s')" by (cases x)
  show ?case
  proof (cases "k' = k")
    case True
    then have "filter (\<lambda>(k', s). k' \<noteq> k) xs = xs"
      using Cons.prems(1) x by (force intro: filter_True)
    with True Cons.prems x show ?thesis by simp
  next
    case False
    with Cons x show ?thesis by simp
  qed
qed simp

text \<open>Count and bytes of the assemblies of other keys.\<close>

definition other_entries :: "assembly_key \<Rightarrow> chunk_assembler \<Rightarrow> chunk_assembler" where
  "other_entries k a = a\<lparr>assemblies := filter (\<lambda>(k', s). k' \<noteq> k) (assemblies a)\<rparr>"

lemma sum_incomplete:
  "incomplete_count a = sum_list (map (\<lambda>(k, s). if is_complete s then 0 else 1) (assemblies a))"
  "incomplete_bytes slot a
     = sum_list (map (\<lambda>(k, s). if is_complete s then 0 else bytes_held slot s) (assemblies a))"
proof -
  have "length (filter (\<lambda>(k, s). \<not> is_complete s) xs)
      = sum_list (map (\<lambda>(k, s). if is_complete s then 0 else 1) xs)" for xs :: "(assembly_key \<times> assembly_state) list"
    by (induction xs) auto
  then show "incomplete_count a = sum_list (map (\<lambda>(k, s). if is_complete s then 0 else 1) (assemblies a))"
    by (simp add: incomplete_count_def incomplete_def)
  have "sum_list (map (\<lambda>(k, s). bytes_held slot s) (filter (\<lambda>(k, s). \<not> is_complete s) xs))
      = sum_list (map (\<lambda>(k, s). if is_complete s then 0 else bytes_held slot s) xs)"
    for xs :: "(assembly_key \<times> assembly_state) list"
    by (induction xs) auto
  then show "incomplete_bytes slot a
     = sum_list (map (\<lambda>(k, s). if is_complete s then 0 else bytes_held slot s) (assemblies a))"
    by (simp add: incomplete_bytes_def incomplete_def)
qed

lemma limits_with_entry:
  assumes "distinct (map fst (assemblies a))" "map_of (assemblies a) k = Some s"
    "incomplete_count (other_entries k a) < max_concurrent a"
    "incomplete_bytes slot (other_entries k a) + bytes_held slot s \<le> max_bytes a"
  shows "within_limits slot a"
  using sum_list_entry [OF assms(1, 2), of "\<lambda>(k, s). if is_complete s then 0 else 1"]
    sum_list_entry [OF assms(1, 2), of "\<lambda>(k, s). if is_complete s then 0 else bytes_held slot s"]
    assms(3, 4)
  by (simp add: within_limits_def sum_incomplete other_entries_def split: if_splits)

text \<open>The assembly after the chunks with indices in a set have arrived.\<close>

definition partial_chunks :: "(nat \<Rightarrow> payload) \<Rightarrow> nat \<Rightarrow> nat set \<Rightarrow> payload option list" where
  "partial_chunks f n S = map (\<lambda>i. if i \<in> S then Some (f i) else None) [0..<n]"

lemma present_partial: "present (partial_chunks f n S) = map f (filter (\<lambda>i. i \<in> S) [0..<n])"
proof -
  have "present (map (\<lambda>i. if i \<in> S then Some (f i) else None) xs) = map f (filter (\<lambda>i. i \<in> S) xs)" for xs
    by (induction xs) auto
  then show ?thesis by (simp add: partial_chunks_def)
qed

lemma partial_update:
  "j < n \<Longrightarrow> (partial_chunks f n S)[j := Some (f j)] = partial_chunks f n (insert j S)"
  by (rule nth_equalityI) (auto simp: partial_chunks_def nth_list_update)

lemma partial_bytes:
  "sum_list (map length (present (partial_chunks f n S))) \<le> length (concat (map f [0..<n]))"
  unfolding present_partial length_concat map_map
  using sum_list_filter_le [of "length \<circ> f" "\<lambda>i. i \<in> S" "[0..<n]"] by simp

lemma partial_complete:
  "wf_state s \<Longrightarrow> chunks s = partial_chunks f n S \<Longrightarrow> is_complete s \<longleftrightarrow> {0..<n} \<subseteq> S"
proof -
  assume s: "wf_state s" "chunks s = partial_chunks f n S"
  then have "is_complete s \<longleftrightarrow> length (filter (\<lambda>i. i \<in> S) [0..<n]) = length [0..<n]"
    by (simp add: is_complete_def wf_state_def present_partial) (simp add: partial_chunks_def)
  also have "\<dots> \<longleftrightarrow> {0..<n} \<subseteq> S"
    using filter_id_conv [of "\<lambda>i. i \<in> S" "[0..<n]"] length_filter_le [of "\<lambda>i. i \<in> S" "[0..<n]"]
      length_filter_less [of _ "[0..<n]" "\<lambda>i. i \<in> S"] by fastforce
  finally show ?thesis .
qed

definition chunk_entry :: "string \<Rightarrow> u64 \<Rightarrow> (nat \<Rightarrow> payload) \<Rightarrow> nat \<Rightarrow> nat \<Rightarrow> stream_entry" where
  "chunk_entry key gen f n i = \<lparr>entry_key = key, entry_generation = gen,
     chunk_index = word_of_nat i, total_chunks = word_of_nat n, data = f i\<rparr>"

definition awaiting :: "assembly_key \<Rightarrow> u64 \<Rightarrow> (nat \<Rightarrow> payload) \<Rightarrow> nat \<Rightarrow> nat set \<Rightarrow> chunk_assembler \<Rightarrow> bool" where
  "awaiting k gen f n S a \<longleftrightarrow> (case map_of (assemblies a) k of
       None \<Rightarrow> S = {}
     | Some s \<Rightarrow> (S = {} \<and> generation s < gen)
         \<or> (generation s = gen \<and> chunks s = partial_chunks f n S))"

definition has_room :: "nat \<Rightarrow> assembly_key \<Rightarrow> nat \<Rightarrow> chunk_assembler \<Rightarrow> bool" where
  "has_room slot k b a \<longleftrightarrow> incomplete_count (other_entries k a) < max_concurrent a
     \<and> incomplete_bytes slot (other_entries k a) + b \<le> max_bytes a"

lemma awaiting_target:
  assumes "awaiting k gen f n S a" "0 < n" "n \<le> 1024"
  shows "\<exists>s. target_assembly k gen (word_of_nat n) now a = Some s \<and> chunks s = partial_chunks f n S"
proof -
  have n: "unat (word_of_nat n :: u32) = n" using assms(3) by (simp add: unat_of_nat)
  have empty: "replicate n None = partial_chunks f n {}"
    by (simp add: partial_chunks_def map_replicate_const)
  have len: "length (partial_chunks f n S) = n" by (simp add: partial_chunks_def)
  show ?thesis
    using assms(1) n empty len
    by (auto simp: awaiting_def target_assembly_def Let_def assembly_new_def split: option.splits)
qed

lemma word_index:
  "j < n \<Longrightarrow> n \<le> 1024 \<Longrightarrow> unat (word_of_nat j :: u32) = j"
  by (simp add: unat_of_nat)

lemma word_chunk_bounds:
  "j < n \<Longrightarrow> n \<le> 1024 \<Longrightarrow> (word_of_nat j :: u32) < word_of_nat n
     \<and> (word_of_nat n :: u32) \<le> MAX_TOTAL_CHUNKS \<and> (word_of_nat n :: u32) \<noteq> 0"
  by (auto simp: word_less_nat_alt word_le_nat_alt MAX_TOTAL_CHUNKS_def unat_of_nat
      simp flip: unat_eq_0)

text \<open>One more chunk of the value.\<close>

lemma receive_next:
  assumes inv: "asm_inv L a" and w: "awaiting (peer, key) gen f n S a" "j < n" "j \<notin> S" "n \<le> 1024"
    and room: "has_room slot (peer, key) (length (concat (map f [0..<n])) + n * slot) a"
  shows "if {0..<n} \<subseteq> insert j S
    then receive_chunk slot peer key gen (word_of_nat j) (word_of_nat n) (f j) now a
      = (Some (map f [0..<n]), other_entries (peer, key) a)
    else \<exists>a'. receive_chunk slot peer key gen (word_of_nat j) (word_of_nat n) (f j) now a = (None, a')
      \<and> awaiting (peer, key) gen f n (insert j S) a'
      \<and> other_entries (peer, key) a' = other_entries (peer, key) a"
proof -
  let ?k = "(peer, key)" and ?j = "word_of_nat j :: u32" and ?n = "word_of_nat n :: u32"
  note b = word_chunk_bounds [OF w(2, 4)] and ji = word_index [OF w(2, 4)]
  obtain s where s: "target_assembly ?k gen ?n now a = Some s" "chunks s = partial_chunks f n S"
    using awaiting_target [OF w(1) _ w(4)] w(2) by auto
  note t = target_props [OF inv s(1)]
  let ?s = "record_chunk ?j (f j) s"
  have jlen: "unat ?j < length (chunks s)" using s(2) ji w(2) by (simp add: partial_chunks_def)
  have wf: "wf_state ?s" using wf_record t(1) b jlen by blast
  have ch: "chunks ?s = partial_chunks f n (insert j S)"
    using partial_update [OF w(2)] s(2) ji by simp
  have held: "bytes_held slot ?s \<le> length (concat (map f [0..<n])) + n * slot"
    using partial_bytes [of f n "insert j S"] ch unfolding bytes_held_def ch
    by (simp add: partial_chunks_def del: length_concat)
  let ?a = "a\<lparr>assemblies := AList.update ?k ?s (assemblies a)\<rparr>"
  have others: "other_entries ?k ?a = other_entries ?k a"
    unfolding other_entries_def by (simp add: filter_update_other)
  have lim: "within_limits slot ?a"
  proof (rule limits_with_entry)
    show "distinct (map fst (assemblies ?a))" using inv by (simp add: asm_inv_def distinct_update)
    show "map_of (assemblies ?a) ?k = Some ?s" by (simp add: update_conv')
    show "incomplete_count (other_entries ?k ?a) < max_concurrent ?a"
      unfolding others using room by (simp add: has_room_def)
    show "incomplete_bytes slot (other_entries ?k ?a) + bytes_held slot ?s \<le> max_bytes ?a"
      unfolding others using room held by (simp add: has_room_def)
  qed
  show ?thesis
  proof (cases "{0..<n} \<subseteq> insert j S")
    case True
    then have comp: "is_complete ?s" using partial_complete [OF wf ch] by simp
    have "partial_chunks f n (insert j S) = map Some (map f [0..<n])"
      using True by (auto simp: partial_chunks_def)
    then have "assemble ?s = map f [0..<n]"
      using complete_chunks [OF wf comp] ch by (simp add: inj_map_eq_map flip: map_map)
    then show ?thesis
      using True receive_completed [OF inv s(1) comp] b by (simp add: other_entries_def)
  next
    case False
    then have inc: "\<not> is_complete ?s" using partial_complete [OF wf ch] by simp
    have "receive_chunk slot peer key gen ?j ?n (f j) now a = (None, ?a)"
      using receive_recorded [OF s(1) inc] b enforce_bounds_id [OF lim] by simp
    moreover have "awaiting ?k gen f n (insert j S) ?a"
      using ch t(3) b by (simp add: awaiting_def update_conv')
    ultimately show ?thesis using False others by auto
  qed
qed

lemma dispatch_receives:
  "total_chunks e \<noteq> 1 \<Longrightarrow> dispatch_entry slot peer now e nd =
     (case receive_chunk slot peer (entry_key e) (entry_generation e) (chunk_index e) (total_chunks e)
             (data e) now (chunk_assembler nd) of
        (Some fs, a) \<Rightarrow> nd\<lparr>chunk_assembler := a, delivered := delivered nd @ [(entry_key e, fs)]\<rparr>
      | (None, a) \<Rightarrow> nd\<lparr>chunk_assembler := a\<rparr>)"
  by (auto simp: dispatch_entry_def notify_subscribers_def split: prod.splits option.splits)

lemma has_room_cong:
  "other_entries k a' = other_entries k a \<Longrightarrow> has_room slot k b a' = has_room slot k b a"
proof -
  assume eq: "other_entries k a' = other_entries k a"
  have "max_concurrent a' = max_concurrent a" "max_bytes a' = max_bytes a"
    using arg_cong [OF eq, of max_concurrent] arg_cong [OF eq, of max_bytes]
    by (simp_all add: other_entries_def)
  with eq show ?thesis by (simp add: has_room_def)
qed

lemma dispatch_all_chunks:
  assumes "asm_inv L (chunk_assembler nd)" "awaiting (peer, key) gen f n S (chunk_assembler nd)"
    "has_room slot (peer, key) (length (concat (map f [0..<n])) + n * slot) (chunk_assembler nd)"
    "distinct js" "set js = {0..<n} - S" "js \<noteq> []" "2 \<le> n" "n \<le> 1024"
  shows "fold (dispatch_entry slot peer now) (map (chunk_entry key gen f n) js) nd
    = nd\<lparr>chunk_assembler := other_entries (peer, key) (chunk_assembler nd),
         delivered := delivered nd @ [(key, map f [0..<n])]\<rparr>"
  using assms(1-6)
proof (induction js arbitrary: nd S L)
  case (Cons j js)
  let ?a = "chunk_assembler nd"
  have j: "j < n" "j \<notin> S" using Cons.prems(5) by auto
  have "unat (word_of_nat n :: u32) \<noteq> 1" using assms(7, 8) by (simp add: unat_of_nat)
  then have t: "total_chunks (chunk_entry key gen f n j) \<noteq> 1" by (auto simp: chunk_entry_def)
  note next_ = receive_next [OF Cons.prems(1, 2) j assms(8) Cons.prems(3), of now]
  show ?case
  proof (cases "js = []")
    case True
    then have "{0..<n} \<subseteq> insert j S" using Cons.prems(5) by auto
    with next_ t True show ?thesis by (simp add: dispatch_receives) (simp add: chunk_entry_def)
  next
    case False
    then obtain i where i: "i \<in> set js" by (cases js) auto
    then have "i < n" "i \<notin> S" "i \<noteq> j" using Cons.prems(4, 5) by auto
    then have "\<not> {0..<n} \<subseteq> insert j S" by auto
    with next_ obtain a' where a': "receive_chunk slot peer key gen (word_of_nat j) (word_of_nat n)
        (f j) now ?a = (None, a')" "awaiting (peer, key) gen f n (insert j S) a'"
        "other_entries (peer, key) a' = other_entries (peer, key) ?a" by auto
    have inv: "asm_inv (insert (peer, key, gen, unat (word_of_nat j :: u32), unat (word_of_nat n :: u32), f j) L) a'"
      using receive_chunk_inv [OF Cons.prems(1)] a'(1) by (metis snd_conv)
    have st: "dispatch_entry slot peer now (chunk_entry key gen f n j) nd = nd\<lparr>chunk_assembler := a'\<rparr>"
      using t a'(1) by (simp add: dispatch_receives) (simp add: chunk_entry_def)
    let ?nd = "nd\<lparr>chunk_assembler := a'\<rparr>"
    have room: "has_room slot (peer, key) (length (concat (map f [0..<n])) + n * slot) a'"
      using Cons.prems(3) has_room_cong [OF a'(3)] by blast
    have "set js = {0..<n} - insert j S" "distinct js" using Cons.prems(4, 5) by auto
    with Cons.IH [of _ ?nd "insert j S"] inv a'(2) room False
    have "fold (dispatch_entry slot peer now) (map (chunk_entry key gen f n) js) ?nd
        = ?nd\<lparr>chunk_assembler := other_entries (peer, key) a',
            delivered := delivered nd @ [(key, map f [0..<n])]\<rparr>" by fastforce
    then show ?thesis using a'(3) by (simp add: st)
  qed
qed simp

section \<open>Sequences of events\<close>

datatype assembler_event =
    Receive string string u64 u32 u32 payload nat
  | Superseded string string
  | Collect nat nat

fun assembler_step :: "nat \<Rightarrow> chunk_assembler \<Rightarrow> assembler_event \<Rightarrow> chunk_assembler" where
  "assembler_step slot a (Receive peer key gen i tot d now) =
     snd (receive_chunk slot peer key gen i tot d now a)"
| "assembler_step slot a (Superseded peer key) = drop_pending peer key a"
| "assembler_step slot a (Collect timeout now) = assembler_gc timeout now a"

fun event_msgs :: "assembler_event \<Rightarrow> chunk_msg set" where
  "event_msgs (Receive peer key gen i tot d now) = {(peer, key, gen, unat i, unat tot, d)}"
| "event_msgs e = {}"

lemma drop_pending_filter:
  "drop_pending peer key a = a\<lparr>assemblies := filter (\<lambda>(k, s). k \<noteq> (peer, key)) (assemblies a)\<rparr>"
  by (simp add: drop_pending_def remove_if_def)

lemma gc_filter: "\<exists>P. assembler_gc timeout now a = a\<lparr>assemblies := filter P (assemblies a)\<rparr>"
proof -
  have "\<exists>P. fold (\<lambda>k. remove_if k (expired timeout now)) ks a
      = a\<lparr>assemblies := filter P (assemblies a)\<rparr>" for ks
  proof (induction ks arbitrary: a)
    case Nil
    show ?case by (rule exI [of _ "\<lambda>x. True"]) simp
  next
    case (Cons k ks)
    let ?b = "remove_if k (expired timeout now) a"
    obtain P where P: "fold (\<lambda>k. remove_if k (expired timeout now)) ks ?b
        = ?b\<lparr>assemblies := filter P (assemblies ?b)\<rparr>" using Cons.IH by blast
    have "fold (\<lambda>k. remove_if k (expired timeout now)) (k # ks) a
        = a\<lparr>assemblies := filter (\<lambda>x. P x \<and> (case x of (k', s) \<Rightarrow> \<not> (k' = k \<and> expired timeout now s))) (assemblies a)\<rparr>"
      unfolding fold_simps P by (simp add: remove_if_def conj_commute)
    then show ?case by blast
  qed
  then show ?thesis by (simp add: assembler_gc_def remove_stale_def)
qed

definition assembler_ok :: "nat \<Rightarrow> chunk_msg set \<times> chunk_assembler \<Rightarrow> bool" where
  "assembler_ok slot x \<longleftrightarrow> asm_inv (fst x) (snd x) \<and> within_limits slot (snd x)"

definition logged_step ::
    "nat \<Rightarrow> chunk_msg set \<times> chunk_assembler \<Rightarrow> assembler_event \<Rightarrow> chunk_msg set \<times> chunk_assembler" where
  "logged_step slot x e = (fst x \<union> event_msgs e, assembler_step slot (snd x) e)"

lemma logged_step_ok: "assembler_ok slot x \<Longrightarrow> assembler_ok slot (logged_step slot x e)"
proof (cases e)
  case (Receive peer key gen i tot d now)
  assume "assembler_ok slot x"
  then show ?thesis
    using receive_chunk_inv [of "fst x" "snd x"] receive_chunk_limits [of "fst x" "snd x"] Receive
    by (simp add: assembler_ok_def logged_step_def)
next
  case (Superseded peer key)
  assume "assembler_ok slot x"
  then show ?thesis using Superseded
    by (simp add: assembler_ok_def logged_step_def drop_pending_filter asm_inv_filter within_limits_filter)
next
  case (Collect timeout now)
  assume "assembler_ok slot x"
  then show ?thesis using Collect gc_filter [of timeout now "snd x"]
    by (auto simp: assembler_ok_def logged_step_def asm_inv_filter within_limits_filter)
qed

interpretation assembler: invariant_system "logged_step slot" "assembler_ok slot" for slot
  by unfold_locales (rule logged_step_ok)

lemma foldl_logged:
  "foldl (logged_step slot) (L, a) es
     = (L \<union> (\<Union>e\<in>set es. event_msgs e), foldl (assembler_step slot) a es)"
  by (induction es arbitrary: L a) (auto simp: logged_step_def)

lemma with_limits_ok: "assembler_ok slot ({}, with_limits mc mb)"
  by (simp add: assembler_ok_def asm_inv_def with_limits_def within_limits_def incomplete_count_def
      incomplete_bytes_def incomplete_def)

lemma reached_ok:
  "asm_inv (\<Union>e\<in>set es. event_msgs e) (foldl (assembler_step slot) (with_limits mc mb) es)
   \<and> within_limits slot (foldl (assembler_step slot) (with_limits mc mb) es)"
  using assembler.inv_run [OF with_limits_ok [of slot mc mb], of es]
  unfolding foldl_logged by (simp add: assembler_ok_def)

lemma assembler_step_limits:
  assumes "asm_inv L a"
  shows "max_concurrent (assembler_step slot a e) = max_concurrent a
    \<and> max_bytes (assembler_step slot a e) = max_bytes a"
proof (cases e)
  case (Receive peer key gen i tot d now)
  then show ?thesis using receive_chunk_limits_kept [OF assms] by simp
next
  case (Superseded peer key)
  then show ?thesis by (simp add: drop_pending_filter)
next
  case (Collect timeout now)
  obtain P where "assembler_gc timeout now a = a\<lparr>assemblies := filter P (assemblies a)\<rparr>"
    using gc_filter by blast
  with Collect show ?thesis by simp
qed

lemma run_limits:
  "max_concurrent (foldl (assembler_step slot) (with_limits mc mb) es) = mc
   \<and> max_bytes (foldl (assembler_step slot) (with_limits mc mb) es) = mb"
proof (induction es rule: rev_induct)
  case Nil
  show ?case by (simp add: with_limits_def)
next
  case (snoc e es)
  then show ?case using assembler_step_limits [OF conjunct1 [OF reached_ok]] by simp
qed

lemma chunk_count_bounds:
  assumes "0 < m" "m < l" "l \<le> 1024 * m"
  shows "2 \<le> div_ceil l m \<and> div_ceil l m \<le> 1024"
proof
  show "2 \<le> div_ceil l m"
  proof (rule ccontr)
    assume "\<not> 2 \<le> div_ceil l m"
    then have "div_ceil l m * m \<le> 1 * m" by (intro mult_right_mono) auto
    with div_ceil_covers [OF assms(1), of l] assms(2) show False by simp
  qed
  show "div_ceil l m \<le> 1024"
  proof (cases "l = 1024 * m")
    case True
    with assms(1) show ?thesis by (simp add: div_ceil_def)
  next
    case False
    with assms(3) have "l < 1024 * m" by simp
    then have "l div m < 1024" using assms(1) by (simp add: less_mult_imp_div_less)
    then show ?thesis by (simp add: div_ceil_def)
  qed
qed

lemma mset_map_split: "mset ys = mset (map g xs) \<Longrightarrow> \<exists>js. ys = map g js \<and> mset js = mset xs"
proof (induction ys arbitrary: xs)
  case (Cons y ys)
  have "y \<in> set (map g xs)" using mset_eq_setD [OF Cons.prems] by auto
  then obtain x where x: "x \<in> set xs" "g x = y" by auto
  have "mset ys = mset (map g (remove1 x xs))"
  proof -
    have "mset xs = add_mset x (mset (remove1 x xs))" using x(1) by simp
    then have "mset (map g xs) = add_mset y (mset (map g (remove1 x xs)))"
      using x(2) by (metis image_mset_add_mset mset_map)
    with Cons.prems show ?thesis by simp
  qed
  from Cons.IH [OF this] obtain js where "ys = map g js" "mset js = mset (remove1 x xs)" by blast
  with x show ?case by (intro exI [of _ "x # js"]) simp
qed simp

section \<open>Properties\<close>

text \<open>
  C21: The receiver's memory is bounded whatever the peers send. After every sequence of received
  chunks, superseding values and garbage collections, at most \<open>max_concurrent\<close> assemblies are
  in flight and they hold at most \<open>max_bytes\<close> bytes, slot overhead included.
\<close>

theorem assembler_memory_bounded:
  "incomplete_count (foldl (assembler_step slot) (with_limits mc mb) es) \<le> mc
   \<and> incomplete_bytes slot (foldl (assembler_step slot) (with_limits mc mb) es) \<le> mb"
  using reached_ok [of es slot mc mb] run_limits [of slot mc mb es] by (simp add: within_limits_def)

text \<open>
  C22: An assembled value is never a mixture. When a chunk completes a value, the value has as
  many fragments as its header says, and fragment \<open>j\<close> is a chunk with index \<open>j\<close> that
  was received from the same peer, for the same key and with the same generation and chunk
  count, no matter what else the peers sent before.
\<close>

theorem assembled_from_one_publish:
  assumes "receive_chunk slot peer key gen i tot d now (foldl (assembler_step slot) (with_limits mc mb) es)
      = (Some fs, a')"
  shows "length fs = unat tot \<and> (\<forall>j<unat tot. (peer, key, gen, j, unat tot, fs ! j)
    \<in> insert (peer, key, gen, unat i, unat tot, d) (\<Union>e\<in>set es. event_msgs e))"
  using receive_chunk_result [OF conjunct1 [OF reached_ok] assms] .

theorem assembled_from_one_publish_witness:
  "\<exists>fs a'. receive_chunk 32 ''p'' ''k'' 1 1 2 [8] 0
       (foldl (assembler_step 32) (with_limits 20 1000) [Receive ''p'' ''k'' 1 0 2 [7] 0]) = (Some fs, a')
     \<and> length fs = 2 \<and> (\<forall>j<2. (''p'', ''k'', 1, j, 2, fs ! j)
       \<in> insert (''p'', ''k'', 1, 1, 2, [8]) (\<Union>e\<in>{Receive ''p'' ''k'' 1 0 2 [7] 0}. event_msgs e))"
proof -
  let ?a = "foldl (assembler_step 32) (with_limits 20 1000) [Receive ''p'' ''k'' 1 0 2 [7] 0]"
  have two: "replicate 2 x = [x, x]" for x :: "payload option" by (simp add: numeral_2_eq_2)
  have a: "?a = \<lparr>assemblies = [((''p'', ''k''), \<lparr>generation = 1, received_count = 1,
      chunks = [Some [7], None], created_at = 0\<rparr>)], max_concurrent = 20, max_bytes = 1000\<rparr>"
    by (simp add: receive_chunk_def with_limits_def target_assembly_def assembly_new_def
        MAX_TOTAL_CHUNKS_def record_chunk_def is_complete_def enforce_bounds_id within_limits_def
        incomplete_count_def incomplete_bytes_def incomplete_def bytes_held_def two)
  have "receive_chunk 32 ''p'' ''k'' 1 1 2 [8] 0 ?a = (Some [[7], [8]],
      \<lparr>assemblies = [], max_concurrent = 20, max_bytes = 1000\<rparr>)"
    unfolding a
    by (simp add: receive_chunk_def target_assembly_def MAX_TOTAL_CHUNKS_def record_chunk_def
        is_complete_def remove_if_def assemble_def word_le_nat_alt)
  from this assembled_from_one_publish [OF this] show ?thesis by auto
qed

text \<open>
  C20: A value of at most 1024 chunks survives chunking, batching, transport in any order and
  reassembly. Take an assembler whose accounting invariant holds, as it does in every state that
  \<open>receive_chunk\<close> and garbage collection reach, with room for one more assembly and for the bytes of
  the value and its slots, and with no assembly of the same or a newer generation under the key.
  Dispatching the chunks of the value, each once and in any order, delivers exactly one value,
  whose fragments concatenate to the original, removes the assembly and leaves the assemblies of
  all other keys as they were.
\<close>

theorem chunked_value_delivered:
  fixes nd :: mesh_node
  defines "a \<equiv> chunk_assembler nd"
  assumes "chunk_value key gen v m = Some es" "mset es' = mset es" "length v \<le> 1024 * m"
    and "asm_inv L a"
    and "\<forall>s. map_of (assemblies a) (peer, key) = Some s \<longrightarrow> generation s < gen"
    and "has_room slot (peer, key) (length v + length es * slot) a"
  shows "\<exists>fs. dispatch_stream_batch slot peer now es' nd
      = nd\<lparr>chunk_assembler := other_entries (peer, key) a, delivered := delivered nd @ [(key, fs)]\<rparr>
    \<and> concat fs = v"
proof (cases "length v \<le> m")
  case True
  have m: "0 < m" using assms(2) by (auto simp: chunk_value_def split: if_splits)
  with True assms(2, 3) have "es' = [\<lparr>entry_key = key, entry_generation = gen, chunk_index = 0,
      total_chunks = 1, data = v\<rparr>]" by (auto simp: chunk_value_def)
  then show ?thesis
    by (intro exI [of _ "[v]"])
      (simp add: dispatch_stream_batch_def dispatch_entry_def notify_subscribers_def a_def
        drop_pending_filter other_entries_def)
next
  case False
  have m: "0 < m" using assms(2) by (auto simp: chunk_value_def split: if_splits)
  define n where "n = div_ceil (length v) m"
  define f where "f i = take (min (i * m + m) (length v) - i * m) (drop (i * m) v)" for i
  have es: "es = map (chunk_entry key gen f n) [0..<n]"
    using assms(2) False m
    by (auto simp: chunk_value_def chunk_entry_def f_def n_def Let_def)
  have v: "concat (map f [0..<n]) = v" unfolding f_def n_def by (rule concat_chunks [OF m])
  have n: "2 \<le> n" "n \<le> 1024" using chunk_count_bounds [OF m _ assms(4)] False by (auto simp: n_def)
  obtain js where js: "es' = map (chunk_entry key gen f n) js" "mset js = mset [0..<n]"
    using mset_map_split [of es' "chunk_entry key gen f n" "[0..<n]"] assms(3) es by metis
  have "distinct js" "set js = {0..<n}" "js \<noteq> []"
    using js(2) n mset_eq_setD [OF js(2)] mset_eq_imp_distinct_iff [OF js(2)] by auto
  moreover have "awaiting (peer, key) gen f n {} a"
    using assms(6) by (auto simp: awaiting_def split: option.splits)
  ultimately have "fold (dispatch_entry slot peer now) es' nd
    = nd\<lparr>chunk_assembler := other_entries (peer, key) a, delivered := delivered nd @ [(key, map f [0..<n])]\<rparr>"
    using dispatch_all_chunks [of L nd peer key gen f n "{}" slot js now] assms(5, 7) n es v
    unfolding js(1) a_def by simp
  with v show ?thesis unfolding dispatch_stream_batch_def by blast
qed

definition example_node :: mesh_node where
  "example_node = \<lparr>chunk_assembler = assembler_new, delivered = []\<rparr>"

theorem chunked_value_delivered_witness:
  "\<exists>fs. dispatch_stream_batch 32 ''p'' 0
       [\<lparr>entry_key = ''k'', entry_generation = 7, chunk_index = 1, total_chunks = 2, data = [3]\<rparr>,
        \<lparr>entry_key = ''k'', entry_generation = 7, chunk_index = 0, total_chunks = 2, data = [1, 2]\<rparr>]
       example_node
     = example_node\<lparr>chunk_assembler := other_entries (''p'', ''k'') (chunk_assembler example_node),
         delivered := delivered example_node @ [(''k'', fs)]\<rparr> \<and> concat fs = [1, 2, 3]"
proof (rule chunked_value_delivered)
  show "chunk_value ''k'' 7 [1, 2, 3] 2 = Some
       [\<lparr>entry_key = ''k'', entry_generation = 7, chunk_index = 0, total_chunks = 2, data = [1, 2]\<rparr>,
        \<lparr>entry_key = ''k'', entry_generation = 7, chunk_index = 1, total_chunks = 2, data = [3]\<rparr>]"
    by (simp add: chunk_value_def div_ceil_def upt_rec Let_def)
  show "asm_inv {} (chunk_assembler example_node)"
    by (simp add: example_node_def assembler_new_def asm_inv_def with_limits_def)
  show "has_room 32 (''p'', ''k'') (length [1 :: u8, 2, 3] + length
       [\<lparr>entry_key = ''k'', entry_generation = 7, chunk_index = 0, total_chunks = 2, data = [1, 2]\<rparr>,
        \<lparr>entry_key = ''k'', entry_generation = 7, chunk_index = 1, total_chunks = 2, data = [3]\<rparr>] * 32)
      (chunk_assembler example_node)"
    by (simp add: has_room_def other_entries_def example_node_def assembler_new_def with_limits_def
        incomplete_count_def incomplete_bytes_def incomplete_def
        DEFAULT_MAX_CONCURRENT_ASSEMBLIES_def DEFAULT_MAX_ASSEMBLER_BYTES_def)
qed (simp_all add: example_node_def assembler_new_def with_limits_def)

text \<open>
  Batching loses and reorders nothing: the batches concatenate to the entries, none is
  empty or has more entries than allowed, and none has more bytes than allowed unless it is a
  single oversized entry.
\<close>

theorem batches_lossless:
  assumes "0 < mc" "0 < mb"
  shows "concat (build_stream_batches es mc mb) = es
    \<and> list_all (batch_ok mc mb) (build_stream_batches es mc mb)"
  using assms batch_loop_concat [of mc mb es "[]" 0]
    batch_loop_ok [of mc "[]" mb 0 es]
  by (auto simp: build_stream_batches_def)

theorem batches_lossless_witness:
  "concat (build_stream_batches [\<lparr>entry_key = ''k'', entry_generation = 7, chunk_index = 0,
       total_chunks = 1, data = [1, 2]\<rparr>] 5 1)
     = [\<lparr>entry_key = ''k'', entry_generation = 7, chunk_index = 0, total_chunks = 1, data = [1, 2]\<rparr>]
   \<and> list_all (batch_ok 5 1) (build_stream_batches [\<lparr>entry_key = ''k'', entry_generation = 7,
       chunk_index = 0, total_chunks = 1, data = [1, 2]\<rparr>] 5 1)"
  by (rule batches_lossless) simp_all

end
