(* ===== verification/WorkflowDag.thy ===== *)
theory WorkflowDag
  imports Prelude
begin

text \<open>
  Workflow definitions (\<open>crates/workflow/src/definition.rs\<close>, \<open>types.rs\<close>): steps with their
  two kinds of dependencies, and the validation at registration, which looks for missing
  dependencies and, by depth-first search, for cycles, and builds the reverse dependencies.
  Executors and conditions are not part of the model; a step keeps whether it has a condition.
\<close>

section \<open>Definitions\<close>

type_synonym step_id = string
type_synonym workflow_id = string

datatype backoff_strategy =
    Fixed duration
  | Exponential duration duration
  | Linear duration duration

record retry_policy =
  max_attempts :: u32
  backoff :: backoff_strategy

definition retry_policy_default :: retry_policy where
  "retry_policy_default = \<lparr>max_attempts = 3,
     backoff = Exponential (from_secs 1) (from_secs 30)\<rparr>"

datatype failure_action = FailWorkflow | ContinueNextStep | RetryIndefinitely

datatype validation_error =
    MissingDependency step_id step_id
  | CycleDetected step_id

record step_definition =
  step_id :: step_id
  step_name :: string
  step_retry_policy :: "retry_policy option"
  step_timeout :: "duration option"
  on_failure :: failure_action
  depends_on :: "step_id list"
  depends_on_any :: "step_id list"
  step_delay :: "duration option"
  scheduled_at :: "nat option"
  has_run_if :: bool

definition step_new :: "string \<Rightarrow> string \<Rightarrow> step_definition" where
  "step_new i n = \<lparr>step_id = i, step_name = n, step_retry_policy = None, step_timeout = None,
     on_failure = FailWorkflow, depends_on = [], depends_on_any = [], step_delay = None,
     scheduled_at = None, has_run_if = False\<rparr>"

text \<open>The builder methods. Of a condition the model keeps that there is one.\<close>

definition with_retry :: "retry_policy \<Rightarrow> step_definition \<Rightarrow> step_definition" where
  "with_retry policy s = s\<lparr>step_retry_policy := Some policy\<rparr>"

definition with_timeout :: "duration \<Rightarrow> step_definition \<Rightarrow> step_definition" where
  "with_timeout d s = s\<lparr>step_timeout := Some d\<rparr>"

definition with_failure_action :: "failure_action \<Rightarrow> step_definition \<Rightarrow> step_definition" where
  "with_failure_action action s = s\<lparr>on_failure := action\<rparr>"

definition set_depends_on :: "step_id list \<Rightarrow> step_definition \<Rightarrow> step_definition" where
  "set_depends_on deps s = s\<lparr>depends_on := deps\<rparr>"

definition set_depends_on_any :: "step_id list \<Rightarrow> step_definition \<Rightarrow> step_definition" where
  "set_depends_on_any deps s = s\<lparr>depends_on_any := deps\<rparr>"

definition with_delay :: "duration \<Rightarrow> step_definition \<Rightarrow> step_definition" where
  "with_delay d s = s\<lparr>step_delay := Some d\<rparr>"

definition set_scheduled_at :: "nat \<Rightarrow> step_definition \<Rightarrow> step_definition" where
  "set_scheduled_at time s = s\<lparr>scheduled_at := Some time\<rparr>"

definition set_run_if :: "step_definition \<Rightarrow> step_definition" where
  "set_run_if s = s\<lparr>has_run_if := True\<rparr>"

definition all_dependencies :: "step_definition \<Rightarrow> step_id list" where
  "all_dependencies s = depends_on s @ depends_on_any s"

record workflow_definition =
  workflow_id :: workflow_id
  workflow_name :: string
  steps :: "step_definition list"
  default_retry_policy :: retry_policy
  default_timeout :: duration
  reverse_deps :: "step_id \<rightharpoonup> nat list"
  initial_step_indices :: "nat list"

definition workflow_new :: "string \<Rightarrow> string \<Rightarrow> workflow_definition" where
  "workflow_new i n = \<lparr>workflow_id = i, workflow_name = n, steps = [],
     default_retry_policy = retry_policy_default, default_timeout = from_secs 300,
     reverse_deps = Map.empty, initial_step_indices = []\<rparr>"

definition with_default_retry :: "retry_policy \<Rightarrow> workflow_definition \<Rightarrow> workflow_definition" where
  "with_default_retry policy w = w\<lparr>default_retry_policy := policy\<rparr>"

definition with_default_timeout :: "duration \<Rightarrow> workflow_definition \<Rightarrow> workflow_definition" where
  "with_default_timeout d w = w\<lparr>default_timeout := d\<rparr>"

definition add_step :: "step_definition \<Rightarrow> workflow_definition \<Rightarrow> workflow_definition" where
  "add_step s w = w\<lparr>steps := steps w @ [s]\<rparr>"

definition get_retry_policy :: "workflow_definition \<Rightarrow> step_definition \<Rightarrow> retry_policy" where
  "get_retry_policy w s = (case step_retry_policy s of Some p \<Rightarrow> p | None \<Rightarrow> default_retry_policy w)"

definition get_timeout :: "workflow_definition \<Rightarrow> step_definition \<Rightarrow> duration" where
  "get_timeout w s = (case step_timeout s of Some t \<Rightarrow> t | None \<Rightarrow> default_timeout w)"

section \<open>Validation\<close>

text \<open>The map collected from the steps: a later step with the same id replaces an earlier one.\<close>

definition steps_map :: "step_definition list \<Rightarrow> step_id \<rightharpoonup> step_definition" where
  "steps_map ss = map_of (rev (map (\<lambda>s. (step_id s, s)) ss))"

definition missing_dependency :: "step_definition list \<Rightarrow> (step_id \<times> step_id) option" where
  "missing_dependency ss = find (\<lambda>(s, d). steps_map ss d = None)
     (concat (map (\<lambda>s. map (Pair (step_id s)) (all_dependencies s)) ss))"

definition deps_of :: "step_definition list \<Rightarrow> step_id \<Rightarrow> step_id list" where
  "deps_of ss i = (case steps_map ss i of Some s \<Rightarrow> all_dependencies s | None \<Rightarrow> [])"

text \<open>
  \<open>has_cycle\<close> and the loop over the dependencies in its body are one recursion over a list of
  steps to visit. The two sets are the sets that the code passes by reference.
\<close>

definition nodes :: "step_definition list \<Rightarrow> step_id set" where
  "nodes ss = step_id ` set ss"

function any_has_cycle ::
    "step_definition list \<Rightarrow> step_id list \<Rightarrow> step_id set \<Rightarrow> step_id set
       \<Rightarrow> bool \<times> step_id set \<times> step_id set" where
  "any_has_cycle ss [] visited rec_stack = (False, visited, rec_stack)"
| "any_has_cycle ss (d # ds) visited rec_stack =
     (if d \<in> rec_stack then (True, visited, rec_stack)
      else if d \<in> visited then any_has_cycle ss ds visited rec_stack
      else
        (case any_has_cycle ss (deps_of ss d) (insert d visited) (insert d rec_stack) of
           (True, visited, rec_stack) \<Rightarrow> (True, visited, rec_stack)
         | (False, visited, rec_stack) \<Rightarrow> any_has_cycle ss ds visited (rec_stack - {d})))"
  by pat_completeness auto

lemma any_has_cycle_grows:
  "any_has_cycle_dom (ss, ds, V, R) \<Longrightarrow> V \<subseteq> fst (snd (any_has_cycle ss ds V R))"
proof (induction ss ds V R rule: any_has_cycle.pinduct)
  case (2 ss d ds V R)
  show ?case
  proof (cases "d \<in> R \<or> d \<in> V")
    case True
    with 2 show ?thesis by (auto simp: any_has_cycle.psimps)
  next
    case False
    obtain b V1 R1 where r: "any_has_cycle ss (deps_of ss d) (insert d V) (insert d R) = (b, V1, R1)"
      by (cases "any_has_cycle ss (deps_of ss d) (insert d V) (insert d R)")
    have "V \<subseteq> V1" using 2(3) False r by auto
    moreover have "\<not> b \<Longrightarrow> V1 \<subseteq> fst (snd (any_has_cycle ss ds V1 (R1 - {d})))"
      using 2(4) [of b "(V1, R1)" V1 R1] False r by simp
    ultimately show ?thesis using 2(1) False r by (cases b) (auto simp: any_has_cycle.psimps)
  qed
qed (simp add: any_has_cycle.psimps)

lemma deps_of_unknown: "d \<notin> nodes ss \<Longrightarrow> deps_of ss d = []"
  by (auto simp: deps_of_def steps_map_def nodes_def map_of_eq_None_iff image_image split: option.splits
      dest!: map_of_SomeD)

termination any_has_cycle
proof (relation "(\<lambda>(ss, ds, V, R). card (nodes ss - V)) <*mlex*> measure (\<lambda>(ss, ds, V, R). length ds)",
    goal_cases)
  case 1
  show ?case by (intro wf_mlex) simp
next
  case (2 ss d ds V R)
  show ?case by (rule mlex_leq) simp_all
next
  case (3 ss d ds V R)
  show ?case
  proof (cases "d \<in> nodes ss")
    case True
    have "finite (nodes ss)" by (simp add: nodes_def)
    then have "card (nodes ss - insert d V) < card (nodes ss - V)"
      using True 3 by (intro psubset_card_mono) auto
    then show ?thesis by (intro mlex_less) simp
  next
    case False
    then have "nodes ss - insert d V = nodes ss - V" by auto
    then show ?thesis by (intro mlex_leq) (simp_all add: deps_of_unknown [OF False])
  qed
next
  case (4 ss d ds V R x y V1 R1)
  have "insert d V \<subseteq> V1" using any_has_cycle_grows [OF 4(6)] 4(3-5) by (metis fst_conv snd_conv)
  then have "card (nodes ss - V1) \<le> card (nodes ss - V)"
    by (intro card_mono) (auto simp: nodes_def)
  then show ?case by (intro mlex_leq) simp_all
qed

section \<open>The remaining definitions\<close>

definition has_cycle ::
    "step_definition list \<Rightarrow> step_id \<Rightarrow> step_id set \<Rightarrow> step_id set \<Rightarrow> bool \<times> step_id set \<times> step_id set" where
  "has_cycle ss i visited rec_stack = any_has_cycle ss [i] visited rec_stack"

fun find_cycle :: "step_definition list \<Rightarrow> step_definition list \<Rightarrow> step_id set \<Rightarrow> step_id set \<Rightarrow> step_id option" where
  "find_cycle all [] visited rec_stack = None"
| "find_cycle all (s # ss) visited rec_stack =
     (if step_id s \<notin> visited then
        (case has_cycle all (step_id s) visited rec_stack of
           (True, visited, rec_stack) \<Rightarrow> Some (step_id s)
         | (False, visited, rec_stack) \<Rightarrow> find_cycle all ss visited rec_stack)
      else find_cycle all ss visited rec_stack)"

definition build_reverse_deps :: "step_definition list \<Rightarrow> step_id \<rightharpoonup> nat list" where
  "build_reverse_deps ss = fold (\<lambda>(idx, dep) m. m(dep \<mapsto> (case m dep of Some is \<Rightarrow> is | None \<Rightarrow> []) @ [idx]))
     (concat (map (\<lambda>idx. map (Pair idx) (all_dependencies (ss ! idx))) [0..<length ss])) Map.empty"

definition validate :: "workflow_definition \<Rightarrow> validation_error + workflow_definition" where
  "validate w = (case missing_dependency (steps w) of
       Some (s, d) \<Rightarrow> Inl (MissingDependency s d)
     | None \<Rightarrow> (case find_cycle (steps w) (steps w) {} {} of
         Some s \<Rightarrow> Inl (CycleDetected s)
       | None \<Rightarrow> Inr (w\<lparr>reverse_deps := build_reverse_deps (steps w),
           initial_step_indices := indices_where (\<lambda>s. depends_on s = [] \<and> depends_on_any s = []) (steps w)\<rparr>)))"

definition get_dependent_indices :: "workflow_definition \<Rightarrow> step_id \<Rightarrow> nat list" where
  "get_dependent_indices w i = (case reverse_deps w i of Some is \<Rightarrow> is | None \<Rightarrow> [])"

text \<open>\<open>register_workflow\<close> of the engine: only valid definitions are stored.\<close>

definition register_workflow ::
    "workflow_definition \<Rightarrow> (workflow_id \<rightharpoonup> workflow_definition)
       \<Rightarrow> validation_error option \<times> (workflow_id \<rightharpoonup> workflow_definition)" where
  "register_workflow w defs = (case validate w of
       Inl e \<Rightarrow> (Some e, defs)
     | Inr v \<Rightarrow> (None, defs(workflow_id v \<mapsto> v)))"

section \<open>The depth-first search\<close>

definition dep_rel :: "step_definition list \<Rightarrow> (step_id \<times> step_id) set" where
  "dep_rel ss = {(a, b). b \<in> set (deps_of ss a)}"

definition search_inv :: "step_definition list \<Rightarrow> step_id set \<Rightarrow> step_id set \<Rightarrow> bool" where
  "search_inv ss V R \<longleftrightarrow> R \<subseteq> V \<and> (\<forall>b \<in> V - R. set (deps_of ss b) \<subseteq> V - R \<and> (b, b) \<notin> (dep_rel ss)\<^sup>+)"

lemma closed_trancl:
  assumes "\<And>b. b \<in> B \<Longrightarrow> set (deps_of ss b) \<subseteq> B" "(x, y) \<in> (dep_rel ss)\<^sup>+" "x \<in> B"
  shows "y \<in> B"
  using assms(2, 3)
proof (induction rule: trancl_induct)
  case (base y)
  with assms(1) [of x] show ?case by (auto simp: dep_rel_def)
next
  case (step y z)
  with assms(1) [of y] show ?case by (auto simp: dep_rel_def)
qed

text \<open>When the search finds nothing, what it visited is free of cycles.\<close>

lemma search_finds_nothing:
  "search_inv ss V R \<Longrightarrow> any_has_cycle ss ds V R = (False, V', R') \<Longrightarrow>
     R' = R \<and> V \<subseteq> V' \<and> set ds \<subseteq> V' - R \<and> search_inv ss V' R"
proof (induction ss ds V R arbitrary: V' R' rule: any_has_cycle.induct)
  case (1 ss V R)
  then show ?case by simp
next
  case (2 ss d ds V R)
  from "2.prems"(2) have dR: "d \<notin> R" by auto
  show ?case
  proof (cases "d \<in> V")
    case True
    with "2.prems" dR "2.IH"(1) show ?thesis by auto
  next
    case False
    obtain b V1 R1 where r: "any_has_cycle ss (deps_of ss d) (insert d V) (insert d R) = (b, V1, R1)"
      by (cases "any_has_cycle ss (deps_of ss d) (insert d V) (insert d R)")
    have nb: "\<not> b" using "2.prems"(2) False dR r by (cases b) auto
    have "insert d V - insert d R = V - R" using False by auto
    then have inv1: "search_inv ss (insert d V) (insert d R)"
      using "2.prems"(1) by (auto simp: search_inv_def)
    have one: "R1 = insert d R" "insert d V \<subseteq> V1" "set (deps_of ss d) \<subseteq> V1 - insert d R"
        "search_inv ss V1 (insert d R)"
      using "2.IH"(2) [OF dR False inv1] r nb by auto
    have d_free: "(d, d) \<notin> (dep_rel ss)\<^sup>+"
    proof
      assume "(d, d) \<in> (dep_rel ss)\<^sup>+"
      then obtain x where x: "(d, x) \<in> dep_rel ss" "(x, d) \<in> (dep_rel ss)\<^sup>*" by (meson tranclD)
      then have "x \<in> V1 - insert d R" using one(3) by (auto simp: dep_rel_def)
      moreover from x(2) this have "x \<noteq> d" by auto
      ultimately have "d \<in> V1 - insert d R"
        using closed_trancl [of "V1 - insert d R" ss x d] one(4) x(2)
        by (auto simp: search_inv_def rtrancl_eq_or_trancl)
      then show False by simp
    qed
    have "R \<subseteq> V" using "2.prems"(1) by (simp add: search_inv_def)
    then have "V1 - R = insert d (V1 - insert d R)" using one(2) dR by auto
    then have inv2: "search_inv ss V1 R"
      using one(2-4) d_free unfolding search_inv_def by auto
    have rest: "any_has_cycle ss ds V1 R = (False, V', R')"
      using "2.prems"(2) False dR r nb one(1) by (simp add: Diff_insert_absorb)
    have "R' = R \<and> V1 \<subseteq> V' \<and> set ds \<subseteq> V' - R \<and> search_inv ss V' R"
      using "2.IH"(3) [OF dR False, of b "(V1, R1)" V1 R1] r nb one(1) inv2 rest dR
      by (simp add: Diff_insert_absorb)
    then show ?thesis using one(2) dR by auto
  qed
qed

text \<open>When it finds something, there is a cycle.\<close>

lemma search_finds_cycle:
  "any_has_cycle ss ds V R = (True, V', R') \<Longrightarrow> search_inv ss V R \<Longrightarrow>
     (\<And>r x. r \<in> R \<Longrightarrow> x \<in> set ds \<Longrightarrow> (r, x) \<in> (dep_rel ss)\<^sup>+) \<Longrightarrow> \<exists>x. (x, x) \<in> (dep_rel ss)\<^sup>+"
proof (induction ss ds V R arbitrary: V' R' rule: any_has_cycle.induct)
  case (1 ss V R)
  then show ?case by simp
next
  case (2 ss d ds V R)
  show ?case
  proof (cases "d \<in> R")
    case True
    with "2.prems"(3) show ?thesis by auto
  next
    case dR: False
    show ?thesis
    proof (cases "d \<in> V")
      case True
      show ?thesis using "2.IH"(1) [OF dR True, of V' R'] "2.prems" dR True by auto
    next
      case False
      obtain b V1 R1 where r: "any_has_cycle ss (deps_of ss d) (insert d V) (insert d R) = (b, V1, R1)"
        by (cases "any_has_cycle ss (deps_of ss d) (insert d V) (insert d R)")
      have "insert d V - insert d R = V - R" using False by auto
      then have inv1: "search_inv ss (insert d V) (insert d R)"
        using "2.prems"(2) by (auto simp: search_inv_def)
      have path: "(r, x) \<in> (dep_rel ss)\<^sup>+" if "r \<in> insert d R" "x \<in> set (deps_of ss d)" for r x
      proof -
        have dx: "(d, x) \<in> dep_rel ss" using that(2) by (simp add: dep_rel_def)
        show ?thesis
        proof (cases "r = d")
          case True
          with dx show ?thesis by auto
        next
          case False
          with that(1) have "(r, d) \<in> (dep_rel ss)\<^sup>+" using "2.prems"(3) by simp
          then show ?thesis using dx by (rule trancl_into_trancl)
        qed
      qed
      show ?thesis
      proof (cases b)
        case True
        with "2.IH"(2) [OF dR False, of V1 R1] r inv1 path show ?thesis by simp
      next
        case nb: False
        have one: "R1 = insert d R" "search_inv ss V1 (insert d R)"
          using search_finds_nothing [OF inv1] r nb by auto
        have "search_inv ss V1 R"
        proof -
          have "any_has_cycle ss [d] V R = (False, V1, R1 - {d})" using dR False r nb by simp
          from search_finds_nothing [OF "2.prems"(2) this] show ?thesis by simp
        qed
        moreover have "any_has_cycle ss ds V1 R = (True, V', R')"
          using "2.prems"(1) False dR r nb one(1) by (simp add: Diff_insert_absorb)
        ultimately show ?thesis
          using "2.IH"(3) [OF dR False, of b "(V1, R1)" V1 R1 V' R'] r nb one(1) "2.prems"(3) dR
          by (simp add: Diff_insert_absorb)
      qed
    qed
  qed
qed

lemma find_cycle_None:
  "search_inv all V {} \<Longrightarrow> find_cycle all ss V {} = None \<Longrightarrow>
     \<exists>V'. search_inv all V' {} \<and> V \<subseteq> V' \<and> step_id ` set ss \<subseteq> V'"
proof (induction ss arbitrary: V)
  case (Cons s ss)
  show ?case
  proof (cases "step_id s \<in> V")
    case True
    with Cons.prems(2) have "find_cycle all ss V {} = None" by simp
    from Cons.IH [OF Cons.prems(1) this] obtain V' where "search_inv all V' {}" "V \<subseteq> V'"
      "step_id ` set ss \<subseteq> V'" by blast
    with True show ?thesis by (intro exI [of _ V']) auto
  next
    case False
    obtain b V1 R1 where r: "has_cycle all (step_id s) V {} = (b, V1, R1)"
      by (cases "has_cycle all (step_id s) V {}")
    with Cons.prems False have nb: "\<not> b" by (cases b) auto
    have one: "R1 = {}" "V \<subseteq> V1" "step_id s \<in> V1" "search_inv all V1 {}"
      using search_finds_nothing [OF Cons.prems(1), of "[step_id s]" V1 R1] r nb
      by (auto simp: has_cycle_def)
    have "find_cycle all ss V1 {} = None" using Cons.prems(2) False r nb one(1) by simp
    from Cons.IH [OF one(4) this] obtain V' where "search_inv all V' {}" "V1 \<subseteq> V'"
      "step_id ` set ss \<subseteq> V'" by blast
    with one(2, 3) show ?thesis by (intro exI [of _ V']) auto
  qed
qed auto

lemma find_cycle_Some:
  "search_inv all V {} \<Longrightarrow> find_cycle all ss V {} = Some i \<Longrightarrow> \<exists>x. (x, x) \<in> (dep_rel all)\<^sup>+"
proof (induction ss arbitrary: V)
  case (Cons s ss)
  show ?case
  proof (cases "step_id s \<in> V")
    case True
    with Cons show ?thesis by simp
  next
    case False
    obtain b V1 R1 where r: "any_has_cycle all [step_id s] V {} = (b, V1, R1)"
      by (cases "any_has_cycle all [step_id s] V {}")
    show ?thesis
    proof (cases b)
      case True
      with search_finds_cycle [of all "[step_id s]" V "{}" V1 R1] r Cons.prems(1) show ?thesis by simp
    next
      case nb: False
      then have "R1 = {}" "search_inv all V1 {}"
        using search_finds_nothing [OF Cons.prems(1), of "[step_id s]" V1 R1] r by auto
      with Cons.IH [of V1] Cons.prems(2) False r nb show ?thesis by (simp add: has_cycle_def)
    qed
  qed
qed simp

lemma cycle_in_nodes: "(x, y) \<in> (dep_rel ss)\<^sup>+ \<Longrightarrow> x \<in> nodes ss"
  using deps_of_unknown by (fastforce simp: dep_rel_def dest: tranclD)

lemma find_cycle_exact: "find_cycle ss ss {} {} = None \<longleftrightarrow> acyclic (dep_rel ss)"
proof
  have empty: "search_inv ss {} {}" by (simp add: search_inv_def)
  {
    assume "find_cycle ss ss {} {} = None"
    from find_cycle_None [OF empty this] obtain V where "search_inv ss V {}" "nodes ss \<subseteq> V"
      by (auto simp: nodes_def)
    then show "acyclic (dep_rel ss)"
      using cycle_in_nodes by (fastforce simp: acyclic_def search_inv_def)
  next
    assume "acyclic (dep_rel ss)"
    then show "find_cycle ss ss {} {} = None"
      using find_cycle_Some [OF empty, of ss] by (cases "find_cycle ss ss {} {}") (auto simp: acyclic_def)
  }
qed

section \<open>Dependencies\<close>

definition deps_exist :: "step_definition list \<Rightarrow> bool" where
  "deps_exist ss \<longleftrightarrow> (\<forall>s\<in>set ss. set (all_dependencies s) \<subseteq> nodes ss)"

lemma steps_map_None_iff: "steps_map ss d = None \<longleftrightarrow> d \<notin> nodes ss"
  by (auto simp: steps_map_def nodes_def map_of_eq_None_iff image_image)

lemma missing_dependency_None: "missing_dependency ss = None \<longleftrightarrow> deps_exist ss"
  by (auto simp: missing_dependency_def find_None_iff deps_exist_def steps_map_None_iff)

lemma find_SomeD: "find P xs = Some x \<Longrightarrow> P x \<and> x \<in> set xs"
  by (induction xs) (auto split: if_splits)

lemma missing_dependency_Some:
  "missing_dependency ss = Some (i, d) \<Longrightarrow>
     d \<notin> nodes ss \<and> (\<exists>s\<in>set ss. step_id s = i \<and> d \<in> set (all_dependencies s))"
  unfolding missing_dependency_def by (drule find_SomeD) (auto simp: steps_map_None_iff)

definition dependents :: "step_definition list \<Rightarrow> step_id \<Rightarrow> nat set" where
  "dependents ss i = {idx. idx < length ss \<and> i \<in> set (all_dependencies (ss ! idx))}"

lemma fold_reverse_deps:
  "set (case fold (\<lambda>(idx, dep) m. m(dep \<mapsto> (case m dep of Some is \<Rightarrow> is | None \<Rightarrow> []) @ [idx])) ps m i of
      Some is \<Rightarrow> is | None \<Rightarrow> [])
     = set (case m i of Some is \<Rightarrow> is | None \<Rightarrow> []) \<union> {idx. (idx, i) \<in> set ps}"
  by (induction ps arbitrary: m) (auto split: option.splits if_splits)

lemma reverse_deps_set:
  "set (case build_reverse_deps ss i of Some is \<Rightarrow> is | None \<Rightarrow> []) = dependents ss i"
  unfolding build_reverse_deps_def fold_reverse_deps by (auto simp: dependents_def)

lemma validate_reverse_deps: "validate w = Inr v \<Longrightarrow> reverse_deps v = build_reverse_deps (steps w)"
  by (auto simp: validate_def split: option.splits)

lemma dependents_exact:
  "validate w = Inr v \<Longrightarrow> set (get_dependent_indices v i) = dependents (steps w) i"
  unfolding get_dependent_indices_def by (simp only: validate_reverse_deps reverse_deps_set)

lemma validate_steps: "validate w = Inr v \<Longrightarrow> steps v = steps w"
  by (auto simp: validate_def split: option.splits)

section \<open>Properties\<close>

text \<open>
  C23: Validation accepts a workflow exactly when every dependency names a step and the
  dependencies, of both kinds together, have no cycle; a missing dependency is reported as
  such with the step that has it, and a cycle is reported only if there is one.
\<close>

theorem validate_exact:
  "case validate w of
     Inr v \<Rightarrow> deps_exist (steps w) \<and> acyclic (dep_rel (steps w))
   | Inl (MissingDependency i d) \<Rightarrow>
       d \<notin> nodes (steps w) \<and> (\<exists>s. s \<in> set (steps w) \<and> step_id s = i \<and> d \<in> set (all_dependencies s))
   | Inl (CycleDetected i) \<Rightarrow> deps_exist (steps w) \<and> \<not> acyclic (dep_rel (steps w))"
proof (cases "missing_dependency (steps w)")
  case None
  then show ?thesis
    using find_cycle_exact [of "steps w"] missing_dependency_None [of "steps w"]
    by (cases "find_cycle (steps w) (steps w) {} {}") (simp_all add: validate_def)
next
  case (Some p)
  obtain i d where "p = (i, d)" by (cases p)
  with missing_dependency_Some [of "steps w" i d] Some show ?thesis by (auto simp: validate_def)
qed

end
