(* ===== verification/WorkflowEngine.thy ===== *)
theory WorkflowEngine
  imports WorkflowDag "HOL-Library.AList"
begin

text \<open>
  The scheduler of the workflow engine (\<open>crates/workflow/src/engine.rs\<close>, \<open>execute_workflow\<close>):
  the tracker of steps, and the loop of the scheduler together with the tasks it spawns as a
  state machine with one step for each acquisition of the lock of the tracker. The scheduler
  drains the completion channel, reads the tracker, updates the waiting map, launches steps or
  ends the run, and then waits for a signal. Tasks finish in between at any point. A step that ran ends in one critical section that updates
  the tracker and sends the signal; a step that its condition skips or whose context is
  missing updates the tracker first and sends its signal later. What a step computes and its
  retries are the outcome of its task; events and the state store are not modelled.
\<close>

section \<open>Tracker\<close>

record step_tracker =
  completed :: "step_id set"
  failed :: "step_id set"
  skipped :: "step_id set"
  running :: "step_id set"
  waiting_until :: "(nat \<times> nat) list"

definition tracker_default :: step_tracker where
  "tracker_default = \<lparr>completed = {}, failed = {}, skipped = {}, running = {}, waiting_until = []\<rparr>"

definition total_processed :: "step_tracker \<Rightarrow> nat" where
  "total_processed t = card (completed t) + card (failed t) + card (skipped t)"

definition is_step_processable :: "step_tracker \<Rightarrow> step_id \<Rightarrow> nat \<Rightarrow> bool" where
  "is_step_processable t i idx \<longleftrightarrow> i \<notin> completed t \<and> i \<notin> failed t \<and> i \<notin> skipped t
     \<and> i \<notin> running t \<and> idx \<notin> fst ` set (waiting_until t)"

definition get_ready_waiting_indices :: "nat \<Rightarrow> step_tracker \<Rightarrow> nat list" where
  "get_ready_waiting_indices now t = map fst (filter (\<lambda>(idx, ready_at). now \<ge> ready_at) (waiting_until t))"

definition set_waiting :: "nat \<Rightarrow> nat \<Rightarrow> step_tracker \<Rightarrow> step_tracker" where
  "set_waiting idx ready_at t = t\<lparr>waiting_until := AList.update idx ready_at (waiting_until t)\<rparr>"

definition clear_waiting :: "nat \<Rightarrow> step_tracker \<Rightarrow> step_tracker" where
  "clear_waiting idx t = t\<lparr>waiting_until := AList.delete idx (waiting_until t)\<rparr>"

definition are_dependencies_satisfied :: "step_tracker \<Rightarrow> step_id list \<Rightarrow> bool" where
  "are_dependencies_satisfied t ds \<longleftrightarrow> list_all (\<lambda>d. d \<in> completed t \<or> d \<in> skipped t) ds"

definition is_any_dependency_satisfied :: "step_tracker \<Rightarrow> step_id list \<Rightarrow> bool" where
  "is_any_dependency_satisfied t ds \<longleftrightarrow>
     ds = [] \<or> list_ex (\<lambda>d. d \<in> completed t \<or> d \<in> skipped t) ds"

definition has_failed_dependency :: "step_tracker \<Rightarrow> step_id list \<Rightarrow> bool" where
  "has_failed_dependency t ds \<longleftrightarrow> list_ex (\<lambda>d. d \<in> failed t) ds"

definition have_all_any_deps_failed :: "step_tracker \<Rightarrow> step_id list \<Rightarrow> bool" where
  "have_all_any_deps_failed t ds \<longleftrightarrow> ds \<noteq> [] \<and> list_all (\<lambda>d. d \<in> failed t) ds"

text \<open>The time a step still has to wait, from its delay and its schedule.\<close>

definition calculate_wait_duration :: "nat \<Rightarrow> step_definition \<Rightarrow> duration option" where
  "calculate_wait_duration now s =
     (let schedule_wait = (case scheduled_at s of
            Some t \<Rightarrow> if now < t then Some (t - now) else None
          | None \<Rightarrow> None)
      in case (step_delay s, schedule_wait) of
           (Some d, Some w) \<Rightarrow> Some (d + w)
         | (Some d, None) \<Rightarrow> Some d
         | (None, Some w) \<Rightarrow> Some w
         | (None, None) \<Rightarrow> None)"

section \<open>Runs\<close>

datatype step_result = Success | Failure | Skip

text \<open>A task executes its step, or has updated the tracker and still has to send its signal.\<close>

datatype task = Executing nat | Unsent nat step_result

datatype run_end = RunCompleted | StepsFailed | DependencyFailed | Deadlocked | RunCancelled | StoreFailed

text \<open>What the scheduler takes from its reading of the tracker.\<close>

record reading =
  wait_ready :: "nat list"
  deps_ready_indices :: "nat list"
  seen_processed :: nat
  seen_running :: nat
  seen_waiting :: nat

text \<open>The place of the scheduler in its loop, with the local variables that are alive there.\<close>

datatype run_pc =
    AtDrain
  | AtRead
  | AtPlace reading
  | AtLaunch reading "nat list" nat
  | AtWait nat
  | AtRecv
  | Finished run_end

record run_state =
  tracker :: step_tracker
  channel :: "(step_id \<times> step_result) list"
  pending_check :: "nat list"
  tasks :: "task list"
  launches :: "nat list"
  run_pc :: run_pc

definition run_start :: "workflow_definition \<Rightarrow> run_state" where
  "run_start w = \<lparr>tracker = tracker_default, channel = [], pending_check = initial_step_indices w,
     tasks = [], launches = [], run_pc = AtDrain\<rparr>"

definition signal_dependents :: "workflow_definition \<Rightarrow> step_id \<times> step_result \<Rightarrow> nat list" where
  "signal_dependents w x = (case x of (i, r) \<Rightarrow>
     if r = Success \<or> r = Skip then get_dependent_indices w i else [])"

text \<open>
  The top of the loop: the cancellation check, whose answer is an argument (\<^term>\<open>None\<close> when the
  store fails), and the draining of the channel.
\<close>

definition drain :: "workflow_definition \<Rightarrow> bool option \<Rightarrow> run_state \<Rightarrow> run_state" where
  "drain w cancelled s = (case cancelled of
       None \<Rightarrow> s\<lparr>run_pc := Finished StoreFailed\<rparr>
     | Some True \<Rightarrow> s\<lparr>run_pc := Finished RunCancelled\<rparr>
     | Some False \<Rightarrow>
         s\<lparr>pending_check := pending_check s @ concat (map (signal_dependents w) (channel s)),
           channel := [], run_pc := AtRead\<rparr>)"

definition deps_ready :: "workflow_definition \<Rightarrow> step_tracker \<Rightarrow> nat \<Rightarrow> bool" where
  "deps_ready w t idx =
     (let s = steps w ! idx in
      is_step_processable t (step_id s) idx
      \<and> are_dependencies_satisfied t (depends_on s)
      \<and> is_any_dependency_satisfied t (depends_on_any s)
      \<and> \<not> has_failed_dependency t (depends_on s)
      \<and> \<not> have_all_any_deps_failed t (depends_on_any s))"

definition read_tracker :: "workflow_definition \<Rightarrow> nat \<Rightarrow> run_state \<Rightarrow> run_state" where
  "read_tracker w now s = (let t = tracker s in
     s\<lparr>pending_check := [],
       run_pc := AtPlace
         \<lparr>wait_ready = get_ready_waiting_indices now t,
          deps_ready_indices = filter (deps_ready w t) (pending_check s),
          seen_processed = total_processed t,
          seen_running = card (running t),
          seen_waiting = length (waiting_until t)\<rparr>\<rparr>)"

text \<open>
  The loop over the steps with satisfied dependencies: a step with a delay or a schedule is put
  to wait, the others are collected, each once. Every round has a reading of the wall clock of
  its own; \<open>walls\<close> lists them.
\<close>

fun place_ready ::
    "workflow_definition \<Rightarrow> nat \<Rightarrow> (nat \<times> nat) list \<Rightarrow> step_tracker \<Rightarrow> nat list \<Rightarrow> nat
       \<Rightarrow> step_tracker \<times> nat list \<times> nat" where
  "place_ready w now [] t ready added = (t, ready, added)"
| "place_ready w now ((idx, wall) # rest) t ready added =
     (case calculate_wait_duration wall (steps w ! idx) of
        Some d \<Rightarrow>
          if d > 0 then place_ready w now rest (set_waiting idx (now + d) t) ready (added + 1)
          else place_ready w now rest t (if idx \<in> set ready then ready else ready @ [idx]) added
      | None \<Rightarrow> place_ready w now rest t (if idx \<in> set ready then ready else ready @ [idx]) added)"

definition place :: "workflow_definition \<Rightarrow> nat \<Rightarrow> (nat \<Rightarrow> nat) \<Rightarrow> reading \<Rightarrow> run_state \<Rightarrow> run_state" where
  "place w now wall r s =
     (let ds = deps_ready_indices r;
          (t, ready, added) = place_ready w now (zip ds (map wall [0..<length ds]))
            (fold clear_waiting (wait_ready r) (tracker s)) (fold (\<lambda>i xs. if i \<in> set xs then xs else xs @ [i]) (wait_ready r) []) 0
      in s\<lparr>tracker := t, run_pc := AtLaunch r ready added\<rparr>)"

definition launch :: "workflow_definition \<Rightarrow> reading \<Rightarrow> nat list \<Rightarrow> nat \<Rightarrow> run_state \<Rightarrow> run_state" where
  "launch w r ready added s =
     (let t = tracker s in
      if seen_processed r = length (steps w) then
        s\<lparr>run_pc := Finished (if failed t \<noteq> {} then StepsFailed else RunCompleted)\<rparr>
      else if ready = [] \<and> seen_running r = 0 \<and> seen_waiting r + added = 0 \<and> pending_check s = [] then
        s\<lparr>run_pc := Finished (if failed t \<noteq> {} then DependencyFailed else Deadlocked)\<rparr>
      else
        s\<lparr>tracker := t\<lparr>running := running t \<union> set (map (\<lambda>idx. step_id (steps w ! idx)) ready)\<rparr>,
          tasks := tasks s @ map Executing ready, launches := launches s @ ready,
          run_pc := AtWait (length ready)\<rparr>)"

text \<open>A sleep for a waiting step leaves the state as it is.\<close>

definition choose_wait :: "nat \<Rightarrow> run_state \<Rightarrow> run_state" where
  "choose_wait tasks_launched s =
     s\<lparr>run_pc := (if tasks_launched > 0 \<or> running (tracker s) \<noteq> {} then AtRecv else AtDrain)\<rparr>"

definition recv :: "workflow_definition \<Rightarrow> run_state \<Rightarrow> run_state" where
  "recv w s = (case channel s of
       [] \<Rightarrow> s
     | x # xs \<Rightarrow> s\<lparr>channel := xs, pending_check := pending_check s @ signal_dependents w x,
                    run_pc := AtDrain\<rparr>)"

text \<open>\<open>try_send\<close> drops the signal when the bounded channel is full or the run has ended.\<close>

definition is_finished :: "run_pc \<Rightarrow> bool" where
  "is_finished pc = (case pc of Finished e \<Rightarrow> True | _ \<Rightarrow> False)"

definition send :: "workflow_definition \<Rightarrow> step_id \<times> step_result \<Rightarrow> run_state \<Rightarrow> run_state" where
  "send w x s =
     (if length (channel s) < max (length (steps w)) 1 \<and> \<not> is_finished (run_pc s)
      then s\<lparr>channel := channel s @ [x]\<rparr> else s)"

text \<open>The critical section at the end of a task whose step ran.\<close>

definition record_result :: "step_definition \<Rightarrow> step_result \<Rightarrow> step_tracker \<Rightarrow> step_tracker \<times> step_result" where
  "record_result d result t =
     (let i = step_id d; t = t\<lparr>running := running t - {i}\<rparr> in
      case result of
        Success \<Rightarrow> (t\<lparr>completed := insert i (completed t)\<rparr>, Success)
      | Skip \<Rightarrow> (t\<lparr>skipped := insert i (skipped t)\<rparr>, Skip)
      | Failure \<Rightarrow> (case on_failure d of
          ContinueNextStep \<Rightarrow> (t\<lparr>skipped := insert i (skipped t)\<rparr>, Skip)
        | _ \<Rightarrow> (t\<lparr>failed := insert i (failed t)\<rparr>, Failure)))"

definition finish_task :: "workflow_definition \<Rightarrow> nat \<Rightarrow> step_result \<Rightarrow> run_state \<Rightarrow> run_state" where
  "finish_task w idx result s =
     (case record_result (steps w ! idx) result (tracker s) of (t, sig) \<Rightarrow>
        send w (step_id (steps w ! idx), sig)
          (s\<lparr>tracker := t, tasks := remove1 (Executing idx) (tasks s)\<rparr>))"

text \<open>The two halves of a task whose condition is false or whose context is missing.\<close>

definition mark_task :: "workflow_definition \<Rightarrow> nat \<Rightarrow> bool \<Rightarrow> run_state \<Rightarrow> run_state" where
  "mark_task w idx context_found s =
     (let i = step_id (steps w ! idx);
          t = (tracker s)\<lparr>running := running (tracker s) - {i}\<rparr>
      in if context_found
         then s\<lparr>tracker := t\<lparr>skipped := insert i (skipped t)\<rparr>,
                tasks := Unsent idx Skip # remove1 (Executing idx) (tasks s)\<rparr>
         else s\<lparr>tracker := t\<lparr>failed := insert i (failed t)\<rparr>,
                tasks := Unsent idx Failure # remove1 (Executing idx) (tasks s)\<rparr>)"

definition send_task :: "workflow_definition \<Rightarrow> nat \<Rightarrow> step_result \<Rightarrow> run_state \<Rightarrow> run_state" where
  "send_task w idx r s =
     send w (step_id (steps w ! idx), r) (s\<lparr>tasks := remove1 (Unsent idx r) (tasks s)\<rparr>)"

text \<open>
  What can happen in a run: the moves of the scheduler and of the tasks. A move that is not
  possible in a state leaves it as it is.
\<close>

datatype run_event =
    Drain "bool option"
  | ReadTracker nat
  | Place nat "nat \<Rightarrow> nat"
  | Launch
  | ChooseWait
  | Recv
  | FinishTask nat step_result
  | MarkTask nat bool
  | SendTask nat step_result

fun run_step :: "workflow_definition \<Rightarrow> run_state \<Rightarrow> run_event \<Rightarrow> run_state" where
  "run_step w s (Drain cancelled) = (if run_pc s = AtDrain then drain w cancelled s else s)"
| "run_step w s (ReadTracker now) = (if run_pc s = AtRead then read_tracker w now s else s)"
| "run_step w s (Place now wall) = (case run_pc s of AtPlace r \<Rightarrow> place w now wall r s | _ \<Rightarrow> s)"
| "run_step w s Launch = (case run_pc s of AtLaunch r ready added \<Rightarrow> launch w r ready added s | _ \<Rightarrow> s)"
| "run_step w s ChooseWait = (case run_pc s of AtWait n \<Rightarrow> choose_wait n s | _ \<Rightarrow> s)"
| "run_step w s Recv = (if run_pc s = AtRecv then recv w s else s)"
| "run_step w s (FinishTask idx res) = (if Executing idx \<in> set (tasks s) then finish_task w idx res s else s)"
| "run_step w s (MarkTask idx found) =
     (if Executing idx \<in> set (tasks s) \<and> has_run_if (steps w ! idx) then mark_task w idx found s else s)"
| "run_step w s (SendTask idx res) = (if Unsent idx res \<in> set (tasks s) then send_task w idx res s else s)"

definition run_events :: "workflow_definition \<Rightarrow> run_event list \<Rightarrow> run_state" where
  "run_events w es = foldl (run_step w) (run_start w) es"

section \<open>Launching\<close>

definition step_ident :: "workflow_definition \<Rightarrow> nat \<Rightarrow> step_id" where
  "step_ident w idx = step_id (steps w ! idx)"

definition started :: "step_tracker \<Rightarrow> step_id set" where
  "started t = completed t \<union> failed t \<union> skipped t \<union> running t"

definition satisfied :: "step_tracker \<Rightarrow> step_definition \<Rightarrow> bool" where
  "satisfied t s \<longleftrightarrow> are_dependencies_satisfied t (depends_on s)
     \<and> is_any_dependency_satisfied t (depends_on_any s)"

definition task_index :: "task \<Rightarrow> nat" where
  "task_index x = (case x of Executing i \<Rightarrow> i | Unsent i r \<Rightarrow> i)"

definition waiting_keys :: "step_tracker \<Rightarrow> nat set" where
  "waiting_keys t = fst ` set (waiting_until t)"

text \<open>A step with a schedule also has a delay: whether it has to wait does not depend on the time.\<close>

definition steady :: "workflow_definition \<Rightarrow> bool" where
  "steady w \<longleftrightarrow> list_all (\<lambda>s. scheduled_at s = None \<or> (case step_delay s of Some d \<Rightarrow> d > 0 | None \<Rightarrow> False)) (steps w)"

definition valid_indices :: "workflow_definition \<Rightarrow> bool" where
  "valid_indices w \<longleftrightarrow> (\<forall>i \<in> set (initial_step_indices w). i < length (steps w) \<and>
       depends_on (steps w ! i) = [] \<and> depends_on_any (steps w ! i) = [])
     \<and> (\<forall>d. \<forall>i \<in> set (get_dependent_indices w d). i < length (steps w))"

definition launchable :: "workflow_definition \<Rightarrow> run_state \<Rightarrow> nat \<Rightarrow> bool" where
  "launchable w s i \<longleftrightarrow> i < length (steps w) \<and> i \<notin> set (launches s) \<and> satisfied (tracker s) (steps w ! i)"

definition pc_inv :: "workflow_definition \<Rightarrow> run_state \<Rightarrow> bool" where
  "pc_inv w s = (case run_pc s of
       AtPlace r \<Rightarrow> (\<forall>i \<in> set (wait_ready r) \<union> set (deps_ready_indices r). launchable w s i)
         \<and> set (deps_ready_indices r) \<inter> waiting_keys (tracker s) = {}
         \<and> set (wait_ready r) \<subseteq> waiting_keys (tracker s)
     | AtLaunch r ready added \<Rightarrow> distinct ready \<and> (\<forall>i \<in> set ready. launchable w s i)
         \<and> set ready \<inter> waiting_keys (tracker s) = {}
     | _ \<Rightarrow> True)"

definition launch_inv :: "workflow_definition \<Rightarrow> run_state \<Rightarrow> bool" where
  "launch_inv w s \<longleftrightarrow>
     distinct (launches s)
     \<and> (\<forall>i \<in> set (launches s). i < length (steps w) \<and> satisfied (tracker s) (steps w ! i))
     \<and> started (tracker s) = step_ident w ` set (launches s)
     \<and> (\<forall>i \<in> waiting_keys (tracker s). launchable w s i)
     \<and> (\<forall>i \<in> set (pending_check s). i < length (steps w))
     \<and> (\<forall>x \<in> set (tasks s). task_index x \<in> set (launches s))
     \<and> pc_inv w s"

lemma satisfied_mono:
  "satisfied t d \<Longrightarrow> completed t \<union> skipped t \<subseteq> completed t' \<union> skipped t' \<Longrightarrow> satisfied t' d"
  unfolding satisfied_def are_dependencies_satisfied_def is_any_dependency_satisfied_def
  by (auto simp: list_all_iff list_ex_iff)

lemma deps_ready_launchable:
  assumes "launch_inv w s" "i < length (steps w)" "deps_ready w (tracker s) i"
  shows "launchable w s i" and "i \<notin> waiting_keys (tracker s)"
proof -
  have p: "is_step_processable (tracker s) (step_ident w i) i" "satisfied (tracker s) (steps w ! i)"
    using assms(3) by (auto simp: deps_ready_def Let_def satisfied_def step_ident_def)
  have "step_ident w i \<notin> started (tracker s)"
    using p(1) by (auto simp: is_step_processable_def started_def)
  then have "i \<notin> set (launches s)" using assms(1) by (auto simp: launch_inv_def)
  then show "launchable w s i" using assms(2) p(2) by (simp add: launchable_def)
  show "i \<notin> waiting_keys (tracker s)" using p(1) by (simp add: is_step_processable_def waiting_keys_def)
qed

lemma get_ready_keys: "set (get_ready_waiting_indices now t) \<subseteq> waiting_keys t"
  by (auto simp: get_ready_waiting_indices_def waiting_keys_def)

text \<open>A change of the tracker by a task: what was satisfied stays satisfied.\<close>

definition same_plan :: "run_state \<Rightarrow> run_state \<Rightarrow> bool" where
  "same_plan s s' \<longleftrightarrow> launches s' = launches s \<and> run_pc s' = run_pc s
     \<and> pending_check s' = pending_check s \<and> waiting_until (tracker s') = waiting_until (tracker s)
     \<and> started (tracker s') = started (tracker s)
     \<and> completed (tracker s) \<union> skipped (tracker s) \<subseteq> completed (tracker s') \<union> skipped (tracker s')"

lemma launchable_same_plan: "same_plan s s' \<Longrightarrow> launchable w s i \<Longrightarrow> launchable w s' i"
  unfolding launchable_def same_plan_def using satisfied_mono by metis

lemma launch_inv_same_plan:
  assumes "launch_inv w s" "same_plan s s'" "\<And>x. x \<in> set (tasks s') \<Longrightarrow> task_index x \<in> set (launches s)"
  shows "launch_inv w s'"
proof -
  note e = assms(2) [unfolded same_plan_def]
  have k: "waiting_keys (tracker s') = waiting_keys (tracker s)" using e by (simp add: waiting_keys_def)
  have sat: "satisfied (tracker s') d" if "satisfied (tracker s) d" for d
    using satisfied_mono that e by blast
  have "pc_inv w s'"
    using assms(1) launchable_same_plan [OF assms(2)] k e
    by (auto simp: launch_inv_def pc_inv_def split: run_pc.splits)
  then show ?thesis
    using assms(1, 3) launchable_same_plan [OF assms(2)] k e sat by (auto simp: launch_inv_def)
qed

lemma send_same: "same_plan s s' \<Longrightarrow> same_plan s (send w x s')" "tasks (send w x s') = tasks s'"
  by (auto simp: send_def same_plan_def)

lemma finish_same_plan:
  assumes "step_ident w idx \<in> started (tracker s)"
  shows "same_plan s (finish_task w idx res s)"
proof -
  obtain t sig where r: "record_result (steps w ! idx) res (tracker s) = (t, sig)"
    by (cases "record_result (steps w ! idx) res (tracker s)")
  have "same_plan s (s\<lparr>tracker := t, tasks := remove1 (Executing idx) (tasks s)\<rparr>)"
    using r assms
    by (auto simp: record_result_def same_plan_def started_def step_ident_def Let_def
        split: step_result.splits failure_action.splits)
  then show ?thesis using r by (simp add: finish_task_def send_same)
qed

lemma finish_tasks: "set (tasks (finish_task w idx res s)) \<subseteq> set (tasks s)"
proof -
  obtain t sig where r: "record_result (steps w ! idx) res (tracker s) = (t, sig)"
    by (cases "record_result (steps w ! idx) res (tracker s)")
  then show ?thesis using set_remove1_subset by (fastforce simp: finish_task_def send_same)
qed

lemma mark_same_plan:
  "step_ident w idx \<in> started (tracker s) \<Longrightarrow> same_plan s (mark_task w idx found s)"
  by (auto simp: mark_task_def same_plan_def started_def step_ident_def Let_def)

lemma executing_started:
  "launch_inv w s \<Longrightarrow> Executing idx \<in> set (tasks s) \<Longrightarrow>
     idx \<in> set (launches s) \<and> step_ident w idx \<in> started (tracker s)"
  by (force simp: launch_inv_def task_index_def)

lemma finish_inv:
  assumes "launch_inv w s" "Executing idx \<in> set (tasks s)"
  shows "launch_inv w (finish_task w idx res s)"
proof (rule launch_inv_same_plan [OF assms(1) finish_same_plan])
  show "step_ident w idx \<in> started (tracker s)" using executing_started [OF assms] by simp
  fix x
  assume "x \<in> set (tasks (finish_task w idx res s))"
  then show "task_index x \<in> set (launches s)"
    using subsetD [OF finish_tasks] assms(1) by (auto simp: launch_inv_def)
qed

lemma mark_inv:
  assumes "launch_inv w s" "Executing idx \<in> set (tasks s)"
  shows "launch_inv w (mark_task w idx found s)"
proof (rule launch_inv_same_plan [OF assms(1) mark_same_plan])
  show "step_ident w idx \<in> started (tracker s)" using executing_started [OF assms] by simp
  fix x
  assume "x \<in> set (tasks (mark_task w idx found s))"
  then have "x \<in> set (tasks s) \<or> task_index x = idx"
    using subsetD [OF set_remove1_subset, of x _ "tasks s"]
    by (auto simp: mark_task_def Let_def task_index_def split: if_splits)
  then show "task_index x \<in> set (launches s)"
    using executing_started [OF assms] assms(1) by (auto simp: launch_inv_def)
qed

lemma send_inv:
  assumes "launch_inv w s"
  shows "launch_inv w (send_task w idx res s)"
proof (rule launch_inv_same_plan [OF assms])
  show "same_plan s (send_task w idx res s)"
    unfolding send_task_def by (rule send_same) (simp add: same_plan_def)
  fix x
  assume "x \<in> set (tasks (send_task w idx res s))"
  then have "x \<in> set (tasks s)"
    using subsetD [OF set_remove1_subset, of x _ "tasks s"] by (auto simp: send_task_def send_same)
  then show "task_index x \<in> set (launches s)" using assms by (auto simp: launch_inv_def)
qed

lemma signal_dependents_valid:
  "valid_indices w \<Longrightarrow> i \<in> set (signal_dependents w x) \<Longrightarrow> i < length (steps w)"
  by (auto simp: signal_dependents_def valid_indices_def split: prod.splits if_splits)

lemma drain_inv:
  assumes "launch_inv w s" "valid_indices w"
  shows "launch_inv w (drain w cancelled s)"
  using assms signal_dependents_valid [OF assms(2)]
  by (auto simp: drain_def launch_inv_def pc_inv_def launchable_def split: option.splits bool.splits)

lemma recv_inv:
  assumes "launch_inv w s" "valid_indices w" "run_pc s = AtRecv"
  shows "launch_inv w (recv w s)"
  using assms signal_dependents_valid [OF assms(2)]
  by (auto simp: recv_def launch_inv_def pc_inv_def launchable_def split: list.splits)

lemma choose_wait_inv: "launch_inv w s \<Longrightarrow> launch_inv w (choose_wait n s)"
  by (auto simp: choose_wait_def launch_inv_def pc_inv_def launchable_def)

lemma read_inv:
  assumes "launch_inv w s"
  shows "launch_inv w (read_tracker w now s)"
proof -
  let ?s = "read_tracker w now s" and ?t = "tracker s"
  let ?W = "get_ready_waiting_indices now ?t" and ?D = "filter (deps_ready w ?t) (pending_check s)"
  have l: "launchable w ?s = launchable w s" by (rule ext) (simp add: read_tracker_def launchable_def Let_def)
  have d: "launchable w s i \<and> i \<notin> waiting_keys ?t" if "i \<in> set ?D" for i
    using that deps_ready_launchable [OF assms, of i] assms by (simp add: launch_inv_def)
  have wk: "set ?W \<subseteq> waiting_keys ?t" by (rule get_ready_keys)
  then have "launchable w s i" if "i \<in> set ?W" for i using that assms by (auto simp: launch_inv_def)
  with d wk have "(\<forall>i \<in> set ?W \<union> set ?D. launchable w s i) \<and> set ?D \<inter> waiting_keys ?t = {} \<and> set ?W \<subseteq> waiting_keys ?t"
    by blast
  then have "pc_inv w ?s" unfolding pc_inv_def l by (simp add: read_tracker_def Let_def)
  then show ?thesis using assms unfolding launch_inv_def l by (simp add: read_tracker_def Let_def)
qed

lemma launch_step_inv:
  assumes "launch_inv w s" "run_pc s = AtLaunch r ready added"
  shows "launch_inv w (launch w r ready added s)"
proof -
  have p: "distinct ready" "\<And>i. i \<in> set ready \<Longrightarrow> launchable w s i"
    "set ready \<inter> waiting_keys (tracker s) = {}"
    using assms by (auto simp: launch_inv_def pc_inv_def)
  let ?s = "s\<lparr>tracker := (tracker s)\<lparr>running := running (tracker s) \<union> set (map (\<lambda>idx. step_id (steps w ! idx)) ready)\<rparr>,
    tasks := tasks s @ map Executing ready, launches := launches s @ ready, run_pc := AtWait (length ready)\<rparr>"
  have sat: "satisfied (tracker ?s) d = satisfied (tracker s) d" for d
    by (simp add: satisfied_def are_dependencies_satisfied_def is_any_dependency_satisfied_def)
  have wk: "waiting_keys (tracker ?s) = waiting_keys (tracker s)" by (simp add: waiting_keys_def)
  have st: "started (tracker ?s) = started (tracker s) \<union> step_ident w ` set ready"
    by (auto simp: started_def step_ident_def)
  have la: "launchable w ?s i \<longleftrightarrow> launchable w s i \<and> i \<notin> set ready" for i
    unfolding launchable_def sat by auto
  have pc: "pc_inv w ?s" by (simp add: pc_inv_def)
  have old: "\<forall>i \<in> set (launches s). i < length (steps w) \<and> satisfied (tracker s) (steps w ! i)"
    "\<forall>i \<in> waiting_keys (tracker s). launchable w s i" using assms(1) by (simp_all add: launch_inv_def)
  have new: "\<forall>i \<in> set ready. i < length (steps w) \<and> i \<notin> set (launches s) \<and> satisfied (tracker s) (steps w ! i)"
    using p(2) by (simp add: launchable_def)
  have wt: "\<forall>i \<in> waiting_keys (tracker s). launchable w s i \<and> i \<notin> set ready" using old(2) p(3) by blast
  have ts: "\<forall>x \<in> set (tasks ?s). task_index x \<in> set (launches ?s)"
    using assms(1) by (auto simp: launch_inv_def task_index_def)
  have ls: "distinct (launches ?s)" "\<forall>i \<in> set (launches ?s). i < length (steps w) \<and> satisfied (tracker s) (steps w ! i)"
    using assms(1) p(1) new old(1) by (auto simp: launch_inv_def)
  have "launch_inv w ?s"
    unfolding launch_inv_def sat wk st la using ls wt ts pc assms(1)
    by (simp add: launch_inv_def image_Un)
  moreover have "launch_inv w (s\<lparr>run_pc := Finished e\<rparr>)" for e
    using assms(1) by (simp add: launch_inv_def pc_inv_def launchable_def)
  ultimately show ?thesis by (simp add: launch_def Let_def)
qed

text \<open>Placing: delayed steps go to the waiting map, the others to the steps to launch.\<close>

definition has_delay :: "workflow_definition \<Rightarrow> nat \<Rightarrow> bool" where
  "has_delay w i = (case step_delay (steps w ! i) of Some d \<Rightarrow> d > 0 | None \<Rightarrow> False)"

lemma steady_wait:
  assumes "steady w" "i < length (steps w)"
  shows "(\<exists>d > 0. calculate_wait_duration wall (steps w ! i) = Some d) \<longleftrightarrow> has_delay w i"
proof -
  have "steps w ! i \<in> set (steps w)" using assms(2) by simp
  then have "scheduled_at (steps w ! i) = None \<or> has_delay w i"
    using assms(1) by (auto simp: steady_def list_all_iff has_delay_def)
  then show ?thesis
    by (auto simp: has_delay_def calculate_wait_duration_def Let_def split: option.splits)
qed

lemma place_ready_simp:
  assumes "steady w" "idx < length (steps w)"
  shows "\<exists>t1. place_ready w now ((idx, wall) # rest) t ready added =
     (if has_delay w idx then place_ready w now rest t1 ready (added + 1)
      else place_ready w now rest t (if idx \<in> set ready then ready else ready @ [idx]) added)
     \<and> t1\<lparr>waiting_until := []\<rparr> = t\<lparr>waiting_until := []\<rparr>
     \<and> waiting_keys t1 = insert idx (waiting_keys t)"
proof (cases "has_delay w idx")
  case True
  then obtain d where d: "d > 0" "calculate_wait_duration wall (steps w ! idx) = Some d"
    using steady_wait [OF assms] by blast
  show ?thesis
    by (rule exI [of _ "set_waiting idx (now + d) t"])
      (use d True in \<open>simp add: set_waiting_def waiting_keys_def dom_update\<close>)
next
  case False
  then have "calculate_wait_duration wall (steps w ! idx) = None \<or>
      calculate_wait_duration wall (steps w ! idx) = Some 0"
    using steady_wait [OF assms, of wall] by (cases "calculate_wait_duration wall (steps w ! idx)") auto
  with False show ?thesis
    by - (rule exI [of _ "set_waiting idx 0 t"], auto simp: set_waiting_def waiting_keys_def dom_update)
qed

lemma place_ready_spec:
  assumes "steady w" "\<And>x. x \<in> set xs \<Longrightarrow> fst x < length (steps w)" "distinct ready"
    "place_ready w now xs t ready added = (t', ready', added')"
  shows "t'\<lparr>waiting_until := []\<rparr> = t\<lparr>waiting_until := []\<rparr>
    \<and> waiting_keys t' = waiting_keys t \<union> {i \<in> fst ` set xs. has_delay w i}
    \<and> distinct ready' \<and> set ready' = set ready \<union> {i \<in> fst ` set xs. \<not> has_delay w i}"
  using assms(2-)
proof (induction xs arbitrary: t ready added)
  case Nil
  then show ?case by auto
next
  case (Cons x xs)
  obtain idx wall where x: "x = (idx, wall)" by (cases x)
  then have i: "idx < length (steps w)" using Cons.prems(1) [of x] by simp
  from place_ready_simp [OF assms(1) i, of now wall xs t ready added] obtain t1 where
    e: "place_ready w now (x # xs) t ready added =
     (if has_delay w idx then place_ready w now xs t1 ready (added + 1)
      else place_ready w now xs t (if idx \<in> set ready then ready else ready @ [idx]) added)"
    "t1\<lparr>waiting_until := []\<rparr> = t\<lparr>waiting_until := []\<rparr>" "waiting_keys t1 = insert idx (waiting_keys t)"
    unfolding x by blast
  show ?case
  proof (cases "has_delay w idx")
    case True
    then have r: "place_ready w now xs t1 ready (added + 1) = (t', ready', added')" using e(1) Cons.prems(3) by simp
    show ?thesis using Cons.IH [OF _ Cons.prems(2) r] Cons.prems(1) True e(2, 3) by (auto simp: x)
  next
    case False
    let ?r = "if idx \<in> set ready then ready else ready @ [idx]"
    have r: "place_ready w now xs t ?r added = (t', ready', added')" using False e(1) Cons.prems(3) by simp
    have "distinct ?r" using Cons.prems(2) by simp
    from Cons.IH [OF _ this r] Cons.prems(1) False show ?thesis by (auto simp: x)
  qed
qed

lemma fold_clear:
  "(fold clear_waiting js t)\<lparr>waiting_until := []\<rparr> = t\<lparr>waiting_until := []\<rparr>
   \<and> waiting_keys (fold clear_waiting js t) = waiting_keys t - set js"
proof (induction js arbitrary: t)
  case (Cons i js)
  have "waiting_keys (clear_waiting i t) = waiting_keys t - {i}"
    by (auto simp: clear_waiting_def waiting_keys_def AList.delete_eq)
  moreover have "(clear_waiting i t)\<lparr>waiting_until := []\<rparr> = t\<lparr>waiting_until := []\<rparr>"
    by (simp add: clear_waiting_def)
  ultimately show ?case using Cons.IH [of "clear_waiting i t"] by auto
qed simp

lemma fold_dedup:
  "distinct xs \<Longrightarrow> distinct (fold (\<lambda>i xs. if i \<in> set xs then xs else xs @ [i]) js xs)
     \<and> set (fold (\<lambda>i xs. if i \<in> set xs then xs else xs @ [i]) js xs) = set xs \<union> set js"
  by (induction js arbitrary: xs) auto

lemma same_sets:
  assumes "t'\<lparr>waiting_until := []\<rparr> = t\<lparr>waiting_until := []\<rparr>"
  shows "completed t' = completed t" "failed t' = failed t" "skipped t' = skipped t" "running t' = running t"
    "satisfied t' = satisfied t" "started t' = started t"
proof -
  show c: "completed t' = completed t" using arg_cong [OF assms, of completed] by simp
  show f: "failed t' = failed t" using arg_cong [OF assms, of failed] by simp
  show k: "skipped t' = skipped t" using arg_cong [OF assms, of skipped] by simp
  show r: "running t' = running t" using arg_cong [OF assms, of running] by simp
  show "satisfied t' = satisfied t"
    by (rule ext) (simp add: satisfied_def are_dependencies_satisfied_def is_any_dependency_satisfied_def c k)
  show "started t' = started t" by (simp add: started_def c f k r)
qed

text \<open>What a placement does to the state, with the sets of steps that wait and that are launched.\<close>

lemma place_spec:
  assumes "steady w" "\<And>i. i \<in> set (deps_ready_indices r) \<Longrightarrow> i < length (steps w)"
  obtains t ready added where
    "place w now wall r s = s\<lparr>tracker := t, run_pc := AtLaunch r ready added\<rparr>"
    "t\<lparr>waiting_until := []\<rparr> = (tracker s)\<lparr>waiting_until := []\<rparr>"
    "waiting_keys t = (waiting_keys (tracker s) - set (wait_ready r)) \<union> {i \<in> set (deps_ready_indices r). has_delay w i}"
    "distinct ready"
    "set ready = set (wait_ready r) \<union> {i \<in> set (deps_ready_indices r). \<not> has_delay w i}"
proof -
  let ?ds = "deps_ready_indices r"
  let ?xs = "zip ?ds (map wall [0..<length ?ds])"
  let ?t = "fold clear_waiting (wait_ready r) (tracker s)"
  let ?d = "fold (\<lambda>i xs. if i \<in> set xs then xs else xs @ [i]) (wait_ready r) []"
  obtain t ready added where e: "place_ready w now ?xs ?t ?d 0 = (t, ready, added)"
    by (cases "place_ready w now ?xs ?t ?d 0")
  have d: "distinct ?d" "set ?d = set (wait_ready r)" using fold_dedup [of "[]" "wait_ready r"] by simp_all
  have x: "fst ` set ?xs = set ?ds" by (metis diff_zero length_map length_upt list.set_map map_fst_zip)
  have i: "fst x < length (steps w)" if "x \<in> set ?xs" for x
    using assms(2) [of "fst x"] that x by blast
  have c: "?t\<lparr>waiting_until := []\<rparr> = (tracker s)\<lparr>waiting_until := []\<rparr>"
    "waiting_keys ?t = waiting_keys (tracker s) - set (wait_ready r)"
    using fold_clear [of "wait_ready r" "tracker s"] by blast+
  have p: "t\<lparr>waiting_until := []\<rparr> = ?t\<lparr>waiting_until := []\<rparr>"
    "waiting_keys t = waiting_keys ?t \<union> {i \<in> set ?ds. has_delay w i}"
    "distinct ready" "set ready = set ?d \<union> {i \<in> set ?ds. \<not> has_delay w i}"
    using place_ready_spec [OF assms(1) i d(1) e] unfolding x by blast+
  show thesis
  proof (rule that)
    show "place w now wall r s = s\<lparr>tracker := t, run_pc := AtLaunch r ready added\<rparr>"
      using e by (simp add: place_def Let_def)
  qed (use p c d in simp_all)
qed

lemma place_inv:
  assumes "launch_inv w s" "steady w" "run_pc s = AtPlace r"
  shows "launch_inv w (place w now wall r s)"
proof -
  have pc: "\<And>i. i \<in> set (wait_ready r) \<Longrightarrow> launchable w s i"
    "\<And>i. i \<in> set (deps_ready_indices r) \<Longrightarrow> launchable w s i"
    "set (deps_ready_indices r) \<inter> waiting_keys (tracker s) = {}"
    "set (wait_ready r) \<subseteq> waiting_keys (tracker s)"
    using assms(1, 3) by (auto simp: launch_inv_def pc_inv_def)
  have ix: "i < length (steps w)" if "i \<in> set (deps_ready_indices r)" for i
    using pc(2) [OF that] by (simp add: launchable_def)
  obtain t ready added where e:
    "place w now wall r s = s\<lparr>tracker := t, run_pc := AtLaunch r ready added\<rparr>"
    "t\<lparr>waiting_until := []\<rparr> = (tracker s)\<lparr>waiting_until := []\<rparr>"
    "waiting_keys t = (waiting_keys (tracker s) - set (wait_ready r)) \<union> {i \<in> set (deps_ready_indices r). has_delay w i}"
    "distinct ready"
    "set ready = set (wait_ready r) \<union> {i \<in> set (deps_ready_indices r). \<not> has_delay w i}"
    by (rule place_spec [OF assms(2) ix, where now = now and wall = wall and s = s])
  note t = same_sets [OF e(2)]
  let ?s = "s\<lparr>tracker := t, run_pc := AtLaunch r ready added\<rparr>"
  have l: "launchable w ?s = launchable w s" by (rule ext) (simp add: launchable_def t)
  have wk: "\<forall>i \<in> waiting_keys t. launchable w s i" using e(3) pc(2) assms(1) by (auto simp: launch_inv_def)
  have rd: "\<forall>i \<in> set ready. launchable w s i" using e(5) pc(1, 2) by blast
  have dj: "set ready \<inter> waiting_keys t = {}" using e(3, 5) pc(3, 4) by blast
  have "pc_inv w ?s" unfolding pc_inv_def l using rd dj e(4) by simp
  then show ?thesis unfolding e(1) launch_inv_def l using assms(1) wk by (simp add: launch_inv_def t)
qed

lemma launch_inv_step:
  assumes "valid_indices w" "steady w" "launch_inv w s"
  shows "launch_inv w (run_step w s e)"
proof (cases e)
  case (Drain c)
  then show ?thesis using drain_inv [OF assms(3, 1)] assms(3) by simp
next
  case (ReadTracker n)
  then show ?thesis using read_inv [OF assms(3)] assms(3) by simp
next
  case (Place n wall)
  then show ?thesis using place_inv [OF assms(3, 2)] assms(3) by (simp split: run_pc.split)
next
  case Launch
  then show ?thesis using launch_step_inv [OF assms(3)] assms(3) by (simp split: run_pc.split)
next
  case ChooseWait
  then show ?thesis using choose_wait_inv [OF assms(3)] assms(3) by (simp split: run_pc.split)
next
  case Recv
  then show ?thesis using recv_inv [OF assms(3, 1)] assms(3) by simp
next
  case (FinishTask i r)
  then show ?thesis using finish_inv [OF assms(3)] assms(3) by simp
next
  case (MarkTask i c)
  then show ?thesis using mark_inv [OF assms(3)] assms(3) by simp
next
  case (SendTask i r)
  then show ?thesis using send_inv [OF assms(3)] assms(3) by simp
qed

lemma launch_inv_start: "valid_indices w \<Longrightarrow> launch_inv w (run_start w)"
  by (simp add: launch_inv_def pc_inv_def run_start_def tracker_default_def started_def waiting_keys_def
      valid_indices_def)

lemma validated_indices:
  assumes "validate w0 = Inr w"
  shows "valid_indices w"
proof -
  have d: "\<forall>d. \<forall>i \<in> set (get_dependent_indices w d). i < length (steps w)"
    using dependents_exact [OF assms] validate_steps [OF assms] by (auto simp: dependents_def)
  have "initial_step_indices w = indices_where (\<lambda>s. depends_on s = [] \<and> depends_on_any s = []) (steps w)"
    using assms by (auto simp: validate_def split: option.splits)
  then show ?thesis using d by (auto simp: valid_indices_def indices_where_def)
qed

definition plannable :: "workflow_definition \<Rightarrow> run_state \<Rightarrow> bool" where
  "plannable w s \<longleftrightarrow> (valid_indices w \<and> steady w \<longrightarrow> launch_inv w s)"

interpretation scheduler: invariant_system "run_step w" "plannable w" for w
  by unfold_locales (auto simp: plannable_def intro: launch_inv_step)

lemma run_events_inv:
  assumes "validate w0 = Inr w" "steady w"
  shows "launch_inv w (run_events w es)"
  using scheduler.inv_run [of w "run_start w" es] launch_inv_start [of w] validated_indices [OF assms(1)] assms(2)
  by (simp add: plannable_def run_events_def)

section \<open>Properties\<close>

text \<open>
  C24: In every run of a validated workflow, in which every step with a schedule also has a positive delay
  (\<open>steady\<close>), and for every interleaving of the scheduler with the ends of its tasks, no step is launched
  twice, and each launched step had all of its \<open>depends_on\<close> steps, and one of its
  \<open>depends_on_any\<close> steps if it has some, completed or skipped.
\<close>

theorem steps_launched_once:
  assumes "validate w0 = Inr w" "steady w"
  shows "distinct (launches (run_events w es))
     \<and> list_all (\<lambda>i. i < length (steps w) \<and> satisfied (tracker (run_events w es)) (steps w ! i))
         (launches (run_events w es))"
  using run_events_inv [OF assms, of es] by (simp add: launch_inv_def list_all_iff)

definition three_steps :: workflow_definition where
  "three_steps = (workflow_new ''w'' ''w'')\<lparr>steps := [step_new ''a'' ''A'', step_new ''b'' ''B'',
     (step_new ''c'' ''C'')\<lparr>depends_on := [''b'']\<rparr>]\<rparr>"

definition three_steps_validated :: workflow_definition where
  "three_steps_validated = three_steps\<lparr>reverse_deps := [''b'' \<mapsto> [2]], initial_step_indices := [0, 1]\<rparr>"

lemmas validate_eval = validate_def workflow_new_def step_new_def missing_dependency_def steps_map_def
  all_dependencies_def has_cycle_def deps_of_def build_reverse_deps_def indices_where_def upt_rec numeral_2_eq_2

lemma three_steps_valid: "validate three_steps = Inr three_steps_validated"
  unfolding three_steps_validated_def three_steps_def by (simp add: validate_eval)

definition launch_round :: "run_event list" where
  "launch_round = [Drain (Some False), ReadTracker 0, Place 0 (\<lambda>_. 0), Launch, ChooseWait]"

lemmas run_eval = run_events_def run_start_def tracker_default_def drain_def signal_dependents_def
  get_dependent_indices_def read_tracker_def get_ready_waiting_indices_def deps_ready_def
  is_step_processable_def are_dependencies_satisfied_def is_any_dependency_satisfied_def
  has_failed_dependency_def have_all_any_deps_failed_def place_def calculate_wait_duration_def
  total_processed_def launch_def choose_wait_def recv_def finish_task_def record_result_def send_def
  is_finished_def set_waiting_def clear_waiting_def Let_def upt_rec

lemma launch_round_eval: "launches (run_events three_steps_validated launch_round) = [0, 1]"
  by (simp add: three_steps_validated_def three_steps_def workflow_new_def step_new_def launch_round_def run_eval)

theorem steps_launched_once_witness:
  "validate three_steps = Inr three_steps_validated \<and> steady three_steps_validated
     \<and> launches (run_events three_steps_validated launch_round) = [0, 1]
     \<and> distinct (launches (run_events three_steps_validated launch_round))"
proof -
  have s: "steady three_steps_validated"
    by (simp add: steady_def three_steps_validated_def three_steps_def workflow_new_def step_new_def)
  show ?thesis
    using steps_launched_once [OF three_steps_valid s, of launch_round] three_steps_valid s launch_round_eval by blast
qed

text \<open>
  C25: The scheduler can end a run as deadlocked that is not. Take any state in which the channel has been
  drained and the tracker is about to be read, with one step running and none waiting or failed, and no step
  to check that is ready. If the running step succeeds now, with room for its signal in the
  channel and steps left to run, the run ends as deadlocked, whatever the clocks say: no step failed, the
  signal is in the channel unread, and a dependent of the step is ready.
\<close>

theorem spurious_deadlock:
  assumes "run_pc s = AtRead" and "Executing idx \<in> set (tasks s)"
    and "running (tracker s) = {step_id (steps w ! idx)}"
    and "waiting_until (tracker s) = []" and "failed (tracker s) = {}"
    and "length (channel s) < max (length (steps w)) 1"
    and "after = run_step w s (FinishTask idx Success)"
    and "list_all (\<lambda>i. \<not> deps_ready w (tracker after) i) (pending_check s)"
    and "total_processed (tracker after) \<noteq> length (steps w)"
    and "j \<in> set (get_dependent_indices w (step_id (steps w ! idx)))" and "deps_ready w (tracker after) j"
    and "s' = foldl (run_step w) after [ReadTracker now, Place now' wall, Launch]"
  shows "run_pc s' = Finished Deadlocked \<and> failed (tracker s') = {}
    \<and> (step_id (steps w ! idx), Success) \<in> set (channel s')
    \<and> j \<in> set (signal_dependents w (step_id (steps w ! idx), Success)) \<and> deps_ready w (tracker s') j"
proof -
  have pc: "run_pc after = AtRead" "pending_check after = pending_check s"
    and chan: "channel after = channel s @ [(step_id (steps w ! idx), Success)]"
    and tr: "running (tracker after) = {}" "waiting_until (tracker after) = []" "failed (tracker after) = {}"
    using assms(1-6) by (simp_all add: assms(7) finish_task_def record_result_def send_def is_finished_def Let_def)
  have none: "filter (deps_ready w (tracker after)) (pending_check s) = []"
    using assms(8) by (simp add: filter_empty_conv list_all_iff)
  show ?thesis
    using assms(9-11) pc chan tr none
    by (simp add: assms(12) read_tracker_def place_def launch_def get_ready_waiting_indices_def signal_dependents_def Let_def)
qed

text \<open>The second of two steps ends in the gap; the third step depends on it.\<close>

theorem spurious_deadlock_witness:
  "validate three_steps = Inr three_steps_validated
   \<and> run_pc (run_events three_steps_validated (launch_round @ [FinishTask 0 Success, Recv, Drain (Some False),
     FinishTask 1 Success, ReadTracker 0, Place 0 (\<lambda>_. 0), Launch])) = Finished Deadlocked"
proof -
  let ?w = three_steps_validated
  let ?es = "launch_round @ [FinishTask 0 Success, Recv, Drain (Some False)]"
  let ?s = "run_events ?w ?es"
  note ev = three_steps_validated_def three_steps_def workflow_new_def step_new_def launch_round_def run_eval
  have 1: "run_pc ?s = AtRead" "Executing 1 \<in> set (tasks ?s)" "running (tracker ?s) = {step_id (steps ?w ! 1)}"
    "waiting_until (tracker ?s) = []" "failed (tracker ?s) = {}" "length (channel ?s) < max (length (steps ?w)) 1"
    by (auto simp add: ev)
  have 2: "list_all (\<lambda>i. \<not> deps_ready ?w (tracker (run_step ?w ?s (FinishTask 1 Success))) i) (pending_check ?s)"
    "total_processed (tracker (run_step ?w ?s (FinishTask 1 Success))) \<noteq> length (steps ?w)"
    "2 \<in> set (get_dependent_indices ?w (step_id (steps ?w ! 1)))"
    "deps_ready ?w (tracker (run_step ?w ?s (FinishTask 1 Success))) 2"
    by (simp_all add: ev)
  from spurious_deadlock [OF 1 refl 2 refl, of 0 0 "\<lambda>_. 0"] show ?thesis
    by (simp add: run_events_def three_steps_valid del: run_step.simps)
qed


















end
