(* ===== verification/WorkflowRetry.thy ===== *)
theory WorkflowRetry
  imports WorkflowEngine
begin


text \<open>
  The execution of one step with its retries (\<open>execute_step_with_retry\<close> of
  \<open>crates/workflow/src/engine.rs\<close>) and the backoffs. What an attempt meets is an argument: the
  answer of the store, which can report a cancellation or fail, before or after the start of the
  attempt is announced, and the result of the
  executor, which can be an error, retryable or not, or exceed the timeout. The exponential
  backoff is that of a package and enters as its two operations.
\<close>

section \<open>Backoff\<close>

record linear_backoff =
  current :: duration
  increment :: duration
  lin_max :: duration

definition linear_new :: "duration \<Rightarrow> duration \<Rightarrow> linear_backoff" where
  "linear_new inc mx = \<lparr>current = inc, increment = inc, lin_max = mx\<rparr>"

definition linear_reset :: "linear_backoff \<Rightarrow> linear_backoff" where
  "linear_reset b = b\<lparr>current := increment b\<rparr>"

definition linear_next :: "linear_backoff \<Rightarrow> duration option \<times> linear_backoff" where
  "linear_next b = (Some (current b), b\<lparr>current := min (current b + increment b) (lin_max b)\<rparr>)"

definition fixed_next :: "duration \<Rightarrow> duration option \<times> duration" where
  "fixed_next d = (Some d, d)"

datatype 'e backoff_impl = FixedImpl duration | ExponentialImpl 'e | LinearImpl linear_backoff

fun next_backoff :: "('e \<Rightarrow> duration option \<times> 'e) \<Rightarrow> 'e backoff_impl \<Rightarrow> duration option \<times> 'e backoff_impl" where
  "next_backoff exp_next (FixedImpl b) = map_prod id FixedImpl (fixed_next b)"
| "next_backoff exp_next (ExponentialImpl b) = map_prod id ExponentialImpl (exp_next b)"
| "next_backoff exp_next (LinearImpl b) = map_prod id LinearImpl (linear_next b)"

fun create_backoff :: "(duration \<Rightarrow> duration \<Rightarrow> 'e) \<Rightarrow> backoff_strategy \<Rightarrow> 'e backoff_impl" where
  "create_backoff exp_build (Fixed d) = FixedImpl d"
| "create_backoff exp_build (Exponential base mx) = ExponentialImpl (exp_build base mx)"
| "create_backoff exp_build (Linear inc mx) = LinearImpl (linear_new inc mx)"

section \<open>Attempts\<close>

datatype attempt = StoreError bool | IsCancelled | Returned step_result | Raised bool | TimedOut

datatype step_end = StepEnd step_result | CancelledError | StoreFailure

datatype step_event =
    StepStarted u32
  | StepSucceeded
  | StepFailed bool
  | StepRetrying u32 duration

definition should_retry :: "attempt \<Rightarrow> bool" where
  "should_retry x = (case x of Raised retryable \<Rightarrow> retryable | TimedOut \<Rightarrow> True | _ \<Rightarrow> False)"

lemma u32_succ: "(n :: u32) < m \<Longrightarrow> unat (n + 1) = unat n + 1"
  by (simp add: unat_Suc_no_wrap [of n m] word_less_nat_alt)

function step_retry_loop ::
    "('e \<Rightarrow> duration option \<times> 'e) \<Rightarrow> (u32 \<Rightarrow> attempt) \<Rightarrow> u32 \<Rightarrow> 'e backoff_impl \<Rightarrow> u32
       \<Rightarrow> step_end \<times> step_event list" where
  "step_retry_loop exp_next env mx b n =
     (case env n of
        StoreError after_start \<Rightarrow> (StoreFailure, if after_start then [StepStarted n] else [])
      | IsCancelled \<Rightarrow> (CancelledError, [])
      | Returned Success \<Rightarrow> (StepEnd Success, [StepStarted n, StepSucceeded])
      | Returned Skip \<Rightarrow> (StepEnd Skip, [StepStarted n])
      | x \<Rightarrow>
          (let will_retry = should_retry x \<and> n < mx in
           if will_retry then
             (case next_backoff exp_next b of (d, b') \<Rightarrow>
                let delay = (case d of Some d \<Rightarrow> d | None \<Rightarrow> from_secs 1) in
                case step_retry_loop exp_next env mx b' (n + 1) of (r, es) \<Rightarrow>
                  (r, [StepStarted n, StepFailed True, StepRetrying (n + 1) delay] @ es))
           else (StepEnd Failure, [StepStarted n, StepFailed False])))"
  by pat_completeness auto

termination
  by (relation "measure (\<lambda>(f, env, m, b, n). unat m - unat n)")
    (auto simp: u32_succ word_less_nat_alt)

definition step_max_attempts :: "workflow_definition \<Rightarrow> step_definition \<Rightarrow> u32" where
  "step_max_attempts w s = (if on_failure s = RetryIndefinitely then - 1 else max_attempts (get_retry_policy w s))"

definition execute_step_with_retry ::
    "(duration \<Rightarrow> duration \<Rightarrow> 'e) \<Rightarrow> ('e \<Rightarrow> duration option \<times> 'e) \<Rightarrow> (u32 \<Rightarrow> attempt)
       \<Rightarrow> workflow_definition \<Rightarrow> step_definition \<Rightarrow> step_end \<times> step_event list" where
  "execute_step_with_retry exp_build exp_next env w s =
     step_retry_loop exp_next env (step_max_attempts w s)
       (create_backoff exp_build (backoff (get_retry_policy w s))) 1"

declare step_retry_loop.simps [simp del]

lemma step_retry_loop_stop:
  assumes "\<not> (should_retry (env n) \<and> n < mx)"
  shows "fst (step_retry_loop f env mx b n) = (case env n of StoreError after_start \<Rightarrow> StoreFailure | IsCancelled \<Rightarrow> CancelledError
     | Returned r \<Rightarrow> StepEnd r | _ \<Rightarrow> StepEnd Failure)"
  using assms
  by (subst step_retry_loop.simps) (auto simp: Let_def should_retry_def split: attempt.splits step_result.splits)

lemma step_retry_loop_again:
  assumes "should_retry (env n)" "n < mx" "next_backoff f b = (d, b')"
  shows "step_retry_loop f env mx b n = (fst (step_retry_loop f env mx b' (n + 1)),
     [StepStarted n, StepFailed True, StepRetrying (n + 1) (case d of Some d \<Rightarrow> d | None \<Rightarrow> from_secs 1)]
       @ snd (step_retry_loop f env mx b' (n + 1)))"
  using assms
  by (subst step_retry_loop.simps) (auto simp: Let_def should_retry_def split: attempt.splits prod.splits)

definition attempt_end :: "attempt \<Rightarrow> step_end" where
  "attempt_end x = (case x of StoreError after_start \<Rightarrow> StoreFailure | IsCancelled \<Rightarrow> CancelledError
     | Returned r \<Rightarrow> StepEnd r | _ \<Rightarrow> StepEnd Failure)"

text \<open>The first delays of a backoff, and the delays in a list of events.\<close>

primrec delays :: "('e \<Rightarrow> duration option \<times> 'e) \<Rightarrow> nat \<Rightarrow> 'e backoff_impl \<Rightarrow> duration list" where
  "delays f 0 b = []"
| "delays f (Suc n) b = (case fst (next_backoff f b) of Some d \<Rightarrow> d | None \<Rightarrow> from_secs 1)
     # delays f n (snd (next_backoff f b))"

definition retry_delays :: "step_event list \<Rightarrow> duration list" where
  "retry_delays es = concat (map (\<lambda>e. case e of StepRetrying n d \<Rightarrow> [d] | _ \<Rightarrow> []) es)"

lemma step_retry_loop_stop_delays:
  "\<not> (should_retry (env n) \<and> n < mx) \<Longrightarrow> retry_delays (snd (step_retry_loop f env mx b n)) = []"
  by (subst step_retry_loop.simps)
    (auto simp: Let_def should_retry_def retry_delays_def split: attempt.splits step_result.splits)

lemma step_retry_loop_run:
  assumes "unat k = unat a + m" "\<And>j. a \<le> j \<Longrightarrow> j < k \<Longrightarrow> should_retry (env j)"
    "m = 0 \<or> k \<le> mx" "\<not> (should_retry (env k) \<and> k < mx)"
  shows "fst (step_retry_loop f env mx b a) = attempt_end (env k)
    \<and> retry_delays (snd (step_retry_loop f env mx b a)) = delays f m b"
  using assms
proof (induction m arbitrary: a b)
  case 0
  then have "k = a" by (simp add: word_unat_eq_iff)
  with 0(4) show ?case
    using step_retry_loop_stop [of env a mx f b] step_retry_loop_stop_delays [of env a mx f b]
    by (simp add: attempt_end_def)
next
  case (Suc m)
  obtain d b' where b: "next_backoff f b = (d, b')" by (cases "next_backoff f b")
  have lt: "a < k" using Suc.prems(1) by (simp add: word_less_nat_alt)
  have am: "a < mx" using lt Suc.prems(3) by auto
  have sa: "should_retry (env a)" using Suc.prems(2) lt by blast
  have u: "unat (a + 1) = unat a + 1" using u32_succ [OF lt] .
  have "should_retry (env j)" if "a + 1 \<le> j" "j < k" for j
  proof (rule Suc.prems(2) [OF _ that(2)])
    show "a \<le> j" using that(1) u by (simp add: word_le_nat_alt)
  qed
  then have "fst (step_retry_loop f env mx b' (a + 1)) = attempt_end (env k)
    \<and> retry_delays (snd (step_retry_loop f env mx b' (a + 1))) = delays f m b'"
    using Suc.IH [of "a + 1" b'] Suc.prems(1, 3, 4) u by simp
  then show ?case
    using step_retry_loop_again [of env a mx f b d b', OF sa am b] b by (simp add: retry_delays_def)
qed

lemma linear_delays:
  "current b \<le> lin_max b \<Longrightarrow> delays f n (LinearImpl b) =
     map (\<lambda>i. min (current b + i * increment b) (lin_max b)) [0..<n]"
proof (induction n arbitrary: b)
  case (Suc n)
  let ?b = "b\<lparr>current := min (current b + increment b) (lin_max b)\<rparr>"
  have "delays f n (LinearImpl ?b) =
      map (\<lambda>i. min (min (current b + increment b) (lin_max b) + i * increment b) (lin_max b)) [0..<n]"
    using Suc.IH [of ?b] by simp
  also have "\<dots> = map (\<lambda>i. min (current b + Suc i * increment b) (lin_max b)) [0..<n]"
    by (rule map_cong) (auto simp: min_def)
  finally show ?case using Suc.prems by (simp add: linear_next_def upt_conv_Cons map_Suc_upt [symmetric] del: upt_Suc)
qed simp

section \<open>Properties of retries\<close>

lemma first_final_attempt:
  assumes "1 \<le> k" "\<And>j. 1 \<le> j \<Longrightarrow> j < k \<Longrightarrow> should_retry (env j)"
    "k = 1 \<or> k \<le> step_max_attempts w s" "\<not> (should_retry (env k) \<and> k < step_max_attempts w s)"
  shows "fst (execute_step_with_retry exp_build exp_next env w s) = attempt_end (env k)
    \<and> retry_delays (snd (execute_step_with_retry exp_build exp_next env w s))
        = delays exp_next (unat k - 1) (create_backoff exp_build (backoff (get_retry_policy w s)))"
proof -
  have "unat k = unat (1 :: u32) + (unat k - 1)" using assms(1) by (simp add: word_le_nat_alt)
  moreover have "unat k - 1 = 0 \<or> k \<le> step_max_attempts w s" using assms(3) by auto
  ultimately show ?thesis
    using step_retry_loop_run [of k 1 "unat k - 1" env "step_max_attempts w s" exp_next] assms(2, 4)
    by (simp add: execute_step_with_retry_def)
qed

text \<open>
  C27: A step whose failure action is not \<open>RetryIndefinitely\<close> ends with its first attempt that is
  final: one that succeeds or is skipped, whose error is not retryable, that meets a cancellation or a
  failing store, or the attempt with the last number that its retry policy allows (the first, when none
  is allowed). Before it the delays are exactly the delays of the backoff of the step, one for each
  earlier attempt. The attempt must not end by returning \<open>StepResult::Failure\<close>, which the code
  never retries although the README says that it may trigger a retry.
\<close>

theorem step_ends_at_first_final_attempt:
  assumes "on_failure s \<noteq> RetryIndefinitely" and "env k \<noteq> Returned Failure"
    and "1 \<le> k" and "\<And>j. 1 \<le> j \<Longrightarrow> j < k \<Longrightarrow> should_retry (env j)"
    and "k = 1 \<or> k \<le> max_attempts (get_retry_policy w s)"
    and "\<not> (should_retry (env k) \<and> k < max_attempts (get_retry_policy w s))"
  shows "fst (execute_step_with_retry exp_build exp_next env w s) = attempt_end (env k)
    \<and> retry_delays (snd (execute_step_with_retry exp_build exp_next env w s))
        = delays exp_next (unat k - 1) (create_backoff exp_build (backoff (get_retry_policy w s)))"
  using first_final_attempt [of k env w s exp_build exp_next] assms by (simp add: step_max_attempts_def)

text \<open>
  With any failure action, \<open>RetryIndefinitely\<close> included, a first attempt that returns a failure or an
  error that is not retryable ends the step as failed with no retry.
\<close>

theorem failure_ends_step:
  assumes "env 1 = Returned Failure \<or> env 1 = Raised False"
  shows "fst (execute_step_with_retry exp_build exp_next env w s) = StepEnd Failure
    \<and> retry_delays (snd (execute_step_with_retry exp_build exp_next env w s)) = []"
  using first_final_attempt [of 1 env w s exp_build exp_next] assms
  by (auto simp: should_retry_def attempt_end_def)

definition linear_step :: step_definition where
  "linear_step = with_retry \<lparr>max_attempts = 3, backoff = Linear 2 3\<rparr> (step_new ''s'' ''S'')"

theorem step_ends_at_first_final_attempt_witness:
  "fst (execute_step_with_retry (\<lambda>_ _. ()) (\<lambda>_. (None, ())) (\<lambda>_. TimedOut) (workflow_new ''w'' ''w'') linear_step)
     = StepEnd Failure
   \<and> retry_delays (snd (execute_step_with_retry (\<lambda>_ _. ()) (\<lambda>_. (None, ())) (\<lambda>_. TimedOut)
        (workflow_new ''w'' ''w'') linear_step)) = [2, 3]"
proof -
  have "max_attempts (get_retry_policy (workflow_new ''w'' ''w'') linear_step) = 3"
    "on_failure linear_step \<noteq> RetryIndefinitely"
    "backoff (get_retry_policy (workflow_new ''w'' ''w'') linear_step) = Linear 2 3"
    by (simp_all add: linear_step_def with_retry_def step_new_def get_retry_policy_def)
  moreover have "delays (\<lambda>_. (None, ())) (unat (3 :: u32) - 1) (create_backoff (\<lambda>_ _. ()) (Linear 2 3)) = [2, 3]"
  proof -
    have "unat (3 :: u32) - 1 = Suc (Suc 0)" by simp
    then show ?thesis by (simp only: delays.simps) (simp add: linear_new_def linear_next_def)
  qed
  ultimately show ?thesis
    using step_ends_at_first_final_attempt [of linear_step "\<lambda>_. TimedOut" 3 "workflow_new ''w'' ''w''"
      "\<lambda>_ _. ()" "\<lambda>_. (None, ())"]
    by (simp add: should_retry_def attempt_end_def)
qed

end
