(* ===== verification/KvEventIndex.thy ===== *)
theory KvEventIndex
  imports Prelude "HOL-Library.AList"
begin

text \<open>
  The positional indexer of cache-aware routing (\<open>crates/kv_index/src/event_tree.rs\<close>): which
  worker holds which block at which position, kept up to date from the store and remove events
  of the workers, and the jump search that scores the workers for a request. The hash
  functions of the xxh3 package are arguments. Sets of workers are lists in iteration order;
  the positions and counts are natural numbers, the sizes machine words.
\<close>

section \<open>Entries\<close>

type_synonym content_hash = u64
type_synonym seq_hash = u64
type_synonym worker_id = u32

record stored_block =
  block_seq :: seq_hash
  block_content :: content_hash

datatype apply_error = WorkerNotTracked | ParentBlockNotFound

datatype seq_entry =
    Single seq_hash "worker_id list"
  | Multi "(seq_hash \<times> worker_id list) list"

definition entry_new :: "seq_hash \<Rightarrow> worker_id \<Rightarrow> seq_entry" where
  "entry_new h w = Single h [w]"

definition or_default :: "worker_id list option \<Rightarrow> worker_id list" where
  "or_default x = (case x of Some ws \<Rightarrow> ws | None \<Rightarrow> [])"

fun entry_insert :: "seq_hash \<Rightarrow> worker_id \<Rightarrow> seq_entry \<Rightarrow> seq_entry" where
  "entry_insert h w (Single e ws) =
     (if e = h then Single e (List.insert w ws)
      else let m = [(e, ws)] in Multi (AList.update h (List.insert w (or_default (map_of m h))) m))"
| "entry_insert h w (Multi m) = Multi (AList.update h (List.insert w (or_default (map_of m h))) m)"

text \<open>The second component tells that nothing is left.\<close>

fun entry_remove :: "seq_hash \<Rightarrow> worker_id \<Rightarrow> seq_entry \<Rightarrow> seq_entry \<times> bool" where
  "entry_remove h w (Single e ws) =
     (if e = h then (Single e (removeAll w ws), removeAll w ws = []) else (Single e ws, False))"
| "entry_remove h w (Multi m) =
     (let m = (case map_of m h of
            Some ws \<Rightarrow> if removeAll w ws = [] then AList.delete h m else AList.update h (removeAll w ws) m
          | None \<Rightarrow> m)
      in (Multi m, m = []))"

fun entry_get :: "seq_hash \<Rightarrow> seq_entry \<Rightarrow> worker_id list option" where
  "entry_get h (Single e ws) = (if e = h then Some ws else None)"
| "entry_get h (Multi m) = map_of m h"

fun workers_if_single :: "seq_entry \<Rightarrow> worker_id list option" where
  "workers_if_single (Single e ws) = Some ws"
| "workers_if_single (Multi m) = None"

section \<open>The indexer\<close>

type_synonym index_map = "(nat \<times> content_hash) \<rightharpoonup> seq_entry"
type_synonym worker_block_map = "(seq_hash \<times> (nat \<times> content_hash \<times> seq_hash)) list"

record indexer =
  index :: index_map
  tree_sizes :: "worker_id \<Rightarrow> usize"
  worker_to_id :: "string \<rightharpoonup> worker_id"
  next_worker_id :: u32
  jump_size :: nat

definition MAX_WORKERS :: nat where
  "MAX_WORKERS = 2048"

text \<open>The assertion on the jump size is the failure \<^term>\<open>None\<close>.\<close>

definition indexer_new :: "nat \<Rightarrow> indexer option" where
  "indexer_new j = (if j > 0 then Some \<lparr>index = Map.empty, tree_sizes = (\<lambda>_. 0),
     worker_to_id = Map.empty, next_worker_id = 0, jump_size = j\<rparr> else None)"

definition indexer_default :: indexer where
  "indexer_default = \<lparr>index = Map.empty, tree_sizes = (\<lambda>_. 0),
     worker_to_id = Map.empty, next_worker_id = 0, jump_size = 32\<rparr>"

definition lookup_worker_id :: "string \<Rightarrow> indexer \<Rightarrow> worker_id option" where
  "lookup_worker_id worker x = worker_to_id x worker"

text \<open>A worker beyond the capacity is a panic, after it was entered.\<close>

definition intern_worker :: "string \<Rightarrow> indexer \<Rightarrow> worker_id option \<times> indexer" where
  "intern_worker worker x = (case worker_to_id x worker of
       Some i \<Rightarrow> (Some i, x)
     | None \<Rightarrow>
         let i = next_worker_id x;
             x = x\<lparr>worker_to_id := (worker_to_id x)(worker \<mapsto> i), next_worker_id := i + 1\<rparr>
         in (if unat i < MAX_WORKERS then Some i else None, x))"

definition store_entry :: "nat \<times> content_hash \<Rightarrow> seq_hash \<Rightarrow> worker_id \<Rightarrow> index_map \<Rightarrow> index_map" where
  "store_entry k h w ix = ix(k \<mapsto> (case ix k of Some e \<Rightarrow> entry_insert h w e | None \<Rightarrow> entry_new h w))"

definition remove_entry :: "nat \<times> content_hash \<Rightarrow> seq_hash \<Rightarrow> worker_id \<Rightarrow> index_map \<Rightarrow> index_map" where
  "remove_entry k h w ix = (case ix k of
       None \<Rightarrow> ix
     | Some e \<Rightarrow> (case entry_remove h w e of (e', gone) \<Rightarrow> if gone then ix(k := None) else ix(k \<mapsto> e')))"

definition next_prefix :: "(u64 \<Rightarrow> u64 \<Rightarrow> u64) \<Rightarrow> seq_hash option \<Rightarrow> content_hash \<Rightarrow> seq_hash" where
  "next_prefix nx prev c = (case prev of Some p \<Rightarrow> nx p c | None \<Rightarrow> c)"

text \<open>The loop of \<open>apply_stored\<close>; \<open>nx\<close> is \<open>compute_next_seq_hash\<close>.\<close>

fun store_blocks ::
    "(u64 \<Rightarrow> u64 \<Rightarrow> u64) \<Rightarrow> worker_id \<Rightarrow> nat \<Rightarrow> seq_hash option \<Rightarrow> stored_block list \<Rightarrow> index_map
       \<Rightarrow> worker_block_map \<Rightarrow> nat \<Rightarrow> index_map \<times> worker_block_map \<times> nat" where
  "store_blocks nx w pos prev [] ix wb num_new = (ix, wb, num_new)"
| "store_blocks nx w pos prev (b # bs) ix wb num_new =
     (let c = block_content b;
          h = next_prefix nx prev c;
          num_new = (if map_of wb (block_seq b) = None then num_new + 1 else num_new)
      in store_blocks nx w (pos + 1) (Some h) bs (store_entry (pos, c) h w ix)
           (AList.update (block_seq b) (pos, c, h) wb) num_new)"

definition add_tree_size :: "worker_id \<Rightarrow> nat \<Rightarrow> indexer \<Rightarrow> indexer" where
  "add_tree_size w n x = x\<lparr>tree_sizes := (tree_sizes x)(w := tree_sizes x w + of_nat n)\<rparr>"

definition apply_stored ::
    "(u64 \<Rightarrow> u64 \<Rightarrow> u64) \<Rightarrow> worker_id \<Rightarrow> stored_block list \<Rightarrow> seq_hash option
       \<Rightarrow> indexer \<times> worker_block_map \<Rightarrow> (apply_error + unit) \<times> indexer \<times> worker_block_map" where
  "apply_stored nx w blocks parent s = (case s of (x, wb) \<Rightarrow>
     if blocks = [] then (Inr (), x, wb)
     else
       let start = (case parent of
             Some p \<Rightarrow> if wb = [] then Inl WorkerNotTracked
                       else (case map_of wb p of
                               None \<Rightarrow> Inl ParentBlockNotFound
                             | Some (pos, c, pfx) \<Rightarrow> Inr (pos + 1, Some pfx))
           | None \<Rightarrow> Inr (0, None))
       in case start of
            Inl e \<Rightarrow> (Inl e, x, wb)
          | Inr (pos, prev) \<Rightarrow>
              (case store_blocks nx w pos prev blocks (index x) wb 0 of (ix, wb, n) \<Rightarrow>
                 (Inr (), (if n > 0 then add_tree_size w n else id) (x\<lparr>index := ix\<rparr>), wb)))"

fun remove_blocks ::
    "worker_id \<Rightarrow> seq_hash list \<Rightarrow> index_map \<Rightarrow> worker_block_map \<Rightarrow> nat \<Rightarrow> index_map \<times> worker_block_map \<times> nat" where
  "remove_blocks w [] ix wb n = (ix, wb, n)"
| "remove_blocks w (q # qs) ix wb n = (case map_of wb q of
       None \<Rightarrow> remove_blocks w qs ix wb n
     | Some (pos, c, h) \<Rightarrow> remove_blocks w qs (remove_entry (pos, c) h w ix) (AList.delete q wb) (n + 1))"

definition apply_removed ::
    "worker_id \<Rightarrow> seq_hash list \<Rightarrow> indexer \<times> worker_block_map \<Rightarrow> indexer \<times> worker_block_map" where
  "apply_removed w qs s = (case s of (x, wb) \<Rightarrow>
     case remove_blocks w qs (index x) wb 0 of (ix, wb, n) \<Rightarrow>
       (x\<lparr>index := ix, tree_sizes := (if n > 0 then (tree_sizes x)(w := tree_sizes x w - of_nat n) else tree_sizes x)\<rparr>, wb))"

definition drain_blocks :: "worker_id \<Rightarrow> worker_block_map \<Rightarrow> indexer \<Rightarrow> indexer" where
  "drain_blocks w wb x =
     x\<lparr>index := fold (\<lambda>(q, pos, c, h). remove_entry (pos, c) h w) wb (index x),
       tree_sizes := (tree_sizes x)(w := 0)\<rparr>"

definition apply_cleared :: "worker_id \<Rightarrow> indexer \<times> worker_block_map \<Rightarrow> indexer \<times> worker_block_map" where
  "apply_cleared w s = (case s of (x, wb) \<Rightarrow> (drain_blocks w wb x, []))"

definition remove_worker :: "worker_id \<Rightarrow> worker_block_map \<Rightarrow> indexer \<Rightarrow> indexer" where
  "remove_worker w wb x = drain_blocks w wb x"

definition current_size :: "indexer \<Rightarrow> usize" where
  "current_size x = sum_list (map (\<lambda>i. tree_sizes x (of_nat i)) [0..<unat (next_worker_id x)])"

section \<open>Requests\<close>

text \<open>\<open>chunks(n)\<close> of a slice.\<close>

fun chunks :: "nat \<Rightarrow> 'a list \<Rightarrow> 'a list list" where
  "chunks n xs = (if xs = [] \<or> n = 0 then [] else take n xs # chunks n (drop n xs))"

declare chunks.simps [simp del]

definition compute_request_content_hashes :: "(u32 list \<Rightarrow> content_hash) \<Rightarrow> u32 list \<Rightarrow> nat \<Rightarrow> content_hash list" where
  "compute_request_content_hashes hash tokens block_size =
     (if block_size = 0 then []
      else map hash (filter (\<lambda>c. length c = block_size) (chunks block_size tokens)))"

text \<open>\<open>ensure_seq_hash_computed\<close> extends the list of rolling hashes up to the target.\<close>

function ensure_seq_hash_computed ::
    "(u64 \<Rightarrow> u64 \<Rightarrow> u64) \<Rightarrow> seq_hash list \<Rightarrow> nat \<Rightarrow> content_hash list \<Rightarrow> seq_hash list" where
  "ensure_seq_hash_computed nx hs target q =
     (if length hs \<le> target then
        let pos = length hs;
            h = (if pos = 0 then q ! 0 else nx (hs ! (pos - 1)) (q ! pos))
        in ensure_seq_hash_computed nx (hs @ [h]) target q
      else hs)"
  by pat_completeness auto

termination
  by (relation "measure (\<lambda>(nx, hs, target, q). Suc target - length hs)") auto

declare ensure_seq_hash_computed.simps [simp del]

definition get_workers_lazy ::
    "(u64 \<Rightarrow> u64 \<Rightarrow> u64) \<Rightarrow> index_map \<Rightarrow> nat \<Rightarrow> content_hash \<Rightarrow> seq_hash list \<Rightarrow> content_hash list
       \<Rightarrow> worker_id list option \<times> seq_hash list" where
  "get_workers_lazy nx ix pos c hs q = (case ix (pos, c) of
       None \<Rightarrow> (None, hs)
     | Some e \<Rightarrow> (case workers_if_single e of
         Some ws \<Rightarrow> (Some ws, hs)
       | None \<Rightarrow> let hs = ensure_seq_hash_computed nx hs pos q in (entry_get (hs ! pos) e, hs)))"

definition count_workers_at ::
    "(u64 \<Rightarrow> u64 \<Rightarrow> u64) \<Rightarrow> index_map \<Rightarrow> nat \<Rightarrow> content_hash \<Rightarrow> seq_hash list \<Rightarrow> content_hash list
       \<Rightarrow> nat \<times> seq_hash list" where
  "count_workers_at nx ix pos c hs q = (case ix (pos, c) of
       None \<Rightarrow> (0, hs)
     | Some e \<Rightarrow> (case workers_if_single e of
         Some ws \<Rightarrow> (length ws, hs)
       | None \<Rightarrow> let hs = ensure_seq_hash_computed nx hs pos q
                 in (case entry_get (hs ! pos) e of Some ws \<Rightarrow> length ws | None \<Rightarrow> 0, hs)))"

type_synonym score_map = "worker_id \<rightharpoonup> u32"

definition swap_remove :: "nat \<Rightarrow> 'a list \<Rightarrow> 'a list" where
  "swap_remove i xs = (if i = length xs - 1 then butlast xs else butlast (xs[i := last xs]))"

text \<open>The loop that drops the workers that are not in the list, with their score.\<close>

function retain_workers ::
    "worker_id list \<Rightarrow> nat \<Rightarrow> worker_id list \<Rightarrow> nat \<Rightarrow> score_map \<Rightarrow> worker_id list \<times> score_map" where
  "retain_workers ws pos active i sc =
     (if i < length active then
        if active ! i \<in> set ws then retain_workers ws pos active (i + 1) sc
        else retain_workers ws pos (swap_remove i active) i (sc(active ! i \<mapsto> of_nat pos))
      else (active, sc))"
  by pat_completeness auto

termination
  by (relation "measure (\<lambda>(ws, pos, active, i, sc). length active - i)") (auto simp: swap_remove_def)

declare retain_workers.simps [simp del]

definition record_all :: "worker_id list \<Rightarrow> nat \<Rightarrow> score_map \<Rightarrow> score_map" where
  "record_all ws n sc = fold (\<lambda>w sc. sc(w \<mapsto> of_nat n)) ws sc"

fun linear_scan_drain ::
    "(u64 \<Rightarrow> u64 \<Rightarrow> u64) \<Rightarrow> index_map \<Rightarrow> content_hash list \<Rightarrow> seq_hash list \<Rightarrow> worker_id list \<Rightarrow> score_map
       \<Rightarrow> nat list \<Rightarrow> bool \<Rightarrow> seq_hash list \<times> worker_id list \<times> score_map" where
  "linear_scan_drain nx ix q hs active sc [] early_exit = (hs, active, sc)"
| "linear_scan_drain nx ix q hs active sc (pos # ps) early_exit =
     (if active = [] then (hs, active, sc)
      else case ix (pos, q ! pos) of
        None \<Rightarrow> (hs, [], record_all active pos sc)
      | Some e \<Rightarrow> (case workers_if_single e of
          Some ws \<Rightarrow>
            let (active, sc) = (if length ws < length active then retain_workers ws pos active 0 sc else (active, sc))
            in if early_exit \<and> active \<noteq> [] then (hs, active, sc)
               else linear_scan_drain nx ix q hs active sc ps early_exit
        | None \<Rightarrow>
            let hs = ensure_seq_hash_computed nx hs pos q
            in case entry_get (hs ! pos) e of
                 None \<Rightarrow> (hs, [], record_all active pos sc)
               | Some ws \<Rightarrow>
                   let (active, sc) = (if length ws < length active then retain_workers ws pos active 0 sc else (active, sc))
                   in if early_exit \<and> active \<noteq> [] then (hs, active, sc)
                      else linear_scan_drain nx ix q hs active sc ps early_exit))"

text \<open>The jump loop; with a jump size of 0, which the constructor refuses, it would not end.\<close>

partial_function (option) jump_loop ::
    "(u64 \<Rightarrow> u64 \<Rightarrow> u64) \<Rightarrow> indexer \<Rightarrow> content_hash list \<Rightarrow> seq_hash list \<Rightarrow> worker_id list \<Rightarrow> score_map \<Rightarrow> nat
       \<Rightarrow> (worker_id list \<times> score_map) option" where
  "jump_loop nx x q hs active sc cur =
     (if cur < length q - 1 \<and> active \<noteq> [] then
        let nxt = min (cur + jump_size x) (length q - 1);
            r = count_workers_at nx (index x) nxt (q ! nxt) hs q
        in if fst r = length active then jump_loop nx x q (snd r) active sc nxt
           else let s = linear_scan_drain nx (index x) q (snd r) active sc [cur + 1..<nxt + 1] False
                in jump_loop nx x q (fst s) (fst (snd s)) (snd (snd s)) nxt
      else Some (active, sc))"

declare jump_loop.simps [code]

record overlap_scores =
  scores :: score_map
  score_sizes :: "worker_id \<rightharpoonup> usize"

definition with_sizes :: "indexer \<Rightarrow> score_map \<Rightarrow> overlap_scores" where
  "with_sizes x sc = \<lparr>scores = sc, score_sizes = (\<lambda>w. if sc w = None then None else Some (tree_sizes x w))\<rparr>"

definition no_scores :: overlap_scores where
  "no_scores = \<lparr>scores = Map.empty, score_sizes = Map.empty\<rparr>"

definition jump_search_matches ::
    "(u64 \<Rightarrow> u64 \<Rightarrow> u64) \<Rightarrow> indexer \<Rightarrow> content_hash list \<Rightarrow> bool \<Rightarrow> overlap_scores option" where
  "jump_search_matches nx x q early_exit =
     (if q = [] then Some no_scores
      else case get_workers_lazy nx (index x) 0 (q ! 0) [] q of
        (None, hs) \<Rightarrow> Some no_scores
      | (Some active, hs) \<Rightarrow>
          if active = [] then Some no_scores
          else if early_exit then Some (with_sizes x (record_all active 1 Map.empty))
          else (case jump_loop nx x q hs active Map.empty 0 of
              None \<Rightarrow> None
            | Some (active, sc) \<Rightarrow> Some (with_sizes x (record_all active (length q) sc))))"

definition find_matches ::
    "(u64 \<Rightarrow> u64 \<Rightarrow> u64) \<Rightarrow> indexer \<Rightarrow> content_hash list \<Rightarrow> bool \<Rightarrow> overlap_scores option" where
  "find_matches nx x q early_exit = jump_search_matches nx x q early_exit"

section \<open>The jump search\<close>

primrec rolling :: "(u64 \<Rightarrow> u64 \<Rightarrow> u64) \<Rightarrow> content_hash list \<Rightarrow> nat \<Rightarrow> seq_hash" where
  "rolling nx q 0 = q ! 0"
| "rolling nx q (Suc n) = nx (rolling nx q n) (q ! Suc n)"

definition entry_workers :: "seq_hash \<Rightarrow> seq_entry option \<Rightarrow> worker_id list" where
  "entry_workers h e = (case e of None \<Rightarrow> [] | Some e \<Rightarrow> or_default (entry_get h e))"

text \<open>The workers that hold the first \<open>pos + 1\<close> blocks of the request, according to the index.\<close>

definition holders :: "(u64 \<Rightarrow> u64 \<Rightarrow> u64) \<Rightarrow> index_map \<Rightarrow> content_hash list \<Rightarrow> nat \<Rightarrow> worker_id list" where
  "holders nx ix q pos = entry_workers (rolling nx q pos) (ix (pos, q ! pos))"

text \<open>The number of leading blocks of the request that a worker holds.\<close>

definition depth :: "(u64 \<Rightarrow> u64 \<Rightarrow> u64) \<Rightarrow> index_map \<Rightarrow> content_hash list \<Rightarrow> worker_id \<Rightarrow> nat" where
  "depth nx ix q w = length (takeWhile (\<lambda>i. w \<in> set (holders nx ix q i)) [0..<length q])"

definition unmixed :: "(u64 \<Rightarrow> u64 \<Rightarrow> u64) \<Rightarrow> index_map \<Rightarrow> content_hash list \<Rightarrow> bool" where
  "unmixed nx ix q \<longleftrightarrow> (\<forall>pos < length q. \<forall>h ws. ix (pos, q ! pos) = Some (Single h ws) \<longrightarrow> h = rolling nx q pos)"

definition searchable :: "(u64 \<Rightarrow> u64 \<Rightarrow> u64) \<Rightarrow> index_map \<Rightarrow> content_hash list \<Rightarrow> bool" where
  "searchable nx ix q \<longleftrightarrow> unmixed nx ix q
     \<and> (\<forall>pos < length q. distinct (holders nx ix q pos))
     \<and> (\<forall>pos. Suc pos < length q \<longrightarrow> set (holders nx ix q (Suc pos)) \<subseteq> set (holders nx ix q pos))"

definition hashes_ok :: "(u64 \<Rightarrow> u64 \<Rightarrow> u64) \<Rightarrow> content_hash list \<Rightarrow> seq_hash list \<Rightarrow> bool" where
  "hashes_ok nx q hs \<longleftrightarrow> (\<forall>i < length hs. hs ! i = rolling nx q i)"

lemma hashes_ok_Nil [simp]: "hashes_ok nx q []"
  by (simp add: hashes_ok_def)

lemma ensure_hashes:
  "hashes_ok nx q hs \<Longrightarrow> hashes_ok nx q (ensure_seq_hash_computed nx hs target q)
     \<and> target < length (ensure_seq_hash_computed nx hs target q)"
proof (induction nx hs target q rule: ensure_seq_hash_computed.induct)
  case (1 nx hs target q)
  show ?case
  proof (cases "length hs \<le> target")
    case True
    let ?h = "if length hs = 0 then q ! 0 else nx (hs ! (length hs - 1)) (q ! length hs)"
    have "hashes_ok nx q (hs @ [?h])"
      using 1(2) by (cases hs rule: rev_cases) (auto simp: hashes_ok_def nth_append less_Suc_eq)
    then show ?thesis
      using 1(1) [OF True refl refl] True by (subst (1 2) ensure_seq_hash_computed.simps) (simp add: Let_def)
  next
    case False
    with 1(2) show ?thesis by (subst (1 2) ensure_seq_hash_computed.simps) simp
  qed
qed

lemma ensure_nth: "hashes_ok nx q hs \<Longrightarrow> ensure_seq_hash_computed nx hs target q ! target = rolling nx q target"
  using ensure_hashes [of nx q hs target] by (simp add: hashes_ok_def)

lemma get_workers_spec:
  assumes "unmixed nx ix q" "pos < length q" "hashes_ok nx q hs"
    "get_workers_lazy nx ix pos (q ! pos) hs q = (r, hs')"
  shows "hashes_ok nx q hs'" "or_default r = holders nx ix q pos"
proof -
  have m: "h = rolling nx q pos" if "ix (pos, q ! pos) = Some (Single h ws)" for h ws
    using assms(1, 2) that by (simp add: unmixed_def)
  show "hashes_ok nx q hs'" "or_default r = holders nx ix q pos"
    using assms(3, 4) m ensure_nth [OF assms(3), of pos] ensure_hashes [OF assms(3), of pos]
    by (auto simp: get_workers_lazy_def holders_def entry_workers_def or_default_def Let_def
        split: option.splits elim!: workers_if_single.elims)
qed

lemma count_workers_spec:
  assumes "unmixed nx ix q" "pos < length q" "hashes_ok nx q hs"
  shows "hashes_ok nx q (snd (count_workers_at nx ix pos (q ! pos) hs q))"
    "fst (count_workers_at nx ix pos (q ! pos) hs q) = length (holders nx ix q pos)"
proof -
  have m: "h = rolling nx q pos" if "ix (pos, q ! pos) = Some (Single h ws)" for h ws
    using assms(1, 2) that by (simp add: unmixed_def)
  show "hashes_ok nx q (snd (count_workers_at nx ix pos (q ! pos) hs q))"
    "fst (count_workers_at nx ix pos (q ! pos) hs q) = length (holders nx ix q pos)"
    using assms(3) m ensure_nth [OF assms(3), of pos] ensure_hashes [OF assms(3), of pos]
    by (auto simp: count_workers_at_def holders_def entry_workers_def or_default_def Let_def
        split: option.splits elim!: workers_if_single.elims)
qed

lemma swap_remove_spec:
  assumes "distinct xs" "i < length xs"
  shows "distinct (swap_remove i xs)" "set (swap_remove i xs) = set xs - {xs ! i}"
    "take i (swap_remove i xs) = take i xs"
proof -
  from assms obtain ys y where xs: "xs = ys @ [y]" by (cases xs rule: rev_cases) auto
  show "distinct (swap_remove i xs)" "set (swap_remove i xs) = set xs - {xs ! i}"
    "take i (swap_remove i xs) = take i xs"
    using assms unfolding xs swap_remove_def
    by (auto simp: nth_append list_update_append distinct_list_update set_update_distinct less_Suc_eq)
qed

lemma retain_workers_spec:
  "distinct active \<Longrightarrow> set (take i active) \<subseteq> set ws \<Longrightarrow> retain_workers ws pos active i sc = (a, sc') \<Longrightarrow>
     distinct a \<and> set a = set active \<inter> set ws
     \<and> sc' = (\<lambda>w. if w \<in> set active - set ws then Some (of_nat pos) else sc w)"
proof (induction ws pos active i sc rule: retain_workers.induct)
  case (1 ws pos active i sc)
  consider (stop) "\<not> i < length active" | (keep) "i < length active" "active ! i \<in> set ws"
    | (drop) "i < length active" "active ! i \<notin> set ws" by blast
  then show ?case
  proof cases
    case stop
    then have "a = active" "sc' = sc" using 1(5) by (simp_all add: retain_workers.simps [of ws pos active i])
    with stop 1(3, 4) show ?thesis by (auto intro!: ext)
  next
    case keep
    then have "retain_workers ws pos active (i + 1) sc = (a, sc')"
      using 1(5) by (simp add: retain_workers.simps [of ws pos active i])
    with 1(1) [OF keep 1(3)] 1(4) keep show ?thesis by (simp add: take_Suc_conv_app_nth)
  next
    case drop
    note s = swap_remove_spec [OF 1(3) drop(1)]
    have r: "retain_workers ws pos (swap_remove i active) i (sc(active ! i \<mapsto> of_nat pos)) = (a, sc')"
      using 1(5) drop by (simp add: retain_workers.simps [of ws pos active i])
    have n: "active ! i \<in> set active" using drop(1) by simp
    from 1(2) [OF drop s(1) _ r] s 1(4) show ?thesis using drop(2) n by (auto intro!: ext)
  qed
qed

lemma record_all_apply: "record_all ws n sc w = (if w \<in> set ws then Some (of_nat n) else sc w)"
  unfolding record_all_def by (induction ws arbitrary: sc) auto

text \<open>The state of the search after position \<open>p\<close>.\<close>

definition score_upto :: "(u64 \<Rightarrow> u64 \<Rightarrow> u64) \<Rightarrow> index_map \<Rightarrow> content_hash list \<Rightarrow> nat \<Rightarrow> score_map" where
  "score_upto nx ix q p = (\<lambda>w. if w \<in> set (holders nx ix q 0) \<and> w \<notin> set (holders nx ix q p)
     then Some (of_nat (depth nx ix q w)) else None)"

definition search_inv ::
    "(u64 \<Rightarrow> u64 \<Rightarrow> u64) \<Rightarrow> index_map \<Rightarrow> content_hash list \<Rightarrow> nat \<Rightarrow> seq_hash list \<Rightarrow> worker_id list \<Rightarrow> score_map \<Rightarrow> bool" where
  "search_inv nx ix q p hs active sc \<longleftrightarrow> hashes_ok nx q hs \<and> distinct active
     \<and> set active = set (holders nx ix q p) \<and> sc = score_upto nx ix q p"

lemma holders_antimono:
  assumes "searchable nx ix q" "i \<le> j" "j < length q"
  shows "set (holders nx ix q j) \<subseteq> set (holders nx ix q i)"
  using assms(2, 3)
proof (induction rule: dec_induct)
  case (step k)
  then have "set (holders nx ix q (Suc k)) \<subseteq> set (holders nx ix q k)" using assms(1) by (simp add: searchable_def)
  with step show ?case by simp
qed simp

lemma takeWhile_upt_length:
  assumes "p < n" "\<And>i. i < p \<Longrightarrow> P i" "\<not> P p"
  shows "length (takeWhile P [0..<n]) = p"
proof -
  have "[0..<n] = [0..<p] @ p # [Suc p..<n]" using assms(1) upt_add_eq_append [of 0 p "n - p"] by (simp add: upt_conv_Cons)
  then show ?thesis using assms(2, 3) by (simp add: takeWhile_append)
qed

lemma depth_drop:
  assumes "searchable nx ix q" "Suc p < length q" "w \<in> set (holders nx ix q p)" "w \<notin> set (holders nx ix q (Suc p))"
  shows "depth nx ix q w = Suc p"
  unfolding depth_def
proof (rule takeWhile_upt_length)
  fix i
  assume "i < Suc p"
  then show "w \<in> set (holders nx ix q i)" using holders_antimono [OF assms(1), of i p] assms(2, 3) by auto
qed (use assms in simp_all)

lemma depth_full:
  assumes "searchable nx ix q" "q \<noteq> []" "w \<in> set (holders nx ix q (length q - 1))"
  shows "depth nx ix q w = length q"
proof -
  have "w \<in> set (holders nx ix q i)" if "i < length q" for i
  proof -
    have "i \<le> length q - 1" "length q - 1 < length q" using that by simp_all
    from holders_antimono [OF assms(1) this] assms(3) show ?thesis by blast
  qed
  then have "takeWhile (\<lambda>i. w \<in> set (holders nx ix q i)) [0..<length q] = [0..<length q]"
    by (simp add: takeWhile_eq_all_conv)
  then show ?thesis by (simp only: depth_def length_upt diff_zero)
qed

lemma score_upto_step:
  assumes "searchable nx ix q" "Suc p < length q"
  shows "score_upto nx ix q (Suc p) = (\<lambda>w. if w \<in> set (holders nx ix q p) - set (holders nx ix q (Suc p))
     then Some (of_nat (Suc p)) else score_upto nx ix q p w)"
proof -
  have m: "set (holders nx ix q (Suc p)) \<subseteq> set (holders nx ix q p)" "set (holders nx ix q p) \<subseteq> set (holders nx ix q 0)"
    using holders_antimono [OF assms(1)] assms(2) by auto
  show ?thesis
    using m depth_drop [OF assms] unfolding score_upto_def by (intro ext) (auto simp del: of_nat_Suc)
qed

lemma same_set_by_length:
  assumes "distinct xs" "distinct ys" "set ys \<subseteq> set xs" "length xs \<le> length ys"
  shows "set ys = set xs"
  using assms by (intro card_seteq) (simp_all add: distinct_card)

text \<open>One position of the scan, seen as a filter of the active workers.\<close>

lemma retain_step:
  assumes "searchable nx ix q" "Suc p < length q" "search_inv nx ix q p hs active sc" "hashes_ok nx q hs'"
    "ws = holders nx ix q (Suc p)"
    "(if length ws < length active then retain_workers ws (Suc p) active 0 sc else (active, sc)) = (a, sc')"
  shows "search_inv nx ix q (Suc p) hs' a sc'"
proof -
  have sub: "set ws \<subseteq> set active" "distinct ws"
    using assms(1-3, 5) by (auto simp: searchable_def search_inv_def)
  note st = score_upto_step [OF assms(1, 2)]
  show ?thesis
  proof (cases "length ws < length active")
    case True
    with assms(6) have r: "retain_workers ws (Suc p) active 0 sc = (a, sc')" by simp
    have "distinct a \<and> set a = set active \<inter> set ws
        \<and> sc' = (\<lambda>w. if w \<in> set active - set ws then Some (of_nat (Suc p)) else sc w)"
      using retain_workers_spec [OF _ _ r] assms(3) by (simp add: search_inv_def)
    then show ?thesis using assms(3-5) sub st by (auto simp: search_inv_def)
  next
    case False
    then have "a = active" "sc' = sc" "set ws = set active"
      using assms(3, 6) sub same_set_by_length [of active ws] by (auto simp: search_inv_def)
    then show ?thesis using assms(3-5) st by (auto simp: search_inv_def)
  qed
qed

lemma empty_step:
  assumes "searchable nx ix q" "Suc p < length q" "search_inv nx ix q p hs active sc" "hashes_ok nx q hs'"
    "holders nx ix q (Suc p) = []"
  shows "search_inv nx ix q (Suc p) hs' [] (record_all active (Suc p) sc)"
  using assms score_upto_step [OF assms(1, 2)] by (auto simp: search_inv_def record_all_apply)

lemma search_inv_empty:
  assumes "searchable nx ix q" "search_inv nx ix q p hs [] sc" "p \<le> k" "k < length q"
  shows "search_inv nx ix q k hs [] sc"
proof -
  have "set (holders nx ix q k) = {}" using holders_antimono [OF assms(1, 3, 4)] assms(2) by (auto simp: search_inv_def)
  then show ?thesis using assms(2) by (auto simp: search_inv_def score_upto_def)
qed

lemma linear_scan_spec:
  assumes "searchable nx ix q"
  shows "search_inv nx ix q p hs active sc \<Longrightarrow> p \<le> hi \<Longrightarrow> hi < length q \<Longrightarrow>
     linear_scan_drain nx ix q hs active sc [p + 1..<hi + 1] False = (hs', a, sc') \<Longrightarrow> search_inv nx ix q hi hs' a sc'"
proof (induction "hi - p" arbitrary: p hs active sc)
  case 0
  then show ?case by simp
next
  case (Suc n)
  then have lt: "p < hi" and sp: "Suc p < length q" and n: "n = hi - Suc p" by simp_all
  have up: "[p + 1..<hi + 1] = Suc p # [Suc p + 1..<hi + 1]" using lt by (simp add: upt_conv_Cons)
  note run = Suc.prems(4) [unfolded up]
  let ?e = "ix (Suc p, q ! Suc p)" and ?ws = "holders nx ix q (Suc p)"
  have hs: "hashes_ok nx q hs" using Suc.prems(1) by (simp add: search_inv_def)
  note en = ensure_hashes [OF hs, of "Suc p"] ensure_nth [OF hs, of "Suc p"]
  let ?hs = "ensure_seq_hash_computed nx hs (Suc p) q"
  have continue: ?case
    if "hashes_ok nx q hs1" "ws = ?ws" "(case (if length ws < length active then retain_workers ws (Suc p) active 0 sc else (active, sc)) of
      (a1, sc1) \<Rightarrow> linear_scan_drain nx ix q hs1 a1 sc1 [Suc p + 1..<hi + 1] False) = (hs', a, sc')" for hs1 ws
  proof -
    obtain a1 sc1 where r: "(if length ws < length active then retain_workers ws (Suc p) active 0 sc else (active, sc)) = (a1, sc1)"
      by fastforce
    have "search_inv nx ix q (Suc p) hs1 a1 sc1"
      by (rule retain_step [OF assms sp Suc.prems(1) that(1, 2) r])
    moreover have "linear_scan_drain nx ix q hs1 a1 sc1 [Suc p + 1..<hi + 1] False = (hs', a, sc')"
      using that(3) unfolding r by simp
    ultimately show ?thesis using Suc.hyps(1) [OF n] lt Suc.prems(3) by simp
  qed
  have stop: ?case if "?ws = []" "hashes_ok nx q hs'" "a = []" "sc' = record_all active (Suc p) sc"
    using search_inv_empty [OF assms empty_step [OF assms sp Suc.prems(1) that(2, 1)]] lt Suc.prems(3) that(3, 4) by simp
  show ?case
  proof (cases "active = []")
    case True
    then show ?thesis
      using Suc.prems(1-3) run search_inv_empty [OF assms, of p hs sc hi] by simp
  next
    case act: False
    show ?thesis
    proof (cases ?e)
      case None
      then show ?thesis
        using run act hs by (intro stop) (simp_all add: holders_def entry_workers_def del: upt_Suc)
    next
      case (Some e)
      show ?thesis
      proof (cases e)
        case (Single h ws)
        have "h = rolling nx q (Suc p)" using assms sp Some Single unfolding searchable_def unmixed_def by blast
        then have "ws = ?ws" using Some Single by (simp add: holders_def entry_workers_def or_default_def)
        then show ?thesis using run act Some Single by (intro continue [OF hs]) (simp_all add: Let_def del: upt_Suc)
      next
        case (Multi m)
        show ?thesis
        proof (cases "map_of m (rolling nx q (Suc p))")
          case None
          then show ?thesis using run act Some Multi en
            by (intro stop) (auto simp add: holders_def entry_workers_def or_default_def Let_def simp del: upt_Suc)
        next
          case (Some ws)
          then have "ws = ?ws" using \<open>?e = Some e\<close> Multi by (simp add: holders_def entry_workers_def or_default_def)
          moreover have "(case (if length ws < length active then retain_workers ws (Suc p) active 0 sc else (active, sc)) of
            (a1, sc1) \<Rightarrow> linear_scan_drain nx ix q ?hs a1 sc1 [Suc p + 1..<hi + 1] False) = (hs', a, sc')"
            using run act Some Multi \<open>?e = Some e\<close> en(2) by (simp add: Let_def del: upt_Suc rolling.simps)
          ultimately show ?thesis using continue [OF conjunct1 [OF en(1)]] by blast
        qed
      qed
    qed
  qed
qed

lemma jump_loop_spec:
  assumes "searchable nx (index x) q" "0 < jump_size x" "q \<noteq> []"
  shows "search_inv nx (index x) q cur hs active sc \<Longrightarrow> cur < length q \<Longrightarrow>
     \<exists>a sc' hs'. jump_loop nx x q hs active sc cur = Some (a, sc') \<and> search_inv nx (index x) q (length q - 1) hs' a sc'"
proof (induction "length q - 1 - cur" arbitrary: cur hs active sc rule: less_induct)
  case less
  show ?case
  proof (cases "cur < length q - 1 \<and> active \<noteq> []")
    case False
    have "search_inv nx (index x) q (length q - 1) hs active sc"
    proof (cases "active = []")
      case True
      then show ?thesis using search_inv_empty [OF assms(1), of cur hs sc "length q - 1"] less.prems by simp
    next
      case False
      with \<open>\<not> (cur < length q - 1 \<and> active \<noteq> [])\<close> less.prems(2) have "cur = length q - 1" by simp
      then show ?thesis using less.prems(1) by simp
    qed
    moreover have "jump_loop nx x q hs active sc cur = Some (active, sc)"
      using False by (subst jump_loop.simps) auto
    ultimately show ?thesis by blast
  next
    case True
    define nxt where "nxt = min (cur + jump_size x) (length q - 1)"
    have b: "cur < nxt" "nxt < length q" "length q - 1 - nxt < length q - 1 - cur"
      using True assms(2, 3) by (auto simp: nxt_def)
    let ?r = "count_workers_at nx (index x) nxt (q ! nxt) hs q"
    have u: "unmixed nx (index x) q" using assms(1) by (simp add: searchable_def)
    have hs: "hashes_ok nx q hs" using less.prems(1) by (simp add: search_inv_def)
    note c = count_workers_spec [OF u b(2) hs]
    have eq: "jump_loop nx x q hs active sc cur = (if fst ?r = length active then jump_loop nx x q (snd ?r) active sc nxt
        else (let s = linear_scan_drain nx (index x) q (snd ?r) active sc [cur + 1..<nxt + 1] False
              in jump_loop nx x q (fst s) (fst (snd s)) (snd (snd s)) nxt))"
      using True unfolding nxt_def by (subst jump_loop.simps) (simp only: Let_def simp_thms if_True)
    show ?thesis
    proof (cases "fst ?r = length active")
      case same: True
      have "set (holders nx (index x) q nxt) = set active"
      proof (rule same_set_by_length)
        show "set (holders nx (index x) q nxt) \<subseteq> set active"
          using holders_antimono [OF assms(1), of cur nxt] b less.prems(1) by (simp add: search_inv_def)
        show "distinct active" "distinct (holders nx (index x) q nxt)" "length active \<le> length (holders nx (index x) q nxt)"
          using less.prems(1) assms(1) b(2) c(2) same by (simp_all add: search_inv_def searchable_def)
      qed
      then have "search_inv nx (index x) q nxt (snd ?r) active sc"
        using less.prems(1) c(1) by (auto simp: search_inv_def score_upto_def)
      from less.hyps [OF b(3) this b(2)] show ?thesis
        unfolding eq using same by auto
    next
      case False
      obtain h1 a1 s1 where l: "linear_scan_drain nx (index x) q (snd ?r) active sc [cur + 1..<nxt + 1] False = (h1, a1, s1)"
        by (metis prod_cases3)
      have "search_inv nx (index x) q cur (snd ?r) active sc"
        using less.prems(1) c(1) by (simp add: search_inv_def)
      from linear_scan_spec [OF assms(1) this _ b(2) l] b(1)
      have "search_inv nx (index x) q nxt h1 a1 s1" by simp
      from less.hyps [OF b(3) this b(2)] show ?thesis
        unfolding eq l using False by auto
    qed
  qed
qed

lemma find_matches_searchable:
  assumes "searchable nx (index x) q" "0 < jump_size x"
  shows "find_matches nx x q False = Some (with_sizes x
     (\<lambda>w. if depth nx (index x) q w > 0 then Some (of_nat (depth nx (index x) q w)) else None))"
proof (cases "q = []")
  case True
  then show ?thesis
    by (auto simp: find_matches_def jump_search_matches_def no_scores_def with_sizes_def depth_def)
next
  case False
  let ?ix = "index x"
  obtain r hs where g: "get_workers_lazy nx ?ix 0 (q ! 0) [] q = (r, hs)" by fastforce
  have u: "unmixed nx ?ix q" using assms(1) by (simp add: searchable_def)
  note gs = get_workers_spec [OF u _ hashes_ok_Nil g]
  have d0: "depth nx ?ix q w > 0 \<longleftrightarrow> w \<in> set (holders nx ?ix q 0)" for w
    using False by (cases q) (simp_all add: depth_def upt_conv_Cons del: upt_Suc)
  show ?thesis
  proof (cases "or_default r = []")
    case True
    then have "depth nx ?ix q w = 0" for w using gs(2) False d0 [of w] by simp
    then show ?thesis
      using True False g by (auto simp: find_matches_def jump_search_matches_def no_scores_def with_sizes_def or_default_def
          split: option.splits)
  next
    case ne: False
    then obtain active where r: "r = Some active" "active \<noteq> []" by (cases r) (auto simp: or_default_def)
    have i: "search_inv nx ?ix q 0 hs active Map.empty"
      using gs False r assms(1) by (auto simp: search_inv_def searchable_def or_default_def score_upto_def)
    obtain a sc' hs' where j: "jump_loop nx x q hs active Map.empty 0 = Some (a, sc')"
      "search_inv nx ?ix q (length q - 1) hs' a sc'"
      using jump_loop_spec [OF assms False i] False by auto
    have "record_all a (length q) sc' w =
        (if depth nx ?ix q w > 0 then Some (of_nat (depth nx ?ix q w)) else None)" for w
      using j(2) depth_full [OF assms(1) False, of w] d0 [of w] False
      by (auto simp: record_all_apply search_inv_def score_upto_def)
    then have "record_all a (length q) sc' =
        (\<lambda>w. if depth nx ?ix q w > 0 then Some (of_nat (depth nx ?ix q w)) else None)" by (rule ext)
    then show ?thesis using False g r j(1) by (simp add: find_matches_def jump_search_matches_def)
  qed
qed

section \<open>Events\<close>

text \<open>
  The blocks of a request are named by their path, the content hashes from the first block on.
  A backend names the block at the end of a path by a hash of the path, \<open>bh\<close>; the router uses
  the rolling hash.
\<close>

definition path_hash :: "(u64 \<Rightarrow> u64 \<Rightarrow> u64) \<Rightarrow> content_hash list \<Rightarrow> seq_hash" where
  "path_hash nx p = rolling nx p (length p - 1)"

definition block_location :: "(u64 \<Rightarrow> u64 \<Rightarrow> u64) \<Rightarrow> content_hash list \<Rightarrow> nat \<times> content_hash \<times> seq_hash" where
  "block_location nx p = (length p - 1, last p, path_hash nx p)"

fun extensions :: "content_hash list \<Rightarrow> content_hash list \<Rightarrow> content_hash list list" where
  "extensions p [] = []"
| "extensions p (c # cs) = (p @ [c]) # extensions (p @ [c]) cs"

definition blocks_of :: "(content_hash list \<Rightarrow> seq_hash) \<Rightarrow> content_hash list \<Rightarrow> content_hash list \<Rightarrow> stored_block list" where
  "blocks_of bh p cs = map (\<lambda>e. \<lparr>block_seq = bh e, block_content = last e\<rparr>) (extensions p cs)"

datatype kv_event =
    Stored worker_id "content_hash list" "content_hash list"
  | Removed worker_id "content_hash list list"
  | Cleared worker_id

record kv_state =
  kv_index :: indexer
  kv_blocks :: "worker_id \<Rightarrow> worker_block_map"

definition kv_update :: "worker_id \<Rightarrow> indexer \<times> worker_block_map \<Rightarrow> kv_state \<Rightarrow> kv_state" where
  "kv_update w r s = s\<lparr>kv_index := fst r, kv_blocks := (kv_blocks s)(w := snd r)\<rparr>"

fun kv_step :: "(u64 \<Rightarrow> u64 \<Rightarrow> u64) \<Rightarrow> (content_hash list \<Rightarrow> seq_hash) \<Rightarrow> kv_state \<Rightarrow> kv_event \<Rightarrow> kv_state" where
  "kv_step nx bh s (Stored w p cs) =
     kv_update w (snd (apply_stored nx w (blocks_of bh p cs) (if p = [] then None else Some (bh p)) (kv_index s, kv_blocks s w))) s"
| "kv_step nx bh s (Removed w ps) = kv_update w (apply_removed w (map bh ps) (kv_index s, kv_blocks s w)) s"
| "kv_step nx bh s (Cleared w) = kv_update w (apply_cleared w (kv_index s, kv_blocks s w)) s"

definition kv_start :: "indexer \<Rightarrow> kv_state" where
  "kv_start x = \<lparr>kv_index = x, kv_blocks = (\<lambda>_. [])\<rparr>"

text \<open>The specification: the set of paths that each worker holds.\<close>

type_synonym held = "worker_id \<Rightarrow> content_hash list set"

fun held_step :: "held \<Rightarrow> kv_event \<Rightarrow> held" where
  "held_step H (Stored w p cs) =
     (if p = [] \<or> p \<in> H w then H(w := H w \<union> set (extensions p cs)) else H)"
| "held_step H (Removed w ps) = H(w := H w - set ps)"
| "held_step H (Cleared w) = H(w := {})"

fun event_in :: "content_hash list set \<Rightarrow> kv_event \<Rightarrow> bool" where
  "event_in P (Stored w p cs) \<longleftrightarrow> (p = [] \<or> p \<in> P) \<and> set (extensions p cs) \<subseteq> P"
| "event_in P (Removed w ps) \<longleftrightarrow> set ps \<subseteq> P"
| "event_in P (Cleared w) \<longleftrightarrow> True"

subsection \<open>Entries\<close>

fun entry_ok :: "seq_entry \<Rightarrow> bool" where
  "entry_ok (Single h ws) \<longleftrightarrow> distinct ws \<and> ws \<noteq> []"
| "entry_ok (Multi m) \<longleftrightarrow> distinct (map fst m) \<and> (\<forall>h ws. map_of m h = Some ws \<longrightarrow> distinct ws \<and> ws \<noteq> [])"

definition entries_ok :: "index_map \<Rightarrow> bool" where
  "entries_ok ix \<longleftrightarrow> (\<forall>k e. ix k = Some e \<longrightarrow> entry_ok e)"

lemma or_default_simps [simp]: "or_default None = []" "or_default (Some ws) = ws"
  by (simp_all add: or_default_def)

lemma insert_ne [simp]: "List.insert w ws \<noteq> []"
  by (cases ws) (auto simp: List.insert_def)

lemma multi_update_ok:
  "entry_ok (Multi m) \<Longrightarrow> distinct ws \<Longrightarrow> ws \<noteq> [] \<Longrightarrow> entry_ok (Multi (AList.update h ws m))"
  by (auto simp: distinct_update update_conv' split: if_splits)

lemma multi_delete_ok:
  assumes "entry_ok (Multi m)"
  shows "entry_ok (Multi (AList.delete h m))"
proof -
  have "distinct (map fst (AList.delete h m))" using assms by (intro distinct_delete) simp
  then show ?thesis using assms by (fastforce simp: AList.delete_eq)
qed

lemma or_default_ok: "entry_ok (Multi m) \<Longrightarrow> distinct (or_default (map_of m h))"
  by (cases "map_of m h") auto

lemma entry_insert_ok: "entry_ok e \<Longrightarrow> entry_ok (entry_insert h w e)"
proof (cases e)
  case (Single g ws)
  assume "entry_ok e"
  with Single show ?thesis by (auto simp: Let_def)
next
  case (Multi m)
  assume "entry_ok e"
  with Multi or_default_ok [of m h] show ?thesis by (simp only: entry_insert.simps) (intro multi_update_ok; simp)
qed

lemma entry_insert_get:
  "set (or_default (entry_get h' (entry_insert h w e))) =
     (if h' = h then insert w (set (or_default (entry_get h' e))) else set (or_default (entry_get h' e)))"
  by (cases e) (auto simp: Let_def update_conv')

lemma entry_remove_spec:
  assumes "entry_ok e" "entry_remove h w e = (e', gone)"
  shows "if gone then (\<forall>h'. set (or_default (entry_get h' e)) - (if h' = h then {w} else {}) = {})
     else entry_ok e' \<and> (\<forall>h'. set (or_default (entry_get h' e')) = set (or_default (entry_get h' e)) - (if h' = h then {w} else {}))"
proof (cases e)
  case (Single g ws)
  with assms show ?thesis by (auto simp: removeAll_filter_not_eq filter_empty_conv split: if_splits)
next
  case (Multi m)
  show ?thesis
  proof (cases "map_of m h")
    case None
    with assms Multi show ?thesis by (auto split: if_splits)
  next
    case (Some ws)
    define m' where "m' = (if removeAll w ws = [] then AList.delete h m else AList.update h (removeAll w ws) m)"
    have r: "e' = Multi m'" "gone \<longleftrightarrow> m' = []" using assms(2) Multi Some by (auto simp: Let_def m'_def)
    have ok: "entry_ok (Multi m')"
    proof (cases "removeAll w ws = []")
      case True
      then show ?thesis using multi_delete_ok assms(1) Multi by (simp add: m'_def del: entry_ok.simps)
    next
      case False
      have "distinct (removeAll w ws)" using assms(1) Multi Some by (auto intro: distinct_removeAll)
      with False show ?thesis using multi_update_ok assms(1) Multi by (simp add: m'_def del: entry_ok.simps)
    qed
    have g: "set (or_default (map_of m' h')) = set (or_default (map_of m h')) - (if h' = h then {w} else {})" for h'
      using Some by (auto simp: m'_def update_conv' delete_conv' removeAll_filter_not_eq filter_empty_conv)
    show ?thesis
    proof (cases gone)
      case True
      then have "m' = []" using r(2) by simp
      then have "set (or_default (map_of m h')) - (if h' = h then {w} else {}) = {}" for h'
        using g [of h'] by simp
      with True Multi show ?thesis by simp
    next
      case False
      then show ?thesis unfolding r(1) Multi using ok g by (simp del: entry_ok.simps)
    qed
  qed
qed

lemma store_entry_spec:
  assumes "entries_ok ix"
  shows "entries_ok (store_entry k h w ix)"
    "set (entry_workers h' (store_entry k h w ix k')) =
      set (entry_workers h' (ix k')) \<union> (if k' = k \<and> h' = h then {w} else {})"
  using assms entry_insert_ok
  by (auto simp: entries_ok_def store_entry_def entry_new_def entry_workers_def entry_insert_get split: option.splits if_splits)

lemma remove_entry_spec:
  assumes "entries_ok ix"
  shows "entries_ok (remove_entry k h w ix)"
    "set (entry_workers h' (remove_entry k h w ix k')) =
      set (entry_workers h' (ix k')) - (if k' = k \<and> h' = h then {w} else {})"
proof -
  obtain e' gone where r: "entry_remove h w (the (ix k)) = (e', gone)" by fastforce
  have s: "if gone then (\<forall>h'. set (or_default (entry_get h' e)) - (if h' = h then {w} else {}) = {})
     else entry_ok e' \<and> (\<forall>h'. set (or_default (entry_get h' e')) = set (or_default (entry_get h' e)) - (if h' = h then {w} else {}))"
    if "ix k = Some e" for e
  proof (rule entry_remove_spec)
    show "entry_ok e" using assms that unfolding entries_ok_def by blast
    show "entry_remove h w e = (e', gone)" using r that by simp
  qed
  show "entries_ok (remove_entry k h w ix)"
    using assms s r by (auto simp: entries_ok_def remove_entry_def split: option.splits if_splits)
  show "set (entry_workers h' (remove_entry k h w ix k')) =
      set (entry_workers h' (ix k')) - (if k' = k \<and> h' = h then {w} else {})"
  proof (cases "ix k")
    case None
    then show ?thesis by (auto simp: remove_entry_def entry_workers_def)
  next
    case (Some e)
    with s [OF Some] r show ?thesis
      by (cases gone; cases "k' = k") (auto simp: remove_entry_def entry_workers_def split: if_splits)
  qed
qed

subsection \<open>Representation\<close>

definition blocks_rep ::
    "(u64 \<Rightarrow> u64 \<Rightarrow> u64) \<Rightarrow> (content_hash list \<Rightarrow> seq_hash) \<Rightarrow> worker_block_map \<Rightarrow> content_hash list set \<Rightarrow> bool" where
  "blocks_rep nx bh wb A \<longleftrightarrow> distinct (map fst wb) \<and> set wb = (\<lambda>p. (bh p, block_location nx p)) ` A"

definition index_rep :: "(u64 \<Rightarrow> u64 \<Rightarrow> u64) \<Rightarrow> index_map \<Rightarrow> held \<Rightarrow> bool" where
  "index_rep nx ix H \<longleftrightarrow> entries_ok ix
     \<and> (\<forall>pos c h w. w \<in> set (entry_workers h (ix (pos, c))) \<longleftrightarrow> (\<exists>p \<in> H w. block_location nx p = (pos, c, h)))"

definition kv_rep ::
    "(u64 \<Rightarrow> u64 \<Rightarrow> u64) \<Rightarrow> (content_hash list \<Rightarrow> seq_hash) \<Rightarrow> content_hash list set \<Rightarrow> kv_state \<Rightarrow> held \<Rightarrow> bool" where
  "kv_rep nx bh P s H \<longleftrightarrow> (\<forall>w. H w \<subseteq> P \<and> finite (H w)) \<and> index_rep nx (index (kv_index s)) H
     \<and> (\<forall>w. blocks_rep nx bh (kv_blocks s w) (H w) \<and> tree_sizes (kv_index s) w = of_nat (card (H w)))"

lemma index_rep_store:
  assumes "index_rep nx ix H" "block_location nx p = (pos, c, h)"
  shows "index_rep nx (store_entry (pos, c) h w ix) (H(w := insert p (H w)))"
proof -
  have ok: "entries_ok ix" using assms(1) by (simp add: index_rep_def)
  show ?thesis
    unfolding index_rep_def store_entry_spec(2) [OF ok]
    using assms store_entry_spec(1) [OF ok] by (auto simp: index_rep_def)
qed

lemma index_rep_remove:
  assumes "index_rep nx ix H" "block_location nx p = (pos, c, h)" "inj_on (block_location nx) (H w)" "p \<in> H w"
  shows "index_rep nx (remove_entry (pos, c) h w ix) (H(w := H w - {p}))"
proof -
  have ok: "entries_ok ix" using assms(1) by (simp add: index_rep_def)
  have j: "p' = p" if "p' \<in> H w" "block_location nx p' = (pos, c, h)" for p'
    using inj_onD [OF assms(3), of p' p] assms(2, 4) that by simp
  show ?thesis
    unfolding index_rep_def remove_entry_spec(2) [OF ok]
    using assms(1, 2) remove_entry_spec(1) [OF ok] j by (auto simp: index_rep_def)
qed

lemma blocks_rep_lookup:
  assumes "blocks_rep nx bh wb A" "inj_on bh P" "A \<subseteq> P" "p \<in> P"
  shows "map_of wb (bh p) = (if p \<in> A then Some (block_location nx p) else None)"
proof (cases "p \<in> A")
  case True
  then show ?thesis using assms(1) by (auto simp: blocks_rep_def)
next
  case False
  have "bh p \<notin> fst ` set wb"
  proof
    assume "bh p \<in> fst ` set wb"
    then obtain p' where "p' \<in> A" "bh p' = bh p" using assms(1) by (force simp: blocks_rep_def)
    then have "p' = p" using inj_onD [OF assms(2), of p' p] assms(3, 4) by auto
    with \<open>p' \<in> A\<close> False show False by simp
  qed
  with False show ?thesis by (simp add: map_of_eq_None_iff)
qed

lemma blocks_rep_update:
  assumes "blocks_rep nx bh wb A" "inj_on bh P" "A \<subseteq> P" "p \<in> P"
  shows "blocks_rep nx bh (AList.update (bh p) (block_location nx p) wb) (insert p A)"
proof -
  let ?wb = "AList.update (bh p) (block_location nx p) wb"
  have d: "distinct (map fst ?wb)" "distinct (map fst wb)" using assms(1) by (auto simp: blocks_rep_def distinct_update)
  have eq: "(k, v) \<in> set ?wb \<longleftrightarrow> (k, v) \<in> (\<lambda>p. (bh p, block_location nx p)) ` insert p A" for k v
  proof -
    have "(k, v) \<in> set ?wb \<longleftrightarrow> (if k = bh p then v = block_location nx p else map_of wb k = Some v)"
      using d(1) by (simp flip: map_of_eq_Some_iff add: update_conv' eq_commute)
    also have "\<dots> \<longleftrightarrow> (k, v) \<in> (\<lambda>p. (bh p, block_location nx p)) ` insert p A"
      using assms inj_onD [OF assms(2)] by (auto simp: blocks_rep_def subset_eq)
    finally show ?thesis .
  qed
  have "set ?wb = (\<lambda>p. (bh p, block_location nx p)) ` insert p A"
  proof (intro set_eqI)
    fix x
    show "x \<in> set ?wb \<longleftrightarrow> x \<in> (\<lambda>p. (bh p, block_location nx p)) ` insert p A"
      by (cases x) (simp only: eq)
  qed
  then show ?thesis using d(1) unfolding blocks_rep_def by blast
qed

lemma blocks_rep_delete:
  assumes "blocks_rep nx bh wb A" "inj_on bh P" "A \<subseteq> P" "p \<in> P"
  shows "blocks_rep nx bh (AList.delete (bh p) wb) (A - {p})"
proof -
  let ?f = "\<lambda>p. (bh p, block_location nx p)"
  have "set (AList.delete (bh p) wb) = {e \<in> set wb. fst e \<noteq> bh p}" by (auto simp: AList.delete_eq)
  also have "\<dots> = {e \<in> ?f ` A. fst e \<noteq> bh p}" using assms(1) by (simp add: blocks_rep_def)
  also have "\<dots> = ?f ` {a \<in> A. bh a \<noteq> bh p}" by fastforce
  also have "{a \<in> A. bh a \<noteq> bh p} = A - {p}"
    using inj_on_eq_iff [OF assms(2)] assms(3, 4) by blast
  finally show ?thesis using assms(1) by (simp add: blocks_rep_def distinct_delete)
qed

subsection \<open>Operations\<close>

lemma path_hash_snoc: "path_hash nx (p @ [c]) = next_prefix nx (if p = [] then None else Some (path_hash nx p)) c"
proof -
  have r: "rolling nx (p @ [c]) k = rolling nx p k" if "k < length p" for k
    using that by (induction k) (simp_all add: nth_append)
  show ?thesis
    using r [of "length p - 1"] by (cases p rule: rev_cases) (auto simp: path_hash_def next_prefix_def nth_append)
qed

lemma block_location_snoc: "block_location nx (p @ [c]) =
    (length p, c, next_prefix nx (if p = [] then None else Some (path_hash nx p)) c)"
  by (simp add: block_location_def path_hash_snoc)

lemma store_blocks_rep:
  assumes "inj_on bh P"
  shows "index_rep nx ix H \<Longrightarrow> blocks_rep nx bh wb (H w) \<Longrightarrow> H w \<subseteq> P \<Longrightarrow> finite (H w) \<Longrightarrow> set (extensions p cs) \<subseteq> P \<Longrightarrow>
     store_blocks nx w (length p) (if p = [] then None else Some (path_hash nx p)) (blocks_of bh p cs) ix wb n = (ix', wb', n') \<Longrightarrow>
     index_rep nx ix' (H(w := H w \<union> set (extensions p cs))) \<and> blocks_rep nx bh wb' (H w \<union> set (extensions p cs))
     \<and> n' + card (H w) = n + card (H w \<union> set (extensions p cs))"
proof (induction cs arbitrary: p H ix wb n)
  case Nil
  then show ?case by (simp add: blocks_of_def)
next
  case (Cons c cs)
  let ?p = "p @ [c]" and ?H = "H(w := insert (p @ [c]) (H w))"
  let ?h = "next_prefix nx (if p = [] then None else Some (path_hash nx p)) c"
  let ?n = "if map_of wb (bh ?p) = None then n + 1 else n"
  have pP: "?p \<in> P" using Cons.prems(5) by simp
  note loc = block_location_snoc [of nx p c]
  have run: "store_blocks nx w (length ?p) (if ?p = [] then None else Some (path_hash nx ?p)) (blocks_of bh ?p cs)
      (store_entry (length p, c) ?h w ix) (AList.update (bh ?p) (block_location nx ?p) wb) ?n = (ix', wb', n')"
    using Cons.prems(6) by (simp add: blocks_of_def Let_def loc path_hash_snoc)
  have i1: "index_rep nx (store_entry (length p, c) ?h w ix) ?H"
    by (rule index_rep_store [OF Cons.prems(1) loc])
  have i2: "blocks_rep nx bh (AList.update (bh ?p) (block_location nx ?p) wb) (?H w)"
    using blocks_rep_update [OF Cons.prems(2) assms Cons.prems(3) pP] by simp
  have i3: "?H w \<subseteq> P" "finite (?H w)" using Cons.prems(3, 4) pP by simp_all
  have i4: "set (extensions ?p cs) \<subseteq> P" using Cons.prems(5) by simp
  have ih: "index_rep nx ix' (?H(w := ?H w \<union> set (extensions ?p cs)))
      \<and> blocks_rep nx bh wb' (?H w \<union> set (extensions ?p cs)) \<and> n' + card (?H w) = ?n + card (?H w \<union> set (extensions ?p cs))"
    by (rule Cons.IH [OF i1 i2 i3 i4 run])
  have cd: "?n + card (H w) = n + card (insert ?p (H w))"
    using blocks_rep_lookup [OF Cons.prems(2) assms Cons.prems(3) pP] Cons.prems(4)
    by (cases "?p \<in> H w") (simp_all add: insert_absorb)
  have un: "?H w \<union> set (extensions ?p cs) = H w \<union> set (extensions p (c # cs))" by auto
  have hw: "?H(w := X) = H(w := X)" "?H w = insert ?p (H w)" for X by simp_all
  show ?case using ih cd unfolding un hw by (simp del: fun_upd_apply)
qed

lemma remove_blocks_rep:
  assumes "inj_on bh P" "inj_on (block_location nx) P"
  shows "index_rep nx ix H \<Longrightarrow> blocks_rep nx bh wb (H w) \<Longrightarrow> H w \<subseteq> P \<Longrightarrow> finite (H w) \<Longrightarrow> set ps \<subseteq> P \<Longrightarrow>
     remove_blocks w (map bh ps) ix wb n = (ix', wb', n') \<Longrightarrow>
     index_rep nx ix' (H(w := H w - set ps)) \<and> blocks_rep nx bh wb' (H w - set ps)
     \<and> n' + card (H w - set ps) = n + card (H w)"
proof (induction ps arbitrary: H ix wb n)
  case (Cons p ps)
  have pP: "p \<in> P" using Cons.prems(5) by simp
  note lk = blocks_rep_lookup [OF Cons.prems(2) assms(1) Cons.prems(3) pP]
  show ?case
  proof (cases "p \<in> H w")
    case False
    then have "H w - set (p # ps) = H w - set ps" by auto
    with False lk Cons.IH [OF Cons.prems(1-4), of n] Cons.prems(5, 6) show ?thesis by simp
  next
    case True
    let ?H = "H(w := H w - {p})"
    obtain pos c h where loc: "block_location nx p = (pos, c, h)" by (metis prod_cases3)
    have i1: "index_rep nx (remove_entry (pos, c) h w ix) ?H"
      by (rule index_rep_remove [OF Cons.prems(1) loc inj_on_subset [OF assms(2) Cons.prems(3)] True])
    have i2: "blocks_rep nx bh (AList.delete (bh p) wb) (?H w)"
      using blocks_rep_delete [OF Cons.prems(2) assms(1) Cons.prems(3) pP] by simp
    have i3: "?H w \<subseteq> P" "finite (?H w)" "set ps \<subseteq> P" using Cons.prems(3-5) by auto
    have run: "remove_blocks w (map bh ps) (remove_entry (pos, c) h w ix) (AList.delete (bh p) wb) (n + 1) = (ix', wb', n')"
      using Cons.prems(6) lk True loc by simp
    have ih: "index_rep nx ix' (?H(w := ?H w - set ps)) \<and> blocks_rep nx bh wb' (?H w - set ps)
        \<and> n' + card (?H w - set ps) = n + 1 + card (?H w)"
      by (rule Cons.IH [OF i1 i2 i3 run])
    have cd: "n + 1 + card (?H w) = n + card (H w)" using card_Suc_Diff1 [OF Cons.prems(4) True] by simp
    have un: "H w - {p} - set ps = H w - set (p # ps)" by auto
    have hw: "?H(w := X) = H(w := X)" "?H w = H w - {p}" for X by simp_all
    show ?thesis using ih cd unfolding un hw by (simp del: fun_upd_apply)
  qed
qed simp

lemma drain_rep:
  assumes "inj_on bh P" "inj_on (block_location nx) P"
  shows "index_rep nx ix H \<Longrightarrow> blocks_rep nx bh wb (H w) \<Longrightarrow> H w \<subseteq> P \<Longrightarrow>
     index_rep nx (fold (\<lambda>(q, pos, c, h). remove_entry (pos, c) h w) wb ix) (H(w := {}))"
proof (induction wb arbitrary: ix H)
  case Nil
  then have "H w = {}" by (simp add: blocks_rep_def)
  then have "H(w := {}) = H" by (simp add: fun_upd_idem_iff)
  with Nil show ?case by simp
next
  case (Cons e wb)
  obtain p where p: "p \<in> H w" "e = (bh p, block_location nx p)" using Cons.prems(2) by (auto simp: blocks_rep_def)
  obtain pos c h where loc: "block_location nx p = (pos, c, h)" by (metis prod_cases3)
  let ?H = "H(w := H w - {p})"
  have i1: "index_rep nx (remove_entry (pos, c) h w ix) ?H"
    by (rule index_rep_remove [OF Cons.prems(1) loc inj_on_subset [OF assms(2) Cons.prems(3)] p(1)])
  have i2: "blocks_rep nx bh wb (?H w)"
  proof -
    have d: "distinct (map fst wb)" "bh p \<notin> fst ` set wb" using Cons.prems(2) p(2) by (auto simp: blocks_rep_def)
    have pP: "p \<in> P" using p(1) Cons.prems(3) by blast
    have "AList.delete (bh p) (e # wb) = wb" using d(2) p(2) by simp
    then show ?thesis using blocks_rep_delete [OF Cons.prems(2) assms(1) Cons.prems(3) pP] by simp
  qed
  have i3: "?H w \<subseteq> P" using Cons.prems(3) by auto
  have "index_rep nx (fold (\<lambda>(q, pos, c, h). remove_entry (pos, c) h w) wb (remove_entry (pos, c) h w ix)) (?H(w := {}))"
    by (rule Cons.IH [OF i1 i2 i3])
  then show ?case using p(2) loc by (simp del: fun_upd_apply)
qed

subsection \<open>Runs\<close>

definition collision_free :: "(u64 \<Rightarrow> u64 \<Rightarrow> u64) \<Rightarrow> (content_hash list \<Rightarrow> seq_hash) \<Rightarrow> content_hash list set \<Rightarrow> bool" where
  "collision_free nx bh P \<longleftrightarrow> [] \<notin> P \<and> inj_on bh P \<and> inj_on (block_location nx) P"

lemma kv_rep_update:
  assumes "kv_rep nx bh P s H" "index_rep nx (index x) (H(w := A))" "blocks_rep nx bh wb A" "A \<subseteq> P" "finite A"
    "tree_sizes x = (tree_sizes (kv_index s))(w := of_nat (card A))"
  shows "kv_rep nx bh P (kv_update w (x, wb) s) (H(w := A))"
  using assms by (simp add: kv_rep_def kv_update_def)

lemma finite_extensions_ne: "cs \<noteq> [] \<Longrightarrow> extensions p cs \<noteq> []"
  by (cases cs) simp_all

lemma stored_rep:
  assumes "kv_rep nx bh P s H" "collision_free nx bh P" "event_in P (Stored w p cs)"
  shows "kv_rep nx bh P (kv_step nx bh s (Stored w p cs)) (held_step H (Stored w p cs))"
proof -
  let ?x = "kv_index s" and ?wb = "kv_blocks s w" and ?parent = "if p = [] then None else Some (bh p)"
  have r: "index_rep nx (index ?x) H" "blocks_rep nx bh ?wb (H w)" "H w \<subseteq> P" "finite (H w)"
    "tree_sizes ?x w = of_nat (card (H w))"
    using assms(1) by (simp_all add: kv_rep_def)
  have inj: "inj_on bh P" using assms(2) by (simp add: collision_free_def)
  have e: "set (extensions p cs) \<subseteq> P" "p = [] \<or> p \<in> P" using assms(3) by simp_all
  have idem: "kv_update w (?x, ?wb) s = s" by (simp add: kv_update_def)
  show ?thesis
  proof (cases "cs = []")
    case True
    then have "apply_stored nx w (blocks_of bh p cs) ?parent (?x, ?wb) = (Inr (), ?x, ?wb)"
      by (simp add: apply_stored_def blocks_of_def)
    moreover have "held_step H (Stored w p cs) = H" using True by simp
    ultimately show ?thesis using assms(1) idem by (simp only: kv_step.simps snd_conv)
  next
    case cs: False
    have ne: "blocks_of bh p cs \<noteq> []" using finite_extensions_ne [OF cs] by (simp add: blocks_of_def)
    show ?thesis
    proof (cases "p = [] \<or> p \<in> H w")
      case False
      then have "map_of ?wb (bh p) = None" using blocks_rep_lookup [OF r(2) inj r(3), of p] e(2) by simp
      then have "snd (apply_stored nx w (blocks_of bh p cs) ?parent (?x, ?wb)) = (?x, ?wb)"
        using False ne by (simp add: apply_stored_def)
      moreover have "held_step H (Stored w p cs) = H" using False by simp
      ultimately show ?thesis using assms(1) idem by (simp only: kv_step.simps)
    next
      case True
      let ?prev = "if p = [] then None else Some (path_hash nx p)" and ?A = "H w \<union> set (extensions p cs)"
      obtain ix' wb' n' where st: "store_blocks nx w (length p) ?prev (blocks_of bh p cs) (index ?x) ?wb 0 = (ix', wb', n')"
        by (metis prod_cases3)
      note sb = store_blocks_rep [OF inj r(1-4) e(1) st]
      define x' where "x' = (if n' > 0 then add_tree_size w n' else id) (?x\<lparr>index := ix'\<rparr>)"
      have "snd (apply_stored nx w (blocks_of bh p cs) ?parent (?x, ?wb)) = (x', wb')"
      proof (cases "p = []")
        case True
        then show ?thesis using st ne by (simp add: apply_stored_def x'_def)
      next
        case False
        with True have "p \<in> H w" by simp
        then have "map_of ?wb (bh p) = Some (length p - 1, last p, path_hash nx p)"
          using blocks_rep_lookup [OF r(2) inj r(3), of p] r(3) by (auto simp: block_location_def)
        moreover from this have "?wb \<noteq> []" by auto
        moreover have "length p - 1 + 1 = length p" using False by (cases p) simp_all
        ultimately show ?thesis using st ne False by (simp add: apply_stored_def x'_def)
      qed
      then have "kv_step nx bh s (Stored w p cs) = kv_update w (x', wb') s" by simp
      moreover have "kv_rep nx bh P (kv_update w (x', wb') s) (H(w := ?A))"
      proof (rule kv_rep_update [OF assms(1)])
        show "index_rep nx (index x') (H(w := ?A))" using sb by (simp add: x'_def add_tree_size_def)
        have "of_nat (card ?A) = (of_nat n' + of_nat (card (H w)) :: usize)"
          using sb by (metis add_0 of_nat_add)
        then show "tree_sizes x' = (tree_sizes ?x)(w := of_nat (card ?A))"
          using r(5) by (auto simp: x'_def add_tree_size_def add.commute)
      qed (use sb r(3, 4) e(1) in simp_all)
      ultimately show ?thesis using True by simp
    qed
  qed
qed

lemma removed_rep:
  assumes "kv_rep nx bh P s H" "collision_free nx bh P" "event_in P (Removed w ps)"
  shows "kv_rep nx bh P (kv_step nx bh s (Removed w ps)) (held_step H (Removed w ps))"
proof -
  let ?x = "kv_index s" and ?wb = "kv_blocks s w" and ?A = "H w - set ps"
  have r: "index_rep nx (index ?x) H" "blocks_rep nx bh ?wb (H w)" "H w \<subseteq> P" "finite (H w)"
    "tree_sizes ?x w = of_nat (card (H w))"
    using assms(1) by (simp_all add: kv_rep_def)
  have inj: "inj_on bh P" "inj_on (block_location nx) P" using assms(2) by (simp_all add: collision_free_def)
  obtain ix' wb' n' where st: "remove_blocks w (map bh ps) (index ?x) ?wb 0 = (ix', wb', n')" by (metis prod_cases3)
  have "set ps \<subseteq> P" using assms(3) by simp
  note rb = remove_blocks_rep [OF inj r(1-4) this st]
  define x' where "x' = ?x\<lparr>index := ix', tree_sizes := (if n' > 0 then (tree_sizes ?x)(w := tree_sizes ?x w - of_nat n') else tree_sizes ?x)\<rparr>"
  have "apply_removed w (map bh ps) (?x, ?wb) = (x', wb')" using st by (simp add: apply_removed_def x'_def)
  then have "kv_step nx bh s (Removed w ps) = kv_update w (x', wb') s" by simp
  moreover have "kv_rep nx bh P (kv_update w (x', wb') s) (H(w := ?A))"
  proof (rule kv_rep_update [OF assms(1)])
    show "index_rep nx (index x') (H(w := ?A))" using rb by (simp add: x'_def)
    have "of_nat (card (H w)) = (of_nat n' + of_nat (card ?A) :: usize)"
      using rb by (metis add_0 of_nat_add)
    then show "tree_sizes x' = (tree_sizes ?x)(w := of_nat (card ?A))"
      using r(5) by (auto simp: x'_def)
  qed (use rb r(3, 4) in auto)
  ultimately show ?thesis by simp
qed

lemma cleared_rep:
  assumes "kv_rep nx bh P s H" "collision_free nx bh P"
  shows "kv_rep nx bh P (kv_step nx bh s (Cleared w)) (held_step H (Cleared w))"
proof -
  let ?x = "kv_index s" and ?wb = "kv_blocks s w"
  have r: "index_rep nx (index ?x) H" "blocks_rep nx bh ?wb (H w)" "H w \<subseteq> P"
    using assms(1) by (simp_all add: kv_rep_def)
  have inj: "inj_on bh P" "inj_on (block_location nx) P" using assms(2) by (simp_all add: collision_free_def)
  have "kv_step nx bh s (Cleared w) = kv_update w (drain_blocks w ?wb ?x, []) s" by (simp add: apply_cleared_def)
  moreover have "kv_rep nx bh P (kv_update w (drain_blocks w ?wb ?x, []) s) (H(w := {}))"
    using drain_rep [OF inj r]
    by (intro kv_rep_update [OF assms(1)]) (simp_all add: drain_blocks_def blocks_rep_def)
  ultimately show ?thesis by simp
qed

lemma kv_rep_run:
  assumes "collision_free nx bh P"
  shows "kv_rep nx bh P s H \<Longrightarrow> list_all (event_in P) es \<Longrightarrow>
     kv_rep nx bh P (foldl (kv_step nx bh) s es) (foldl held_step H es)"
proof (induction es arbitrary: s H)
  case (Cons e es)
  have "kv_rep nx bh P (kv_step nx bh s e) (held_step H e)"
    using stored_rep [OF Cons.prems(1) assms] removed_rep [OF Cons.prems(1) assms] cleared_rep [OF Cons.prems(1) assms] Cons.prems(2)
    by (cases e) (simp_all del: kv_step.simps held_step.simps event_in.simps)
  from Cons.IH [OF this] Cons.prems(2) show ?case by simp
qed simp

lemma kv_rep_start: "indexer_new j = Some x \<Longrightarrow> kv_rep nx bh P (kv_start x) (\<lambda>_. {})"
  by (auto simp: kv_rep_def kv_start_def indexer_new_def index_rep_def entries_ok_def blocks_rep_def entry_workers_def
      split: if_splits)

section \<open>Properties\<close>

text \<open>What the workers hold: complete paths, and at the places of the request nothing else.\<close>

definition prefix_closed :: "held \<Rightarrow> bool" where
  "prefix_closed H \<longleftrightarrow> (\<forall>w p c. p \<noteq> [] \<longrightarrow> p @ [c] \<in> H w \<longrightarrow> p \<in> H w)"

definition unambiguous :: "held \<Rightarrow> content_hash list \<Rightarrow> bool" where
  "unambiguous H q \<longleftrightarrow> (\<forall>w p k. p \<in> H w \<longrightarrow> k < length q \<longrightarrow> length p = k + 1 \<longrightarrow> last p = q ! k \<longrightarrow> p = take (k + 1) q)"

definition held_blocks :: "held \<Rightarrow> content_hash list \<Rightarrow> worker_id \<Rightarrow> nat" where
  "held_blocks H q w = length (takeWhile (\<lambda>k. take (k + 1) q \<in> H w) [0..<length q])"

definition held_scores :: "held \<Rightarrow> content_hash list \<Rightarrow> overlap_scores" where
  "held_scores H q = \<lparr>scores = (\<lambda>w. if held_blocks H q w > 0 then Some (of_nat (held_blocks H q w)) else None),
     score_sizes = (\<lambda>w. if held_blocks H q w > 0 then Some (of_nat (card (H w))) else None)\<rparr>"

lemma rolling_take: "k < n \<Longrightarrow> rolling nx (take n q) k = rolling nx q k"
  by (induction k) simp_all

lemma block_location_take:
  assumes "k < length q"
  shows "block_location nx (take (k + 1) q) = (k, q ! k, rolling nx q k)"
proof -
  have "take (k + 1) q = take k q @ [q ! k]" using assms by (simp add: take_Suc_conv_app_nth)
  then have "last (take (k + 1) q) = q ! k" by simp
  moreover have "length (take (k + 1) q) - 1 = k" using assms by simp
  ultimately show ?thesis using rolling_take [of k "k + 1" nx q]
    unfolding block_location_def path_hash_def by (simp del: take_Suc)
qed

lemma holders_held:
  assumes "index_rep nx ix H" "unambiguous H q" "k < length q" "\<And>w. [] \<notin> H w"
  shows "w \<in> set (holders nx ix q k) \<longleftrightarrow> take (k + 1) q \<in> H w"
proof -
  have "w \<in> set (holders nx ix q k) \<longleftrightarrow> (\<exists>p \<in> H w. block_location nx p = (k, q ! k, rolling nx q k))"
    using assms(1) by (simp add: holders_def index_rep_def)
  also have "\<dots> \<longleftrightarrow> take (k + 1) q \<in> H w"
  proof
    assume "\<exists>p \<in> H w. block_location nx p = (k, q ! k, rolling nx q k)"
    then obtain p where p: "p \<in> H w" "length p - 1 = k" "last p = q ! k" by (auto simp: block_location_def)
    have "p \<noteq> []" using p(1) assms(4) by blast
    then have "length p = k + 1" using p(2) by (cases p) simp_all
    then have "p = take (k + 1) q" using assms(2, 3) p(1, 3) unfolding unambiguous_def by blast
    with p(1) show "take (k + 1) q \<in> H w" by simp
  next
    assume "take (k + 1) q \<in> H w"
    then show "\<exists>p \<in> H w. block_location nx p = (k, q ! k, rolling nx q k)"
      using block_location_take [OF assms(3), of nx] by blast
  qed
  finally show ?thesis .
qed

lemma jump_size_run: "jump_size (kv_index (foldl (kv_step nx bh) s es)) = jump_size (kv_index s)"
proof (induction es arbitrary: s)
  case (Cons e es)
  have "jump_size (kv_index (kv_step nx bh s e)) = jump_size (kv_index s)"
    by (cases e) (auto simp: kv_update_def apply_stored_def apply_removed_def apply_cleared_def drain_blocks_def
        add_tree_size_def Let_def split: prod.splits option.splits sum.splits)
  with Cons show ?case by simp
qed simp

lemma held_searchable:
  assumes "index_rep nx ix H" "unambiguous H q" "prefix_closed H" "\<And>w. [] \<notin> H w"
  shows "searchable nx ix q"
  unfolding searchable_def
proof (intro conjI allI impI)
  note h = holders_held [OF assms(1, 2) _ assms(4)]
  have ok: "entry_ok e" if "ix k = Some e" for k e
    using assms(1) that unfolding index_rep_def entries_ok_def by blast
  show "unmixed nx ix q"
    unfolding unmixed_def
  proof (intro allI impI)
    fix k hs ws
    assume k: "k < length q" and e: "ix (k, q ! k) = Some (Single hs ws)"
    then obtain w where "w \<in> set ws" using ok [OF e] by (cases ws) auto
    then have "w \<in> set (entry_workers hs (ix (k, q ! k)))" using e by (simp add: entry_workers_def)
    then obtain p where p: "p \<in> H w" "block_location nx p = (k, q ! k, hs)"
      using assms(1) unfolding index_rep_def by blast
    have "p \<noteq> []" using p(1) assms(4) by blast
    then have "length p = k + 1" "last p = q ! k" using p(2) by (cases p; simp add: block_location_def)+
    then have "p = take (k + 1) q" using assms(2) k p(1) unfolding unambiguous_def by blast
    then show "hs = rolling nx q k" using p(2) block_location_take [OF k, of nx] by simp
  qed
  fix k
  show "distinct (holders nx ix q k)" if "k < length q"
  proof (cases "ix (k, q ! k)")
    case None
    then show ?thesis by (simp add: holders_def entry_workers_def)
  next
    case (Some e)
    with ok [OF Some] show ?thesis
      by (cases e; cases "entry_get (rolling nx q k) e") (auto simp: holders_def entry_workers_def split: if_splits)
  qed
  show "set (holders nx ix q (Suc k)) \<subseteq> set (holders nx ix q k)" if "Suc k < length q"
  proof
    fix w
    assume "w \<in> set (holders nx ix q (Suc k))"
    then have "take (Suc k) q @ [q ! Suc k] \<in> H w"
      using h [OF that, of w] that take_Suc_conv_app_nth [of "Suc k" q] by simp
    moreover have "take (Suc k) q \<noteq> []" using that by (cases q) simp_all
    ultimately have "take (Suc k) q \<in> H w" using assms(3) unfolding prefix_closed_def by blast
    then show "w \<in> set (holders nx ix q k)" using h [of k w] that by simp
  qed
qed

lemma depth_held:
  assumes "index_rep nx ix H" "unambiguous H q" "\<And>w. [] \<notin> H w"
  shows "depth nx ix q w = held_blocks H q w"
proof -
  have "takeWhile (\<lambda>i. w \<in> set (holders nx ix q i)) [0..<length q] = takeWhile (\<lambda>k. take (k + 1) q \<in> H w) [0..<length q]"
    using holders_held [OF assms(1, 2) _ assms(3)] by (intro takeWhile_cong) auto
  then show ?thesis by (simp only: depth_def held_blocks_def)
qed

text \<open>
  C28: The indexer scores exactly. After any sequence of store, remove and clear events of any
  workers, over paths on which the hashes have no collision, a query returns for each worker
  the number of leading blocks of the request that it holds, and the number of blocks that it
  holds in all; provided that the workers hold complete paths, which the documentation of the
  search asks for, and that no worker holds another path that ends, at a position of the
  request, in the block of the request.
\<close>

theorem cached_blocks_scored:
  assumes "indexer_new j = Some x" "collision_free nx bh P" "list_all (event_in P) es"
    "prefix_closed (foldl held_step (\<lambda>_. {}) es)" "unambiguous (foldl held_step (\<lambda>_. {}) es) q"
  shows "find_matches nx (kv_index (foldl (kv_step nx bh) (kv_start x) es)) q False
    = Some (held_scores (foldl held_step (\<lambda>_. {}) es) q)"
proof -
  let ?H = "foldl held_step (\<lambda>_. {}) es" and ?s = "foldl (kv_step nx bh) (kv_start x) es"
  let ?x = "kv_index ?s"
  have rep: "kv_rep nx bh P ?s ?H" by (rule kv_rep_run [OF assms(2) kv_rep_start [OF assms(1)] assms(3)])
  then have ix: "index_rep nx (index ?x) ?H" and ts: "\<And>w. tree_sizes ?x w = of_nat (card (?H w))"
    by (simp_all add: kv_rep_def)
  have ne: "\<And>w. [] \<notin> ?H w" using rep assms(2) by (auto simp: kv_rep_def collision_free_def)
  have "jump_size ?x = j" "j > 0"
    using assms(1) jump_size_run [of nx bh "kv_start x" es] by (auto simp: indexer_new_def kv_start_def split: if_splits)
  then have "find_matches nx ?x q False = Some (with_sizes ?x
     (\<lambda>w. if depth nx (index ?x) q w > 0 then Some (of_nat (depth nx (index ?x) q w)) else None))"
    using find_matches_searchable [OF held_searchable [OF ix assms(5, 4) ne]] by simp
  then show ?thesis
    unfolding depth_held [OF ix assms(5) ne] by (auto simp: with_sizes_def held_scores_def ts intro!: ext)
qed

definition two_blocks :: "kv_event list" where
  "two_blocks = [Stored 0 [] [1, 2]]"

lemma two_blocks_held: "foldl held_step (\<lambda>_. {}) two_blocks = (\<lambda>_. {})(0 := {[1], [1, 2]})"
  by (simp add: two_blocks_def)

theorem cached_blocks_scored_witness:
  "find_matches (\<lambda>a b. 31 * a + b) (kv_index (foldl (kv_step (\<lambda>a b. 31 * a + b) (\<lambda>p. of_nat (length p)))
      (kv_start indexer_default) two_blocks)) [1, 2, 3] False
    = Some (held_scores ((\<lambda>_. {})(0 := {[1], [1, 2]})) [1, 2, 3])"
proof -
  have new: "indexer_new 32 = Some indexer_default" by (simp add: indexer_new_def indexer_default_def)
  have c: "collision_free (\<lambda>a b. 31 * a + b) (\<lambda>p. of_nat (length p)) {[1], [1, 2]}"
    by (simp add: collision_free_def block_location_def)
  have e: "list_all (event_in {[1], [1, 2]}) two_blocks" by (simp add: two_blocks_def)
  have p: "prefix_closed (foldl held_step (\<lambda>_. {}) two_blocks)"
    unfolding two_blocks_held by (auto simp: prefix_closed_def append_eq_Cons_conv)
  have u: "unambiguous (foldl held_step (\<lambda>_. {}) two_blocks) [1, 2, 3]"
    unfolding two_blocks_held by (auto simp: unambiguous_def)
  from cached_blocks_scored [OF new c e p u] show ?thesis unfolding two_blocks_held .
qed

definition foreign_block :: "kv_event list" where
  "foreign_block = [Stored 0 [] [1], Stored 1 [] [5, 2]]"

text \<open>
  C29: A worker is credited with a block that it does not hold, whatever the hash functions:
  worker 0 holds the first block of the request only, worker 1 holds another request with the
  same second block, and the entry of that block, which has a single path, is used without a
  comparison of the rolling hash. The workers hold complete paths.
\<close>

theorem foreign_block_scored:
  "case find_matches nx (kv_index (foldl (kv_step nx bh) (kv_start indexer_default) foreign_block)) [1, 2] False of
     None \<Rightarrow> False
   | Some r \<Rightarrow> scores r 0 = Some 2 \<and> held_blocks (foldl held_step (\<lambda>_. {}) foreign_block) [1, 2] 0 = 1
       \<and> prefix_closed (foldl held_step (\<lambda>_. {}) foreign_block)"
proof -
  have H: "foldl held_step (\<lambda>_. {}) foreign_block = (\<lambda>_. {})(0 := {[1]}, 1 := {[5], [5, 2]})"
    by (simp add: foreign_block_def)
  have p: "prefix_closed ((\<lambda>_. {})(0 := {[1]}, 1 := {[5], [5, 2]}))"
    by (auto simp: prefix_closed_def append_eq_Cons_conv split: if_splits)
  have h: "held_blocks ((\<lambda>_. {})(0 := {[1]}, 1 := {[5], [5, 2]})) [1, 2] 0 = 1"
    by (simp add: held_blocks_def upt_rec)
  have ix: "index (kv_index (foldl (kv_step nx bh) (kv_start indexer_default) foreign_block)) =
     [(0, 1) \<mapsto> Single 1 [0], (0, 5) \<mapsto> Single 5 [1], (1, 2) \<mapsto> Single (nx 5 2) [1]]"
    "jump_size (kv_index (foldl (kv_step nx bh) (kv_start indexer_default) foreign_block)) = 32"
    by (simp_all add: foreign_block_def kv_start_def indexer_default_def kv_update_def apply_stored_def blocks_of_def Let_def
        next_prefix_def store_entry_def entry_new_def add_tree_size_def)
  show ?thesis
    unfolding H using p h ix
    by (simp add: find_matches_def jump_search_matches_def get_workers_lazy_def jump_loop.simps count_workers_at_def Let_def
        with_sizes_def record_all_def)
qed

end
