(* ===== verification/TokenTree.thy ===== *)
theory TokenTree
  imports Prelude "HOL-Library.AList" "HOL-Library.Sublist"
begin

unbundle bit_operations_syntax

text \<open>
  The token radix tree of cache-aware routing (\<open>crates/kv_index/src/token_tree.rs\<close>): which
  tenant holds which prefix of token sequences, in pages of 16 tokens. A node with its locks,
  atomics and concurrent maps is a value; the parent pointers are the positions in the tree,
  and a reference to a node is its path of page keys, the innermost first. The global
  timestamp counter is passed along. The operations are the sequential ones. The token count of a
  tenant is a natural number: the atomic counter of the code has 64 bits and would only wrap after
  \<open>2\<^sup>6\<^sup>4\<close> counted tokens.
\<close>

section \<open>Nodes\<close>

type_synonym token_id = u32
type_synonym tenant_id = string

definition PAGE_SIZE :: nat where
  "PAGE_SIZE = 16"

datatype eviction_policy = Lru | Lfu | Fifo | Mru | Filo | Priority

definition align_to_page :: "nat \<Rightarrow> nat" where
  "align_to_page n = (n div PAGE_SIZE) * PAGE_SIZE"

definition make_page_key :: "token_id list \<Rightarrow> token_id list" where
  "make_page_key ts = take PAGE_SIZE ts"

datatype node = Node
  (node_tokens: "token_id list")
  (children: "(token_id list \<times> node) list")
  (tenants: "(tenant_id \<times> u64) list")
  (last_tenant: "tenant_id option")
  (hit_count: u64)
  (creation_time: u64)
  (priority: i32)

definition node_new :: "token_id list \<Rightarrow> u64 \<Rightarrow> node" where
  "node_new ts now = Node ts [] [] None 0 now 0"

definition node_new_root :: node where
  "node_new_root = Node [] [] [] None 0 0 (- (2 ^ 31))"

definition has_tenant :: "tenant_id \<Rightarrow> node \<Rightarrow> bool" where
  "has_tenant t n \<longleftrightarrow> map_of (tenants n) t \<noteq> None"

definition is_empty :: "node \<Rightarrow> bool" where
  "is_empty n \<longleftrightarrow> tenants n = [] \<and> children n = []"

definition get_any_tenant :: "node \<Rightarrow> tenant_id option" where
  "get_any_tenant n = (case last_tenant n of
       Some t \<Rightarrow> if has_tenant t n then Some t else map_option fst (List.find (\<lambda>_. True) (tenants n))
     | None \<Rightarrow> map_option fst (List.find (\<lambda>_. True) (tenants n)))"

text \<open>\<open>touch_tenant\<close> with the timestamp it draws.\<close>

definition touch_tenant :: "tenant_id \<Rightarrow> bool \<Rightarrow> u64 \<Rightarrow> node \<Rightarrow> node" where
  "touch_tenant t track_lfu ts n =
     Node (node_tokens n) (children n) (AList.update t ts (tenants n))
       (if ts AND 15 = 0 then Some t else last_tenant n)
       (if track_lfu then hit_count n + 1 else hit_count n) (creation_time n) (priority n)"

definition set_tokens :: "token_id list \<Rightarrow> node \<Rightarrow> node" where
  "set_tokens ts n = Node ts (children n) (tenants n) (last_tenant n) (hit_count n) (creation_time n) (priority n)"

definition set_children :: "(token_id list \<times> node) list \<Rightarrow> node \<Rightarrow> node" where
  "set_children cs n = Node (node_tokens n) cs (tenants n) (last_tenant n) (hit_count n) (creation_time n) (priority n)"

definition set_tenants :: "(tenant_id \<times> u64) list \<Rightarrow> node \<Rightarrow> node" where
  "set_tenants ts n = Node (node_tokens n) (children n) ts (last_tenant n) (hit_count n) (creation_time n) (priority n)"

definition set_child :: "token_id list \<Rightarrow> node \<Rightarrow> node \<Rightarrow> node" where
  "set_child k c n = set_children (AList.update k c (children n)) n"

section \<open>Insertion\<close>

fun common_len :: "token_id list \<Rightarrow> token_id list \<Rightarrow> nat" where
  "common_len (x # xs) (y # ys) = (if x = y then Suc (common_len xs ys) else 0)"
| "common_len _ _ = 0"

text \<open>The intermediate node of a split: the first \<open>m\<close> tokens, over the child with the rest.\<close>

definition split_node :: "nat \<Rightarrow> node \<Rightarrow> node" where
  "split_node m c = Node (take m (node_tokens c))
     [(make_page_key (drop m (node_tokens c)), set_tokens (drop m (node_tokens c)) c)]
     (tenants c) (last_tenant c) (hit_count c) (creation_time c) (priority c)"

text \<open>The loop of \<open>insert_tokens\<close>: the new node, the tokens added, and the counter.\<close>

function insert_loop :: "tenant_id \<Rightarrow> bool \<Rightarrow> token_id list \<Rightarrow> node \<Rightarrow> u64 \<Rightarrow> node \<times> nat \<times> u64" where
  "insert_loop t lfu remaining cur ts =
     (if length remaining < PAGE_SIZE then (cur, 0, ts)
      else
        let key = make_page_key remaining in
        case map_of (children cur) key of
          None \<Rightarrow> (set_child key (touch_tenant t lfu (ts + 1) (node_new remaining ts)) cur, length remaining, ts + 2)
        | Some child \<Rightarrow>
            let common = align_to_page (common_len remaining (node_tokens child)) in
            if common = 0 then (cur, 0, ts)
            else if common = length (node_tokens child) then
              (case insert_loop t lfu (drop common remaining) (touch_tenant t lfu ts child) (ts + 1) of
                 (child', added, ts') \<Rightarrow> (set_child key child' cur, common + added, ts'))
            else if common \<ge> length remaining then
              let common = align_to_page (length remaining)
              in (set_child key (touch_tenant t lfu ts (split_node common child)) cur,
                  if has_tenant t child then 0 else common, ts + 1)
            else
              let inter = split_node common child;
                  new_remaining = drop common remaining;
                  common_tokens = (if has_tenant t child then 0 else common)
              in if length new_remaining \<ge> PAGE_SIZE then
                   (set_child key (touch_tenant t lfu (ts + 2)
                      (set_child (make_page_key new_remaining)
                         (touch_tenant t lfu (ts + 1) (node_new new_remaining ts)) inter)) cur,
                    length new_remaining + common_tokens, ts + 3)
                 else (set_child key (touch_tenant t lfu ts inter) cur, common_tokens, ts + 1))"
  by pat_completeness auto

termination
  by (relation "measure (\<lambda>(t, lfu, remaining, cur, ts). length remaining)") (auto simp: PAGE_SIZE_def)

declare insert_loop.simps [simp del]

record token_tree =
  root :: node
  tenant_token_count :: "(tenant_id \<times> nat) list"
  eviction_policy :: eviction_policy
  page_size :: nat

text \<open>Only a page size of 16 is accepted; the failure of the assertion is \<^term>\<open>None\<close>.\<close>

definition with_config :: "nat \<Rightarrow> eviction_policy \<Rightarrow> token_tree option" where
  "with_config ps policy = (if ps = PAGE_SIZE
     then Some \<lparr>root = node_new_root, tenant_token_count = [], eviction_policy = policy, page_size = ps\<rparr>
     else None)"

definition with_policy :: "eviction_policy \<Rightarrow> token_tree" where
  "with_policy policy = the (with_config PAGE_SIZE policy)"

definition token_tree_new :: token_tree where
  "token_tree_new = with_policy Lru"

definition or_insert :: "'k \<Rightarrow> 'v \<Rightarrow> ('k \<times> 'v) list \<Rightarrow> ('k \<times> 'v) list" where
  "or_insert k v m = (if map_of m k = None then AList.update k v m else m)"

definition count_of :: "tenant_id \<Rightarrow> (tenant_id \<times> nat) list \<Rightarrow> nat" where
  "count_of t m = (case map_of m t of Some n \<Rightarrow> n | None \<Rightarrow> 0)"

definition insert_tokens :: "token_id list \<Rightarrow> tenant_id \<Rightarrow> token_tree \<times> u64 \<Rightarrow> token_tree \<times> u64" where
  "insert_tokens tokens t s = (case s of (tr, ts) \<Rightarrow>
     let aligned = align_to_page (length tokens) in
     if aligned = 0 then (tr, ts)
     else
       let rt = set_tenants (or_insert t 0 (tenants (root tr))) (root tr);
           counts = or_insert t 0 (tenant_token_count tr)
       in case insert_loop t (eviction_policy tr = Lfu) (take aligned tokens) rt ts of
            (rt', added, ts') \<Rightarrow>
              (tr\<lparr>root := rt', tenant_token_count :=
                  (if added > 0 then AList.update t (count_of t counts + added) counts else counts)\<rparr>, ts'))"

section \<open>Matching\<close>

record prefix_match_result =
  match_tenant :: tenant_id
  matched_token_count :: nat
  input_token_count :: nat

text \<open>The loop of \<open>match_prefix_with_counts\<close>, which refreshes the tenants it meets.\<close>

function match_loop :: "bool \<Rightarrow> token_id list \<Rightarrow> node \<Rightarrow> u64 \<Rightarrow> nat \<Rightarrow> tenant_id option
    \<Rightarrow> node \<times> nat \<times> tenant_id option \<times> u64" where
  "match_loop lfu remaining cur ts matched lt =
     (if length remaining < PAGE_SIZE then (cur, matched, lt, ts)
      else
        let key = make_page_key remaining in
        case map_of (children cur) key of
          None \<Rightarrow> (cur, matched, lt, ts)
        | Some child \<Rightarrow>
            let match_len = align_to_page (common_len remaining (node_tokens child)) in
            if match_len = 0 then (cur, matched, lt, ts)
            else (case get_any_tenant child of
                None \<Rightarrow> (cur, matched, lt, ts)
              | Some t \<Rightarrow>
                  let child' = touch_tenant t lfu ts child in
                  if match_len < length (node_tokens child) then
                    (set_child key child' cur, matched + match_len, Some t, ts + 1)
                  else
                    (case match_loop lfu (drop match_len remaining) child' (ts + 1) (matched + match_len) (Some t) of
                       (child'', m, l, ts') \<Rightarrow> (set_child key child'' cur, m, l, ts'))))"
  by pat_completeness auto

termination
  by (relation "measure (\<lambda>(lfu, remaining, cur, ts, matched, lt). length remaining)") (auto simp: PAGE_SIZE_def)

declare match_loop.simps [simp del]

definition tenant_or_empty :: "tenant_id option \<Rightarrow> tenant_id" where
  "tenant_or_empty x = (case x of Some t \<Rightarrow> t | None \<Rightarrow> ''empty'')"

definition match_prefix_with_counts ::
    "token_id list \<Rightarrow> token_tree \<times> u64 \<Rightarrow> prefix_match_result \<times> token_tree \<times> u64" where
  "match_prefix_with_counts tokens s = (case s of (tr, ts) \<Rightarrow>
     let aligned = align_to_page (length tokens) in
     if aligned = 0 then
       (\<lparr>match_tenant = tenant_or_empty (get_any_tenant (root tr)), matched_token_count = 0,
         input_token_count = length tokens\<rparr>, tr, ts)
     else case match_loop (eviction_policy tr = Lfu) (take aligned tokens) (root tr) ts 0 None of
       (rt, m, l, ts') \<Rightarrow>
         (\<lparr>match_tenant = tenant_or_empty l, matched_token_count = m, input_token_count = length tokens\<rparr>,
          tr\<lparr>root := rt\<rparr>, ts'))"

definition prefix_match_legacy :: "token_id list \<Rightarrow> token_tree \<times> u64 \<Rightarrow> (token_id list \<times> tenant_id) \<times> token_tree \<times> u64" where
  "prefix_match_legacy tokens s = (case match_prefix_with_counts tokens s of
     (r, s') \<Rightarrow> ((take (matched_token_count r) tokens, match_tenant r), s'))"

definition prefix_match :: "token_id list \<Rightarrow> token_tree \<times> u64 \<Rightarrow> tenant_id option \<times> token_tree \<times> u64" where
  "prefix_match tokens s = (case match_prefix_with_counts tokens s of
     (r, s') \<Rightarrow> (if matched_token_count r > 0 then Some (match_tenant r) else None, s'))"

section \<open>Eviction\<close>

definition as_i64 :: "u64 \<Rightarrow> int" where
  "as_i64 w = sint (w :: i64)"

definition compute_eviction_priority :: "eviction_policy \<Rightarrow> node \<Rightarrow> u64 \<Rightarrow> int \<times> u64" where
  "compute_eviction_priority policy n ts = (case policy of
       Lru \<Rightarrow> (as_i64 ts, 0)
     | Lfu \<Rightarrow> (as_i64 (hit_count n), ts)
     | Fifo \<Rightarrow> (as_i64 (creation_time n), 0)
     | Mru \<Rightarrow> (as_i64 (- ts), 0)
     | Filo \<Rightarrow> (as_i64 (- creation_time n), 0)
     | Priority \<Rightarrow> (sint (priority n), ts))"

type_synonym node_path = "token_id list list"

text \<open>The node at a path, read from the outermost key, and its replacement.\<close>

fun node_at :: "token_id list list \<Rightarrow> node \<Rightarrow> node option" where
  "node_at [] n = Some n"
| "node_at (k # ks) n = (case map_of (children n) k of None \<Rightarrow> None | Some c \<Rightarrow> node_at ks c)"

fun update_at :: "token_id list list \<Rightarrow> (node \<Rightarrow> node) \<Rightarrow> node \<Rightarrow> node" where
  "update_at [] f n = f n"
| "update_at (k # ks) f n = (case map_of (children n) k of None \<Rightarrow> n | Some c \<Rightarrow> set_child k (update_at ks f c) n)"

fun collect_tenant_leaves :: "bool \<Rightarrow> tenant_id \<Rightarrow> node_path \<Rightarrow> node \<Rightarrow> (node_path \<times> u64) list"
  and collect_children :: "tenant_id \<Rightarrow> node_path \<Rightarrow> (token_id list \<times> node) list \<Rightarrow> (node_path \<times> u64) list" where
  "collect_tenant_leaves is_root t path (Node tk cs tn lt hc cr pr) =
     collect_children t path cs @
     (if \<not> is_root \<and> \<not> list_ex (\<lambda>(k, c). has_tenant t c) cs
      then (case map_of tn t of Some ts \<Rightarrow> [(path, ts)] | None \<Rightarrow> []) else [])"
| "collect_children t path [] = []"
| "collect_children t path ((k, c) # cs) = collect_tenant_leaves False t (k # path) c @ collect_children t path cs"

definition is_tenant_leaf :: "node \<Rightarrow> tenant_id \<Rightarrow> bool" where
  "is_tenant_leaf n t \<longleftrightarrow> has_tenant t n \<and> \<not> list_ex (\<lambda>(k, c). has_tenant t c) (children n)"

definition leaf_info :: "tenant_id \<Rightarrow> node_path \<Rightarrow> node \<Rightarrow> (node_path \<times> u64) option \<Rightarrow> (node_path \<times> u64) option" where
  "leaf_info t path rt info =
     (if info = None then
        (case node_at (rev path) rt of
           Some n \<Rightarrow> if is_tenant_leaf n t then map_option (\<lambda>ts. (path, ts)) (map_of (tenants n) t) else None
         | None \<Rightarrow> None)
      else info)"

definition remove_child :: "token_id list \<Rightarrow> node \<Rightarrow> node" where
  "remove_child k n = set_children (AList.delete k (children n)) n"

text \<open>The loop of \<open>cleanup_empty_ancestors_with_parent\<close>, from a node up to the root.\<close>

fun cleanup_empty_ancestors :: "tenant_id \<Rightarrow> node_path \<Rightarrow> node \<Rightarrow> (node_path \<times> u64) option \<Rightarrow> node \<times> (node_path \<times> u64) option" where
  "cleanup_empty_ancestors t [] rt info = (if is_empty rt then (rt, info) else (rt, leaf_info t [] rt info))"
| "cleanup_empty_ancestors t (k # path) rt info =
     (case node_at (rev (k # path)) rt of
        None \<Rightarrow> (rt, info)
      | Some n \<Rightarrow>
          if \<not> is_empty n then (rt, leaf_info t (k # path) rt info)
          else
            let rt = update_at (rev path) (remove_child k) rt
            in cleanup_empty_ancestors t path rt (leaf_info t path rt info))"

definition remove_tenant :: "tenant_id \<Rightarrow> node \<Rightarrow> node" where
  "remove_tenant t n = set_tenants (AList.delete t (tenants n)) n"

text \<open>A reference to a node that was unlinked finds no tenant in it any more.\<close>

definition remove_tenant_and_cleanup ::
    "tenant_id \<Rightarrow> node_path \<Rightarrow> node \<Rightarrow> node \<times> nat \<times> (node_path \<times> u64) option" where
  "remove_tenant_and_cleanup t path rt = (case node_at (rev path) rt of
       None \<Rightarrow> (rt, 0, None)
     | Some n \<Rightarrow>
         if \<not> has_tenant t n then (rt, 0, None)
         else (case cleanup_empty_ancestors t path (update_at (rev path) (remove_tenant t) rt) None of
                 (rt, info) \<Rightarrow> (rt, length (node_tokens n), info)))"

type_synonym heap_entry = "(int \<times> u64) \<times> nat"

definition entry_le :: "heap_entry \<Rightarrow> heap_entry \<Rightarrow> bool" where
  "entry_le a b = (case (a, b) of (((p, q), i), ((p', q'), i')) \<Rightarrow>
     p < p' \<or> (p = p' \<and> (q < q' \<or> (q = q' \<and> i \<le> i'))))"

definition heap_min :: "heap_entry list \<Rightarrow> heap_entry" where
  "heap_min h = foldl (\<lambda>m x. if entry_le m x then m else x) (hd h) (tl h)"

lemma heap_min_mem:
  assumes "h \<noteq> []"
  shows "heap_min h \<in> set h"
proof -
  have "foldl (\<lambda>m x. if entry_le m x then m else x) a xs \<in> insert a (set xs)" for a xs
  proof (induction xs arbitrary: a)
    case (Cons x xs)
    from Cons [of "if entry_le a x then a else x"] show ?case by (auto split: if_splits)
  qed simp
  from this [of "hd h" "tl h"] show ?thesis using assms unfolding heap_min_def by (cases h) auto
qed

text \<open>The loop of \<open>evict_tenant\<close>; \<open>leaf_data\<close> lists the nodes that the entries of the heap name.\<close>

function evict_loop :: "eviction_policy \<Rightarrow> tenant_id \<Rightarrow> nat \<Rightarrow> nat \<Rightarrow> heap_entry list \<Rightarrow> node_path list \<Rightarrow> node \<Rightarrow> node \<times> nat" where
  "evict_loop policy t to_evict evicted heap leaf_data rt =
     (if evicted < to_evict \<and> heap \<noteq> [] then
        let e = heap_min heap; heap' = remove1 e heap in
        case remove_tenant_and_cleanup t (leaf_data ! snd e) rt of (rt', n, info) \<Rightarrow>
          if n > 0 then
            (case info of
               None \<Rightarrow> evict_loop policy t to_evict (evicted + n) heap' leaf_data rt'
             | Some (path, ts) \<Rightarrow>
                 evict_loop policy t to_evict (evicted + n)
                   (heap' @ [(compute_eviction_priority policy (the (node_at (rev path) rt')) ts, length leaf_data)])
                   (leaf_data @ [path]) rt')
          else evict_loop policy t to_evict evicted heap' leaf_data rt'
      else (rt, evicted))"
  by pat_completeness auto

termination
proof (relation "measures [\<lambda>(policy, t, to_evict, evicted, heap, leaf_data, rt). to_evict - evicted,
    \<lambda>(policy, t, to_evict, evicted, heap, leaf_data, rt). length heap]", goal_cases)
  case (4 policy t to_evict evicted heap leaf_data rt)
  then show ?case using heap_min_mem [of heap] by (auto simp: length_remove1 intro!: diff_less)
qed (auto simp: heap_min_mem length_remove1)

declare evict_loop.simps [simp del]

definition evict_tenant :: "tenant_id \<Rightarrow> nat \<Rightarrow> token_tree \<Rightarrow> token_tree" where
  "evict_tenant t max_tokens tr =
     (let current = count_of t (tenant_token_count tr) in
      if current \<le> max_tokens then tr
      else
        let leaves = collect_tenant_leaves True t [] (root tr);
            leaf_data = map fst leaves;
            heap = map (\<lambda>(idx, (path, ts)).
              (compute_eviction_priority (eviction_policy tr) (the (node_at (rev path) (root tr))) ts, idx))
              (zip [0..<length leaves] leaves)
        in case evict_loop (eviction_policy tr) t (current - max_tokens) 0 heap leaf_data (root tr) of
             (rt, evicted) \<Rightarrow>
               tr\<lparr>root := rt, tenant_token_count :=
                 (case map_of (tenant_token_count tr) t of
                    Some n \<Rightarrow> AList.update t (n - evicted) (tenant_token_count tr)
                  | None \<Rightarrow> tenant_token_count tr)\<rparr>)"

definition tenant_token_size :: "tenant_id \<Rightarrow> token_tree \<Rightarrow> nat" where
  "tenant_token_size t tr = count_of t (tenant_token_count tr)"

definition get_tenant_token_counts :: "token_tree \<Rightarrow> tenant_id \<rightharpoonup> nat" where
  "get_tenant_token_counts tr = map_of (tenant_token_count tr)"

definition clear :: "token_tree \<Rightarrow> token_tree" where
  "clear tr = tr\<lparr>root := set_children [] (set_tenants [] (root tr)), tenant_token_count := []\<rparr>"

definition evict_tenant_by_size :: "nat \<Rightarrow> token_tree \<Rightarrow> token_tree" where
  "evict_tenant_by_size max_size tr =
     foldl (\<lambda>tr t. evict_tenant t max_size tr) tr
       (map fst (filter (\<lambda>(t, n). n > max_size) (tenant_token_count tr)))"

section \<open>What the tree records\<close>

definition aligned_prefixes :: "token_id list \<Rightarrow> token_id list set" where
  "aligned_prefixes ts = {p. p \<noteq> [] \<and> prefix p ts \<and> PAGE_SIZE dvd length p}"

text \<open>The prefixes that a node and its descendants record, each with its tenant.\<close>

fun covers :: "node \<Rightarrow> (token_id list \<times> tenant_id) set"
  and covers_list :: "(token_id list \<times> node) list \<Rightarrow> (token_id list \<times> tenant_id) set" where
  "covers (Node tk cs tn lt hc cr pr) =
     aligned_prefixes tk \<times> {t. map_of tn t \<noteq> None} \<union> (\<lambda>(p, t). (tk @ p, t)) ` covers_list cs"
| "covers_list [] = {}"
| "covers_list ((k, c) # cs) = covers c \<union> covers_list cs"

definition kids :: "node \<Rightarrow> (token_id list \<times> tenant_id) set" where
  "kids n = covers_list (children n)"

fun wf_node :: "node \<Rightarrow> bool" and wf_list :: "(token_id list \<times> node) list \<Rightarrow> bool" where
  "wf_node (Node tk cs tn lt hc cr pr) \<longleftrightarrow> tk \<noteq> [] \<and> PAGE_SIZE dvd length tk \<and> distinct (map fst cs) \<and> wf_list cs
     \<and> (\<forall>x \<in> set cs. \<forall>t. has_tenant t (snd x) \<longrightarrow> map_of tn t \<noteq> None)"
| "wf_list [] \<longleftrightarrow> True"
| "wf_list ((k, c) # cs) \<longleftrightarrow> wf_node c \<and> k = make_page_key (node_tokens c) \<and> wf_list cs"

definition wf_children :: "node \<Rightarrow> bool" where
  "wf_children n \<longleftrightarrow> distinct (map fst (children n)) \<and> wf_list (children n)"

definition closed_node :: "node \<Rightarrow> bool" where
  "closed_node n \<longleftrightarrow> (\<forall>x \<in> set (children n). \<forall>t. has_tenant t (snd x) \<longrightarrow> has_tenant t n)"

lemma covers_list_Un: "covers_list cs = (\<Union>x \<in> set cs. covers (snd x))"
  by (induction cs) auto

lemma wf_list_all: "wf_list cs \<longleftrightarrow> (\<forall>x \<in> set cs. wf_node (snd x) \<and> fst x = make_page_key (node_tokens (snd x)))"
  by (induction cs) auto

lemma covers_kids: "covers n = aligned_prefixes (node_tokens n) \<times> {t. has_tenant t n} \<union> (\<lambda>(p, t). (node_tokens n @ p, t)) ` kids n"
  by (cases n) (simp add: kids_def has_tenant_def)

lemma wf_node_iff: "wf_node n \<longleftrightarrow> node_tokens n \<noteq> [] \<and> PAGE_SIZE dvd length (node_tokens n) \<and> wf_children n \<and> closed_node n"
  by (cases n) (simp add: wf_children_def closed_node_def has_tenant_def)

lemma node_selectors [simp]:
  "node_tokens (touch_tenant t l ts n) = node_tokens n" "children (touch_tenant t l ts n) = children n"
  "node_tokens (set_child k c n) = node_tokens n" "tenants (set_child k c n) = tenants n"
  "node_tokens (set_tokens tk n) = tk" "children (set_tokens tk n) = children n" "tenants (set_tokens tk n) = tenants n"
  "children (set_tenants tn n) = children n" "tenants (set_tenants tn n) = tn" "node_tokens (set_tenants tn n) = node_tokens n"
  "children (set_child k c n) = AList.update k c (children n)"
  "node_tokens (set_children cs n) = node_tokens n" "tenants (set_children cs n) = tenants n" "children (set_children cs n) = cs"
  "node_tokens (node_new tk now) = tk" "children (node_new tk now) = []" "tenants (node_new tk now) = []"
  by (simp_all add: touch_tenant_def set_child_def set_tokens_def set_tenants_def set_children_def node_new_def)

lemma has_tenant_simps [simp]:
  "has_tenant s (touch_tenant t l ts n) \<longleftrightarrow> s = t \<or> has_tenant s n"
  "has_tenant s (set_child k c n) \<longleftrightarrow> has_tenant s n"
  "has_tenant s (set_tokens tk n) \<longleftrightarrow> has_tenant s n"
  "has_tenant s (set_children cs n) \<longleftrightarrow> has_tenant s n"
  "\<not> has_tenant s (node_new tk now)"
  by (auto simp: has_tenant_def touch_tenant_def update_conv')

lemma set_kids_update:
  "distinct (map fst cs) \<Longrightarrow> set (AList.update k c cs) = insert (k, c) {x \<in> set cs. fst x \<noteq> k}"
proof (induction cs)
  case (Cons a cs)
  show ?case
  proof (cases "fst a = k")
    case True
    then have "k \<notin> fst ` set cs" using Cons.prems by simp
    then have "\<forall>x \<in> set cs. fst x \<noteq> k" by (metis imageI)
    with True show ?thesis by (cases a) auto
  next
    case False
    with Cons show ?thesis by (cases a) auto
  qed
qed simp

lemma set_kids_delete: "set (AList.delete k cs) = {x \<in> set cs. fst x \<noteq> k}"
  by (auto simp: AList.delete_eq)

lemma kids_touch [simp]: "kids (touch_tenant t l ts n) = kids n"
  by (simp add: kids_def)

lemma covers_touch: "covers (touch_tenant t l ts n) = covers n \<union> aligned_prefixes (node_tokens n) \<times> {t}"
  by (auto simp: covers_kids)

lemma wf_touch: "wf_node n \<Longrightarrow> wf_node (touch_tenant t l ts n)"
  by (auto simp: wf_node_iff wf_children_def closed_node_def)

text \<open>The part of the children that a key does not reach.\<close>

definition other_kids :: "token_id list \<Rightarrow> node \<Rightarrow> (token_id list \<times> tenant_id) set" where
  "other_kids k n = (\<Union>x \<in> {x \<in> set (children n). fst x \<noteq> k}. covers (snd x))"

lemma kids_set_child:
  "wf_children n \<Longrightarrow> kids (set_child k c n) = covers c \<union> other_kids k n"
  by (auto simp: kids_def covers_list_Un wf_children_def set_kids_update other_kids_def)

lemma kids_split:
  assumes "wf_children n"
  shows "kids n = (case map_of (children n) k of Some c \<Rightarrow> covers c | None \<Rightarrow> {}) \<union> other_kids k n"
proof -
  have d: "distinct (map fst (children n))" using assms by (simp add: wf_children_def)
  show ?thesis
  proof (cases "map_of (children n) k")
    case None
    then have "{x \<in> set (children n). fst x \<noteq> k} = set (children n)" by (force simp: map_of_eq_None_iff)
    with None show ?thesis by (simp add: kids_def covers_list_Un other_kids_def)
  next
    case (Some c)
    then have m: "(k, c) \<in> set (children n)" by (rule map_of_SomeD)
    have u: "x = (k, c)" if "x \<in> set (children n)" "fst x = k" for x
      using eq_key_imp_eq_value [OF d m, of "snd x"] that by (cases x) simp
    define B where "B = {x \<in> set (children n). fst x \<noteq> k}"
    have "set (children n) = insert (k, c) B" 
    proof (intro set_eqI iffI)
      fix x
      assume "x \<in> set (children n)"
      then show "x \<in> insert (k, c) B" using u [of x] by (cases "fst x = k") (simp_all add: B_def)
    next
      fix x
      assume "x \<in> insert (k, c) B"
      then show "x \<in> set (children n)" using m unfolding B_def by blast
    qed
    then have "kids n = covers c \<union> (\<Union>x \<in> B. covers (snd x))" by (simp add: kids_def covers_list_Un)
    with Some show ?thesis by (simp add: other_kids_def B_def)
  qed
qed

lemma wf_set_child:
  assumes "wf_children n" "wf_node c" "k = make_page_key (node_tokens c)"
  shows "wf_children (set_child k c n)"
  using assms by (auto simp: wf_children_def wf_list_all distinct_update set_kids_update)

lemma wf_child:
  assumes "wf_children n" "map_of (children n) k = Some c"
  shows "wf_node c" "k = make_page_key (node_tokens c)"
  using assms map_of_SomeD [OF assms(2)] by (force simp: wf_children_def wf_list_all)+

section \<open>Common prefixes\<close>

lemma common_len_take: "take (common_len xs ys) xs = take (common_len xs ys) ys"
  by (induction xs ys rule: common_len.induct) auto

lemma common_len_le: "common_len xs ys \<le> length xs" "common_len xs ys \<le> length ys"
  by (induction xs ys rule: common_len.induct) auto

lemma common_len_max: "n \<le> length xs \<Longrightarrow> n \<le> length ys \<Longrightarrow> take n xs = take n ys \<Longrightarrow> n \<le> common_len xs ys"
proof (induction xs ys arbitrary: n rule: common_len.induct)
  case (1 x xs y ys)
  then show ?case by (cases n) auto
qed auto

lemma align_to_page_props:
  "align_to_page n \<le> n" "PAGE_SIZE dvd align_to_page n" "n < align_to_page n + PAGE_SIZE"
  "PAGE_SIZE dvd m \<Longrightarrow> m \<le> n \<Longrightarrow> m \<le> align_to_page n" "PAGE_SIZE dvd n \<Longrightarrow> align_to_page n = n"
proof -
  show "align_to_page n \<le> n" "PAGE_SIZE dvd align_to_page n" "PAGE_SIZE dvd n \<Longrightarrow> align_to_page n = n"
    by (simp_all add: align_to_page_def)
  show "n < align_to_page n + PAGE_SIZE" using div_mult_mod_eq [of n PAGE_SIZE] mod_less_divisor [of PAGE_SIZE n]
    unfolding align_to_page_def by (simp add: PAGE_SIZE_def)
  assume "PAGE_SIZE dvd m" "m \<le> n"
  then show "m \<le> align_to_page n" unfolding align_to_page_def by (metis div_le_mono dvd_div_mult_self mult_le_mono1)
qed

lemma aligned_prefixes_append:
  assumes "PAGE_SIZE dvd length a" "a \<noteq> []"
  shows "aligned_prefixes (a @ b) = aligned_prefixes a \<union> (\<lambda>p. a @ p) ` aligned_prefixes b"
proof (intro set_eqI iffI)
  fix p
  assume "p \<in> aligned_prefixes (a @ b)"
  then have p: "p \<noteq> []" "prefix p (a @ b)" "PAGE_SIZE dvd length p" by (simp_all add: aligned_prefixes_def)
  from p(2) consider "prefix p a" | p' where "p = a @ p'" "prefix p' b" "p' \<noteq> []"
    by (metis append_Nil2 prefix_append prefix_order.refl)
  then show "p \<in> aligned_prefixes a \<union> (\<lambda>p. a @ p) ` aligned_prefixes b"
  proof cases
    case 1
    with p show ?thesis by (simp add: aligned_prefixes_def)
  next
    case 2
    then have "PAGE_SIZE dvd length p'" using p(3) assms(1) by (simp add: dvd_add_right_iff)
    with 2 show ?thesis by (auto simp: aligned_prefixes_def)
  qed
next
  fix p
  assume "p \<in> aligned_prefixes a \<union> (\<lambda>p. a @ p) ` aligned_prefixes b"
  then show "p \<in> aligned_prefixes (a @ b)" using assms by (auto simp: aligned_prefixes_def prefix_prefix)
qed

lemma aligned_prefixes_Nil [simp]: "aligned_prefixes [] = {}"
  by (auto simp: aligned_prefixes_def)

section \<open>Effect of insertions\<close>

lemma aligned_prefixes_take:
  assumes "PAGE_SIZE dvd m" "0 < m" "m \<le> length ts"
  shows "aligned_prefixes ts = aligned_prefixes (take m ts) \<union> (\<lambda>p. take m ts @ p) ` aligned_prefixes (drop m ts)"
proof -
  have "PAGE_SIZE dvd length (take m ts)" "take m ts \<noteq> []" using assms by auto
  from aligned_prefixes_append [OF this, of "drop m ts"] show ?thesis by simp
qed

lemma covers_split:
  assumes "PAGE_SIZE dvd m" "0 < m" "m < length (node_tokens c)"
  shows "covers (split_node m c) = covers c"
proof -
  let ?a = "take m (node_tokens c)" and ?b = "drop m (node_tokens c)"
  have k: "kids (set_tokens ?b c) = kids c" by (simp add: kids_def)
  have t: "{t. has_tenant t (split_node m c)} = {t. has_tenant t c}" by (simp add: split_node_def has_tenant_def)
  have tk: "node_tokens (split_node m c) = ?a" by (simp add: split_node_def)
  have "kids (split_node m c) = covers (set_tokens ?b c)" by (simp add: kids_def split_node_def)
  also have "\<dots> = aligned_prefixes ?b \<times> {t. has_tenant t c} \<union> (\<lambda>(p, t). (?b @ p, t)) ` kids c"
    by (simp add: covers_kids k)
  finally have "covers (split_node m c) = aligned_prefixes ?a \<times> {t. has_tenant t c}
      \<union> (\<lambda>(p, t). (?a @ p, t)) ` (aligned_prefixes ?b \<times> {t. has_tenant t c} \<union> (\<lambda>(p, t). (?b @ p, t)) ` kids c)"
    by (simp add: covers_kids [of "split_node m c"] t tk)
  also have "\<dots> = (aligned_prefixes ?a \<union> (\<lambda>p. ?a @ p) ` aligned_prefixes ?b) \<times> {t. has_tenant t c}
      \<union> (\<lambda>(p, t). (node_tokens c @ p, t)) ` kids c"
  proof -
    have "(\<lambda>(p, t). (?a @ p, t)) ` (\<lambda>(p, t). (?b @ p, t)) ` kids c = (\<lambda>(p, t). (node_tokens c @ p, t)) ` kids c"
      by (simp add: image_image case_prod_beta flip: append_assoc)
    then show ?thesis by (auto simp: image_Un)
  qed
  also have "\<dots> = covers c"
    using aligned_prefixes_take [of m "node_tokens c"] assms by (simp add: covers_kids [of c])
  finally show ?thesis .
qed

lemma wf_split:
  assumes "wf_node c" "PAGE_SIZE dvd m" "0 < m" "m < length (node_tokens c)"
  shows "wf_node (split_node m c)"
proof -
  have "PAGE_SIZE dvd length (drop m (node_tokens c))" using assms by (simp add: wf_node_iff)
  then have "wf_node (set_tokens (drop m (node_tokens c)) c)"
    using assms by (simp add: wf_node_iff wf_children_def closed_node_def)
  then show ?thesis
    using assms by (auto simp: wf_node_iff wf_children_def closed_node_def split_node_def has_tenant_def)
qed

text \<open>What the page key of a child tells about the common prefix.\<close>

lemma common_with_child:
  assumes "wf_node c" "make_page_key remaining = make_page_key (node_tokens c)" "PAGE_SIZE \<le> length remaining"
    and m: "m = align_to_page (common_len remaining (node_tokens c))"
  shows "PAGE_SIZE dvd m" "0 < m" "m \<le> length remaining" "m \<le> length (node_tokens c)"
    "take m remaining = take m (node_tokens c)"
    "\<And>p. prefix p remaining \<Longrightarrow> prefix p (node_tokens c) \<Longrightarrow> PAGE_SIZE dvd length p \<Longrightarrow> length p \<le> m"
proof -
  let ?n = "common_len remaining (node_tokens c)"
  have ps: "0 < PAGE_SIZE" by (simp add: PAGE_SIZE_def)
  have len: "PAGE_SIZE \<le> length (node_tokens c)"
    using assms(1) by (auto simp: wf_node_iff dvd_imp_le)
  have "PAGE_SIZE \<le> ?n" using assms(2, 3) len by (intro common_len_max) (simp_all add: make_page_key_def)
  then have "PAGE_SIZE \<le> m" unfolding m by (intro align_to_page_props(4)) simp_all
  then show "0 < m" using ps by simp
  show "PAGE_SIZE dvd m" unfolding m by (rule align_to_page_props(2))
  have mn: "m \<le> ?n" unfolding m by (rule align_to_page_props(1))
  then show "m \<le> length remaining" "m \<le> length (node_tokens c)" using common_len_le [of remaining "node_tokens c"] by simp_all
  have "take m (take ?n remaining) = take m (take ?n (node_tokens c))" by (rule arg_cong [OF common_len_take])
  then show "take m remaining = take m (node_tokens c)" using mn by (simp add: min_absorb1)
  fix p
  assume p: "prefix p remaining" "prefix p (node_tokens c)" "PAGE_SIZE dvd length p"
  then have "take (length p) remaining = take (length p) (node_tokens c)" by (auto simp: prefix_def)
  then have "length p \<le> ?n" using p by (intro common_len_max) (simp_all add: prefix_length_le)
  then show "length p \<le> m" unfolding m using p(3) by (intro align_to_page_props(4))
qed

lemma covers_new: "covers (touch_tenant t l ts (node_new tk now)) = aligned_prefixes tk \<times> {t}"
  by (simp add: covers_touch) (simp add: covers_kids kids_def)

lemma wf_touched_new: "PAGE_SIZE dvd length tk \<Longrightarrow> tk \<noteq> [] \<Longrightarrow> wf_node (touch_tenant t l ts (node_new tk now))"
  by (simp add: wf_node_iff wf_children_def closed_node_def)

definition tenant_below :: "tenant_id \<Rightarrow> node \<Rightarrow> bool" where
  "tenant_below s n \<longleftrightarrow> (\<exists>x \<in> set (children n). has_tenant s (snd x))"

definition inserted :: "tenant_id \<Rightarrow> token_id list \<Rightarrow> node \<Rightarrow> node \<Rightarrow> bool" where
  "inserted t remaining cur cur' \<longleftrightarrow> wf_children cur' \<and> kids cur' = kids cur \<union> aligned_prefixes remaining \<times> {t}
     \<and> node_tokens cur' = node_tokens cur \<and> tenants cur' = tenants cur
     \<and> (\<forall>s. tenant_below s cur' \<longrightarrow> s = t \<or> tenant_below s cur)"

lemma tenant_below_touch [simp]: "tenant_below s (touch_tenant t l ts n) \<longleftrightarrow> tenant_below s n"
  by (simp add: tenant_below_def)

lemma closed_below: "closed_node n \<longleftrightarrow> (\<forall>s. tenant_below s n \<longrightarrow> has_tenant s n)"
  by (auto simp: closed_node_def tenant_below_def)

lemma inserted_child:
  assumes "wf_children cur" "wf_node c" "key = make_page_key (node_tokens c)"
    "covers c = (case map_of (children cur) key of Some c \<Rightarrow> covers c | None \<Rightarrow> {}) \<union> aligned_prefixes remaining \<times> {t}"
    "\<And>s. has_tenant s c \<Longrightarrow> s = t \<or> (\<exists>c. map_of (children cur) key = Some c \<and> has_tenant s c)"
  shows "inserted t remaining cur (set_child key c cur)"
  unfolding inserted_def
proof (intro conjI allI impI)
  show "wf_children (set_child key c cur)" by (rule wf_set_child [OF assms(1-3)])
  show "kids (set_child key c cur) = kids cur \<union> aligned_prefixes remaining \<times> {t}"
    unfolding kids_set_child [OF assms(1)] kids_split [OF assms(1), of key] assms(4) by blast
  fix s
  assume "tenant_below s (set_child key c cur)"
  then obtain x where x: "x \<in> set (children (set_child key c cur))" "has_tenant s (snd x)"
    unfolding tenant_below_def by blast
  have "x = (key, c) \<or> x \<in> set (children cur)"
    using x(1) assms(1) by (simp add: wf_children_def set_kids_update) blast
  with x(2) consider "has_tenant s c" | "tenant_below s cur"
    unfolding tenant_below_def by force
  then show "s = t \<or> tenant_below s cur"
  proof cases
    case 1
    from assms(5) [OF this] show ?thesis
    proof
      assume "\<exists>c. map_of (children cur) key = Some c \<and> has_tenant s c"
      then obtain c' where "(key, c') \<in> set (children cur)" "has_tenant s c'" using map_of_SomeD by fastforce
      then show ?thesis unfolding tenant_below_def by force
    qed simp
  qed simp
qed simp_all

lemma page_key_take: "PAGE_SIZE \<le> m \<Longrightarrow> make_page_key (take m ts) = make_page_key ts"
  by (simp add: make_page_key_def min_absorb1)

lemma tenant_split [simp]: "has_tenant s (split_node m c) \<longleftrightarrow> has_tenant s c" "node_tokens (split_node m c) = take m (node_tokens c)"
  by (simp_all add: split_node_def has_tenant_def)

lemma insert_loop_spec:
  "wf_children cur \<Longrightarrow> PAGE_SIZE dvd length remaining \<Longrightarrow> insert_loop t lfu remaining cur ts = (cur', added, ts') \<Longrightarrow>
     inserted t remaining cur cur'"
proof (induction t lfu remaining cur ts arbitrary: cur' added ts' rule: insert_loop.induct)
  case (1 t lfu remaining cur ts)
  have ps: "0 < PAGE_SIZE" by (simp add: PAGE_SIZE_def)
  let ?key = "make_page_key remaining"
  show ?case
  proof (cases "length remaining < PAGE_SIZE")
    case True
    then have "remaining = []" using 1(3) by (auto simp: dvd_imp_le dest!: nat_dvd_not_less [rotated])
    moreover have "cur' = cur" using True 1(4) by (simp add: insert_loop.simps [of t lfu remaining])
    ultimately show ?thesis using 1(2) by (simp add: inserted_def)
  next
    case long: False
    show ?thesis
    proof (cases "map_of (children cur) ?key")
      case None
      then have r: "cur' = set_child ?key (touch_tenant t lfu (ts + 1) (node_new remaining ts)) cur"
        using 1(4) long by (simp add: insert_loop.simps [of t lfu remaining] Let_def)
      have "remaining \<noteq> []" using long ps by auto
      then show ?thesis unfolding r
        using 1(2, 3) None by (intro inserted_child) (simp_all add: wf_touched_new covers_new)
    next
      case (Some child)
      note w = wf_child [OF 1(2) Some]
      define m where "m = align_to_page (common_len remaining (node_tokens child))"
      have len: "PAGE_SIZE \<le> length remaining" using long by simp
      note cm = common_with_child [OF w len m_def]
      have pm: "PAGE_SIZE \<le> m" using cm(1, 2) by (rule dvd_imp_le)
      have tk: "PAGE_SIZE dvd length (node_tokens child)" using w(1) by (simp add: wf_node_iff)
      show ?thesis
      proof (cases "m = length (node_tokens child)")
        case full: True
        obtain c' a' s' where rec: "insert_loop t lfu (drop m remaining) (touch_tenant t lfu ts child) (ts + 1) = (c', a', s')"
          by (metis prod_cases3)
        have r: "cur' = set_child ?key c' cur"
          using 1(4) long Some full cm(2) rec unfolding m_def [symmetric]
          by (simp add: insert_loop.simps [of t lfu remaining] Let_def m_def [symmetric])
        have wt: "wf_node (touch_tenant t lfu ts child)" by (rule wf_touch [OF w(1)])
        have al: "PAGE_SIZE dvd length (drop m remaining)" using 1(3) cm(1, 3) by (simp add: dvd_diff_nat)
        have ih: "inserted t (drop m remaining) (touch_tenant t lfu ts child) c'"
          using 1(1) [OF long refl Some m_def _ full _ al rec] cm(2) wt by (simp add: wf_node_iff m_def [symmetric])
        have app: "remaining = node_tokens child @ drop m remaining"
          using cm(5) full by (metis append_take_drop_id take_all order_refl)
        have ht: "has_tenant s c' \<longleftrightarrow> s = t \<or> has_tenant s child" for s
          using ih by (auto simp: inserted_def has_tenant_def touch_tenant_def update_conv')
        have tc: "node_tokens c' = node_tokens child" using ih by (simp add: inserted_def)
        have "closed_node c'"
          unfolding closed_below ht using ih w(1) by (auto simp: inserted_def wf_node_iff closed_below)
        then have wc: "wf_node c'" using ih w(1) tc by (simp add: wf_node_iff inserted_def)
        have kc: "kids c' = kids child \<union> aligned_prefixes (drop m remaining) \<times> {t}" using ih by (simp add: inserted_def)
        have ap: "aligned_prefixes remaining = aligned_prefixes (node_tokens child) \<union> (\<lambda>p. node_tokens child @ p) ` aligned_prefixes (drop m remaining)"
          using aligned_prefixes_append [OF tk, of "drop m remaining"] w(1) app by (simp add: wf_node_iff)
        have "covers c' = covers child \<union> aligned_prefixes remaining \<times> {t}"
          unfolding covers_kids [of c'] covers_kids [of child] ap kc tc ht by auto
        then show ?thesis unfolding r
          using 1(2) wc w(2) tc Some ht by (intro inserted_child) auto
      next
        case part: False
        then have lt: "m < length (node_tokens child)" using cm(4) by simp
        note ws = wf_split [OF w(1) cm(1, 2) lt] and cs = covers_split [OF cm(1, 2) lt]
        have key: "?key = make_page_key (take m (node_tokens child))" using w(2) pm by (simp add: page_key_take)
        show ?thesis
        proof (cases "length remaining \<le> m")
          case True
          then have eq: "m = length remaining" using cm(3) by simp
          have "align_to_page (length remaining) = m" using align_to_page_props(5) [OF 1(3)] eq by simp
          then have r: "cur' = set_child ?key (touch_tenant t lfu ts (split_node m child)) cur"
            using 1(4) long Some part True cm(2) by (simp add: insert_loop.simps [of t lfu remaining] Let_def m_def [symmetric])
          have "take m (node_tokens child) = remaining" using cm(5) eq by simp
          then show ?thesis unfolding r
            using 1(2) ws cs key Some by (intro inserted_child) (auto simp: wf_touch covers_touch)
        next
          case False
          let ?rest = "drop m remaining"
          let ?new = "touch_tenant t lfu (ts + 1) (node_new ?rest ts)"
          have al: "PAGE_SIZE dvd length ?rest" using 1(3) cm(1) by (simp add: dvd_diff_nat)
          have rl: "PAGE_SIZE \<le> length ?rest" using al False by (intro dvd_imp_le) simp_all
          then have rn: "?rest \<noteq> []" using ps by auto
          have r: "cur' = set_child ?key (touch_tenant t lfu (ts + 2) (set_child (make_page_key ?rest) ?new (split_node m child))) cur"
            using 1(4) long Some part False cm(2) rl by (simp add: insert_loop.simps [of t lfu remaining] Let_def m_def [symmetric])
          have diff: "make_page_key ?rest \<noteq> make_page_key (drop m (node_tokens child))"
          proof
            assume same: "make_page_key ?rest = make_page_key (drop m (node_tokens child))"
            have sl: "PAGE_SIZE \<le> length (drop m (node_tokens child))"
              using tk cm(1) lt by (intro dvd_imp_le) (simp_all add: dvd_diff_nat)
            have "take (m + PAGE_SIZE) remaining = take (m + PAGE_SIZE) (node_tokens child)"
              using same cm(5) by (simp add: take_add make_page_key_def)
            then have "prefix (take (m + PAGE_SIZE) remaining) (node_tokens child)" by (simp add: take_is_prefix)
            moreover have pl: "length (take (m + PAGE_SIZE) remaining) = m + PAGE_SIZE" using rl cm(3) by simp
            moreover have "PAGE_SIZE dvd m + PAGE_SIZE" using cm(1) by simp
            ultimately have "m + PAGE_SIZE \<le> m" using cm(6) [of "take (m + PAGE_SIZE) remaining"] take_is_prefix by metis
            then show False using ps by simp
          qed
          let ?inter = "set_child (make_page_key ?rest) ?new (split_node m child)"
          have ki: "kids ?inter = kids (split_node m child) \<union> aligned_prefixes ?rest \<times> {t}"
            and wi: "wf_children ?inter" and bi: "\<And>s. tenant_below s ?inter \<Longrightarrow> s = t \<or> tenant_below s (split_node m child)"
            using inserted_child [of "split_node m child" ?new "make_page_key ?rest" ?rest t] ws wf_touched_new [OF al rn] diff
            by (simp_all add: inserted_def covers_new wf_node_iff) (simp_all add: split_node_def)
          let ?c = "touch_tenant t lfu (ts + 2) ?inter"
          have wc: "wf_node ?c"
            using wi bi ws by (auto simp: wf_node_iff closed_below wf_children_def)
          have ap: "aligned_prefixes remaining = aligned_prefixes (take m remaining) \<union> (\<lambda>p. take m remaining @ p) ` aligned_prefixes ?rest"
            using aligned_prefixes_take [OF cm(1, 2, 3)] .
          have "covers ?inter = covers (split_node m child) \<union> ((\<lambda>p. take m remaining @ p) ` aligned_prefixes ?rest) \<times> {t}"
            unfolding covers_kids [of ?inter] covers_kids [of "split_node m child"] ki using cm(5) by auto
          then have "covers ?c = covers child \<union> aligned_prefixes remaining \<times> {t}"
            unfolding covers_touch ap cs using cm(5) by auto
          then show ?thesis unfolding r
            using 1(2) wc key Some by (intro inserted_child) auto
        qed
      qed
    qed
  qed
qed

section \<open>Effect of lookups\<close>

lemma get_any_tenant_spec:
  "get_any_tenant n = Some t \<Longrightarrow> has_tenant t n" "get_any_tenant n = None \<Longrightarrow> \<not> has_tenant s n"
  by (cases "tenants n"; auto simp: get_any_tenant_def has_tenant_def split: option.splits if_splits)+

lemma covers_key:
  assumes "wf_node c" "(p, s) \<in> covers c"
  shows "PAGE_SIZE \<le> length p" "make_page_key p = make_page_key (node_tokens c)"
proof -
  have tk: "PAGE_SIZE \<le> length (node_tokens c)" using assms(1) by (auto simp: wf_node_iff dvd_imp_le)
  from assms(2) consider "p \<in> aligned_prefixes (node_tokens c)" | p' where "p = node_tokens c @ p'"
    unfolding covers_kids by auto
  then have "PAGE_SIZE \<le> length p \<and> make_page_key p = make_page_key (node_tokens c)"
  proof cases
    case 1
    then have "PAGE_SIZE \<le> length p" by (auto simp: aligned_prefixes_def dvd_imp_le)
    with 1 show ?thesis by (auto simp: aligned_prefixes_def make_page_key_def prefix_def)
  next
    case 2
    with tk show ?thesis by (simp add: make_page_key_def)
  qed
  then show "PAGE_SIZE \<le> length p" "make_page_key p = make_page_key (node_tokens c)" by simp_all
qed

lemma kid_key:
  assumes "wf_children cur" "(p, s) \<in> kids cur" "prefix p remaining"
  shows "PAGE_SIZE \<le> length p \<and> (\<exists>c. map_of (children cur) (make_page_key remaining) = Some c \<and> (p, s) \<in> covers c)"
proof -
  obtain x where x: "x \<in> set (children cur)" "(p, s) \<in> covers (snd x)"
    using assms(2) unfolding kids_def covers_list_Un by blast
  have w: "wf_node (snd x)" "fst x = make_page_key (node_tokens (snd x))"
    using assms(1) x(1) by (auto simp: wf_children_def wf_list_all)
  note k = covers_key [OF w(1) x(2)]
  have "make_page_key remaining = fst x"
    using k w(2) assms(3) by (auto simp: make_page_key_def prefix_def)
  moreover have "map_of (children cur) (fst x) = Some (snd x)" using assms(1) x(1) by (simp add: wf_children_def)
  ultimately show ?thesis using k(1) x(2) by auto
qed

lemma covers_tenant: "wf_node n \<Longrightarrow> (p, s) \<in> covers n \<Longrightarrow> has_tenant s n"
  and covers_list_tenant: "wf_list cs \<Longrightarrow> (p, s) \<in> covers_list cs \<Longrightarrow> \<exists>x \<in> set cs. has_tenant s (snd x)"
proof (induction n and cs arbitrary: p and p rule: covers_covers_list.induct)
  case (1 tk cs tn lt hc cr pr)
  show ?case
  proof (cases "map_of tn s = None")
    case True
    then obtain q where "(q, s) \<in> covers_list cs" using 1(3) by auto
    then have "\<exists>x \<in> set cs. has_tenant s (snd x)" using 1(1) 1(2) by simp
    then obtain x where "x \<in> set cs" "has_tenant s (snd x)" by blast
    then have "map_of tn s \<noteq> None" using 1(2) by simp
    with True show ?thesis by simp
  qed (simp add: has_tenant_def)
next
  case (3 k c cs)
  then show ?case by auto
qed simp

definition kept :: "node \<Rightarrow> node \<Rightarrow> bool" where
  "kept n n' \<longleftrightarrow> wf_children n' \<and> kids n' = kids n \<and> node_tokens n' = node_tokens n
     \<and> (\<forall>s. has_tenant s n' \<longleftrightarrow> has_tenant s n) \<and> (\<forall>s. tenant_below s n' \<longleftrightarrow> tenant_below s n)"

lemma kept_refl: "wf_children n \<Longrightarrow> kept n n"
  by (simp add: kept_def)

lemma kept_wf: "kept c c' \<Longrightarrow> wf_node c \<Longrightarrow> wf_node c' \<and> covers c' = covers c"
  by (simp add: kept_def wf_node_iff closed_below covers_kids)

lemma kept_touch: "wf_node c \<Longrightarrow> has_tenant t c \<Longrightarrow> kept c (touch_tenant t l ts c)"
  by (auto simp: kept_def wf_node_iff wf_children_def)

lemma kept_trans: "kept a b \<Longrightarrow> kept b c \<Longrightarrow> kept a c"
  by (simp add: kept_def)

lemma kept_child:
  assumes "wf_children cur" "map_of (children cur) key = Some c" "kept c c'"
  shows "kept cur (set_child key c' cur)"
proof -
  note w = wf_child [OF assms(1, 2)]
  have k: "wf_node c'" "covers c' = covers c" "node_tokens c' = node_tokens c" "\<And>s. has_tenant s c' \<longleftrightarrow> has_tenant s c"
    using kept_wf [OF assms(3) w(1)] assms(3) by (simp_all add: kept_def)
  have "tenant_below s (set_child key c' cur) \<longleftrightarrow> tenant_below s cur" for s
  proof -
    have d: "distinct (map fst (children cur))" using assms(1) by (simp add: wf_children_def)
    have "tenant_below s (set_child key c' cur) \<longleftrightarrow> has_tenant s c \<or> (\<exists>x \<in> {x \<in> set (children cur). fst x \<noteq> key}. has_tenant s (snd x))"
      by (simp add: tenant_below_def set_kids_update [OF d] k(4))
    also have "\<dots> \<longleftrightarrow> tenant_below s cur"
    proof
      assume "has_tenant s c \<or> (\<exists>x \<in> {x \<in> set (children cur). fst x \<noteq> key}. has_tenant s (snd x))"
      then show "tenant_below s cur"
        using map_of_SomeD [OF assms(2)] unfolding tenant_below_def by force
    next
      assume "tenant_below s cur"
      then obtain x where x: "x \<in> set (children cur)" "has_tenant s (snd x)" unfolding tenant_below_def by blast
      show "has_tenant s c \<or> (\<exists>x \<in> {x \<in> set (children cur). fst x \<noteq> key}. has_tenant s (snd x))"
      proof (cases "fst x = key")
        case True
        then have "snd x = c" using eq_key_imp_eq_value [OF d, of key "snd x" c] x(1) map_of_SomeD [OF assms(2)] by (cases x) simp
        with x(2) show ?thesis by simp
      qed (use x in blast)
    qed
    finally show ?thesis .
  qed
  moreover have "kids (set_child key c' cur) = kids cur"
    using kids_set_child [OF assms(1), of key c'] kids_split [OF assms(1), of key] assms(2) k(2) by simp
  ultimately show ?thesis
    using wf_set_child [OF assms(1) k(1), of key] w(2) k(3) by (simp add: kept_def)
qed

definition longest :: "node \<Rightarrow> token_id list \<Rightarrow> nat \<Rightarrow> tenant_id option \<Rightarrow> tenant_id option \<Rightarrow> bool" where
  "longest cur remaining n lt l \<longleftrightarrow> n \<le> length remaining
     \<and> (if n = 0 then l = lt else (\<exists>t. l = Some t \<and> (take n remaining, t) \<in> kids cur))
     \<and> (\<forall>p s. (p, s) \<in> kids cur \<longrightarrow> prefix p remaining \<longrightarrow> length p \<le> n)"

lemma match_loop_spec:
  "wf_children cur \<Longrightarrow> PAGE_SIZE dvd length remaining \<Longrightarrow> match_loop lfu remaining cur ts matched lt = (cur', m', l', ts') \<Longrightarrow>
     kept cur cur' \<and> matched \<le> m' \<and> longest cur remaining (m' - matched) lt l'"
proof (induction lfu remaining cur ts matched lt arbitrary: cur' m' l' ts' rule: match_loop.induct)
  case (1 lfu remaining cur ts matched lt)
  note eqn = match_loop.simps [of lfu remaining]
  have kk: "\<exists>c. map_of (children cur) (make_page_key remaining) = Some c \<and> (p, s) \<in> covers c"
    if "(p, s) \<in> kids cur" "prefix p remaining" for p s using kid_key [OF 1(2) that] by blast
  have stop: ?case if "(cur', m', l', ts') = (cur, matched, lt, ts)" "\<And>p s. (p, s) \<in> kids cur \<Longrightarrow> prefix p remaining \<Longrightarrow> False"
    using that 1(2) by (auto simp: longest_def kept_refl)
  show ?case
  proof (cases "length remaining < PAGE_SIZE")
    case True
    have "(cur', m', l', ts') = (cur, matched, lt, ts)" using 1(4) True by (simp add: eqn)
    then show ?thesis
    proof (rule stop)
      fix p s
      assume "(p, s) \<in> kids cur" "prefix p remaining"
      with kid_key [OF 1(2) this] True show False using prefix_length_le [of p remaining] by simp
    qed
  next
    case long: False
    show ?thesis
    proof (cases "map_of (children cur) (make_page_key remaining)")
      case None
      have "(cur', m', l', ts') = (cur, matched, lt, ts)" using 1(4) long None by (simp add: eqn)
      then show ?thesis using kk None by (intro stop) auto
    next
      case (Some child)
      note w = wf_child [OF 1(2) Some]
      define m where "m = align_to_page (common_len remaining (node_tokens child))"
      have len: "PAGE_SIZE \<le> length remaining" using long by simp
      note cm = common_with_child [OF w len m_def]
      have kc: "(p, s) \<in> covers child" if "(p, s) \<in> kids cur" "prefix p remaining" for p s
        using kk [OF that] Some by simp
      have sub: "(p, s) \<in> kids cur" if "(p, s) \<in> covers child" for p s
        using kids_split [OF 1(2), of "make_page_key remaining"] Some that by simp
      show ?thesis
      proof (cases "get_any_tenant child")
        case None
        have "(cur', m', l', ts') = (cur, matched, lt, ts)"
          using 1(4) long Some None cm(2) by (simp add: eqn Let_def m_def [symmetric])
        then show ?thesis
          using kc covers_tenant [OF w(1)] get_any_tenant_spec(2) [OF None] by (intro stop) auto
      next
        case tn: (Some t)
        note ht = get_any_tenant_spec(1) [OF tn]
        let ?c = "touch_tenant t lfu ts child"
        note kt = kept_touch [OF w(1) ht, of lfu ts]
        have here: "(take m remaining, t) \<in> covers child"
          unfolding covers_kids cm(5) using cm(1, 2, 4) ht by (auto simp: aligned_prefixes_def take_is_prefix)
        show ?thesis
        proof (cases "m < length (node_tokens child)")
          case True
          then have r: "(cur', m', l', ts') = (set_child (make_page_key remaining) ?c cur, matched + m, Some t, ts + 1)"
            using 1(4) long Some tn cm(2) by (simp add: eqn Let_def m_def [symmetric])
          have "length p \<le> m" if "(p, s) \<in> kids cur" "prefix p remaining" for p s
          proof -
            have "(p, s) \<in> covers child" by (rule kc [OF that])
            then consider "p \<in> aligned_prefixes (node_tokens child)" | p' where "p = node_tokens child @ p'"
              unfolding covers_kids by auto
            then show ?thesis
            proof cases
              case 1
              with cm(6) [OF that(2)] show ?thesis by (simp add: aligned_prefixes_def)
            next
              case 2
              then have "prefix (node_tokens child) remaining" using that(2) append_prefixD by blast
              then have "length (node_tokens child) \<le> m" using cm(6) [of "node_tokens child"] w(1) by (simp add: wf_node_iff)
              with True show ?thesis by simp
            qed
          qed
          then show ?thesis
            using r kept_child [OF 1(2) Some kt] cm(2, 3) sub [OF here] by (simp add: longest_def)
        next
          case False
          then have full: "m = length (node_tokens child)" using cm(4) by simp
          obtain c'' m2 l2 t2 where rec: "match_loop lfu (drop m remaining) ?c (ts + 1) (matched + m) (Some t) = (c'', m2, l2, t2)"
            by (metis prod_cases4)
          have r: "(cur', m', l', ts') = (set_child (make_page_key remaining) c'' cur, m2, l2, t2)"
            using 1(4) long Some tn cm(2) False rec by (simp add: eqn Let_def m_def [symmetric])
          have al: "PAGE_SIZE dvd length (drop m remaining)" using 1(3) cm(1) by (simp add: dvd_diff_nat)
          have wt: "wf_children ?c" using kt by (simp add: kept_def)
          have ih: "kept ?c c'' \<and> matched + m \<le> m2 \<and> longest ?c (drop m remaining) (m2 - (matched + m)) (Some t) l2"
            using 1(1) [OF long refl Some m_def _ tn refl _ wt al rec] cm(2) False by (simp add: m_def [symmetric])
          have app: "remaining = node_tokens child @ drop m remaining"
            using cm(5) full by (metis append_take_drop_id take_all order_refl)
          let ?k = "m2 - (matched + m)"
          have best: "(take (m + ?k) remaining, the l2) \<in> covers child \<and> l2 \<noteq> None"
          proof (cases "?k = 0")
            case True
            with ih here show ?thesis by (auto simp: longest_def)
          next
            case False
            then obtain t' where t': "l2 = Some t'" "(take ?k (drop m remaining), t') \<in> kids child" using ih by (auto simp: longest_def)
            have "take (m + ?k) remaining = node_tokens child @ take ?k (drop m remaining)"
              using full cm(5) by (simp add: take_add)
            with t' show ?thesis unfolding covers_kids by force
          qed
          have max: "length p \<le> m + ?k" if "(p, s) \<in> kids cur" "prefix p remaining" for p s
          proof -
            have "(p, s) \<in> covers child" by (rule kc [OF that])
            then consider "p \<in> aligned_prefixes (node_tokens child)" | p' where "p = node_tokens child @ p'" "(p', s) \<in> kids child"
              unfolding covers_kids by auto
            then show ?thesis
            proof cases
              case 1
              with full show ?thesis by (simp add: aligned_prefixes_def prefix_length_le trans_le_add1)
            next
              case 2
              then have "prefix p' (drop m remaining)" using that(2) app by (metis same_prefix_prefix)
              with ih 2 full show ?thesis by (auto simp: longest_def)
            qed
          qed
          have "m2 - matched = m + ?k" "m + ?k \<le> length remaining" using ih cm(3) by (auto simp: longest_def)
          then show ?thesis
            using r kept_child [OF 1(2) Some kept_trans [OF kt]] ih best max sub cm(2) by (auto simp: longest_def)
        qed
      qed
    qed
  qed
qed

section \<open>Effect of evictions\<close>

definition tenant_at :: "tenant_id \<Rightarrow> token_id list list \<Rightarrow> node \<Rightarrow> bool" where
  "tenant_at s path n = (case node_at path n of Some m \<Rightarrow> has_tenant s m | None \<Rightarrow> False)"

text \<open>A node after removals for a tenant \<open>t\<close>: the other tenants keep what they have.\<close>

definition shrunk :: "tenant_id \<Rightarrow> node \<Rightarrow> node \<Rightarrow> bool" where
  "shrunk t n n' \<longleftrightarrow> wf_children n' \<and> node_tokens n' = node_tokens n
     \<and> (\<forall>s path. tenant_at s path n' \<longrightarrow> tenant_at s path n)
     \<and> (\<forall>s. s \<noteq> t \<longrightarrow> has_tenant s n \<longrightarrow> has_tenant s n')
     \<and> kids n' \<subseteq> kids n \<and> (\<forall>p s. s \<noteq> t \<longrightarrow> (p, s) \<in> kids n \<longrightarrow> (p, s) \<in> kids n')
     \<and> (closed_node n \<longrightarrow> closed_node n')"

lemma tenant_at_Nil [simp]: "tenant_at s [] n \<longleftrightarrow> has_tenant s n"
  by (simp add: tenant_at_def)

lemma tenant_at_Cons:
  "tenant_at s (k # path) n \<longleftrightarrow> (\<exists>c. map_of (children n) k = Some c \<and> tenant_at s path c)"
  by (auto simp: tenant_at_def split: option.splits)

lemma shrunk_has_tenant: "shrunk t n n' \<Longrightarrow> has_tenant s n' \<Longrightarrow> has_tenant s n"
  unfolding shrunk_def by (metis tenant_at_Nil)

lemma tenant_below_at:
  assumes "wf_children n"
  shows "tenant_below s n \<longleftrightarrow> (\<exists>k. tenant_at s [k] n)"
proof
  assume "tenant_below s n"
  then obtain x where x: "x \<in> set (children n)" "has_tenant s (snd x)" unfolding tenant_below_def by blast
  then have "map_of (children n) (fst x) = Some (snd x)" using assms by (simp add: wf_children_def)
  then show "\<exists>k. tenant_at s [k] n" using x(2) by (auto simp: tenant_at_Cons)
next
  assume "\<exists>k. tenant_at s [k] n"
  then obtain k c where "map_of (children n) k = Some c" "has_tenant s c" by (auto simp: tenant_at_Cons)
  then show "tenant_below s n" unfolding tenant_below_def by (force dest: map_of_SomeD)
qed

lemma shrunk_refl: "wf_children n \<Longrightarrow> shrunk t n n"
  by (simp add: shrunk_def)

lemma shrunk_trans:
  assumes "shrunk t a b" "shrunk t b c"
  shows "shrunk t a c"
  unfolding shrunk_def
proof (intro conjI allI impI)
  show "kids c \<subseteq> kids a" using assms unfolding shrunk_def by (meson order_trans)
qed (use assms in \<open>auto simp: shrunk_def\<close>)

lemma shrunk_wf_node: "shrunk t c c' \<Longrightarrow> wf_node c \<Longrightarrow> wf_node c'"
  by (simp add: shrunk_def wf_node_iff)

lemma shrunk_covers:
  assumes "shrunk t c c'"
  shows "covers c' \<subseteq> covers c" "s \<noteq> t \<Longrightarrow> (p, s) \<in> covers c \<Longrightarrow> (p, s) \<in> covers c'"
proof -
  have k: "kids c' \<subseteq> kids c" "node_tokens c' = node_tokens c" "\<And>s. has_tenant s c' \<Longrightarrow> has_tenant s c"
    using assms shrunk_has_tenant [OF assms] by (auto simp: shrunk_def)
  show "covers c' \<subseteq> covers c" unfolding covers_kids k(2) using k(1, 3) by blast
  assume s: "s \<noteq> t" and "(p, s) \<in> covers c"
  then consider "p \<in> aligned_prefixes (node_tokens c)" "has_tenant s c" | p' where "p = node_tokens c @ p'" "(p', s) \<in> kids c"
    unfolding covers_kids by auto
  then show "(p, s) \<in> covers c'"
  proof cases
    case 1
    then have "has_tenant s c'" using assms s unfolding shrunk_def by blast
    with 1(1) show ?thesis unfolding covers_kids k(2) by blast
  next
    case 2
    then have "(p', s) \<in> kids c'" using assms s unfolding shrunk_def by blast
    with 2(1) show ?thesis unfolding covers_kids k(2) by force
  qed
qed

lemma shrunk_closed:
  assumes "wf_children n" "wf_children n'" "\<And>s path. tenant_at s path n' \<Longrightarrow> tenant_at s path n"
    "\<And>s. tenant_below s n' \<Longrightarrow> has_tenant s n \<Longrightarrow> has_tenant s n'" "closed_node n"
  shows "closed_node n'"
  unfolding closed_below
proof (intro allI impI)
  fix s
  assume b: "tenant_below s n'"
  then obtain k where "tenant_at s [k] n'" using tenant_below_at [OF assms(2)] by blast
  then have "tenant_below s n" using tenant_below_at [OF assms(1)] assms(3) by blast
  then show "has_tenant s n'" using assms(4) [OF b] assms(5) unfolding closed_below by blast
qed

lemma shrunk_child:
  assumes "wf_children cur" "map_of (children cur) k = Some c" "shrunk t c c'"
  shows "shrunk t cur (set_child k c' cur)"
proof -
  note w = wf_child [OF assms(1, 2)]
  note cv = shrunk_covers [OF assms(3)]
  have wc: "wf_children (set_child k c' cur)"
    using wf_set_child [OF assms(1) shrunk_wf_node [OF assms(3) w(1)], of k] w(2) assms(3) by (simp add: shrunk_def)
  have at: "tenant_at s path cur" if "tenant_at s path (set_child k c' cur)" for s path
    using that assms(2, 3)
    by (cases path) (auto simp: tenant_at_Cons update_conv' shrunk_def split: if_splits)
  have ks: "kids (set_child k c' cur) = covers c' \<union> other_kids k cur" "kids cur = covers c \<union> other_kids k cur"
    using kids_set_child [OF assms(1)] kids_split [OF assms(1), of k] assms(2) by simp_all
  have cl: "closed_node cur \<Longrightarrow> closed_node (set_child k c' cur)"
    by (rule shrunk_closed [OF assms(1) wc at]) simp_all
  show ?thesis
    unfolding shrunk_def ks using wc at cv cl by auto
qed

lemma update_at_shrunk:
  "wf_children n \<Longrightarrow> node_at path n = Some m \<Longrightarrow> shrunk t m (f m) \<Longrightarrow> shrunk t n (update_at path f n)"
proof (induction path arbitrary: n)
  case (Cons k path)
  then obtain c where c: "map_of (children n) k = Some c" "node_at path c = Some m" by (auto split: option.splits)
  have "wf_children c" using wf_child(1) [OF Cons.prems(1) c(1)] by (simp add: wf_node_iff)
  from Cons.IH [OF this c(2) Cons.prems(3)] c(1) show ?case using shrunk_child [OF Cons.prems(1) c(1)] by simp
qed simp

lemma node_at_wf: "wf_children n \<Longrightarrow> node_at path n = Some m \<Longrightarrow> wf_children m"
proof (induction path arbitrary: n)
  case (Cons k path)
  then obtain c where c: "map_of (children n) k = Some c" "node_at path c = Some m" by (auto split: option.splits)
  have "wf_children c" using wf_child(1) [OF Cons.prems(1) c(1)] by (simp add: wf_node_iff)
  from Cons.IH [OF this c(2)] show ?case .
qed simp

lemma node_at_snoc: "node_at (path @ [k]) n = (case node_at path n of None \<Rightarrow> None | Some m \<Rightarrow> map_of (children m) k)"
  by (induction path arbitrary: n) (auto split: option.splits)

lemma remove_tenant_shrunk:
  assumes "wf_children n" "\<not> tenant_below t n"
  shows "shrunk t n (remove_tenant t n)"
proof -
  have h: "has_tenant s (remove_tenant t n) \<longleftrightarrow> s \<noteq> t \<and> has_tenant s n" for s
    by (auto simp: remove_tenant_def has_tenant_def delete_conv')
  have c: "children (remove_tenant t n) = children n" "node_tokens (remove_tenant t n) = node_tokens n"
    by (simp_all add: remove_tenant_def)
  have at: "tenant_at s path n" if "tenant_at s path (remove_tenant t n)" for s path
    using that by (cases path) (auto simp: tenant_at_Cons c h)
  have b: "tenant_below s (remove_tenant t n) \<longleftrightarrow> tenant_below s n" for s by (simp add: tenant_below_def c)
  have w: "wf_children (remove_tenant t n)" using assms(1) by (simp add: wf_children_def c)
  have "closed_node n \<Longrightarrow> closed_node (remove_tenant t n)"
    unfolding closed_below b h using assms(2) by auto
  then show ?thesis unfolding shrunk_def using w at h by (simp add: kids_def c)
qed

lemma remove_child_shrunk:
  assumes "wf_children n" "map_of (children n) k = Some c" "is_empty c"
  shows "shrunk t n (remove_child k n)"
proof -
  let ?n = "remove_child k n"
  have h: "has_tenant s ?n \<longleftrightarrow> has_tenant s n" for s by (simp add: remove_child_def)
  have c: "children ?n = AList.delete k (children n)" "node_tokens ?n = node_tokens n" by (simp_all add: remove_child_def)
  have w: "wf_children ?n" using assms(1) by (auto simp: wf_children_def wf_list_all c distinct_delete set_kids_delete)
  have at: "tenant_at s path n" if "tenant_at s path ?n" for s path
    using that by (cases path) (auto simp: tenant_at_Cons c h delete_conv' split: if_splits)
  have "covers c = {}" using assms(3) by (auto simp: covers_kids is_empty_def kids_def has_tenant_def)
  then have "kids n = other_kids k n" using kids_split [OF assms(1), of k] assms(2) by simp
  moreover have "kids ?n = other_kids k n" by (simp add: kids_def covers_list_Un c set_kids_delete other_kids_def)
  moreover have "closed_node n \<Longrightarrow> closed_node ?n" by (rule shrunk_closed [OF assms(1) w at]) (simp_all add: h)
  ultimately show ?thesis unfolding shrunk_def using w at h by (simp add: c)
qed

definition no_below :: "tenant_id \<Rightarrow> node_path \<Rightarrow> node \<Rightarrow> bool" where
  "no_below t path rt \<longleftrightarrow> (\<forall>k. \<not> tenant_at t (rev path @ [k]) rt)"

definition info_ok :: "tenant_id \<Rightarrow> (node_path \<times> u64) option \<Rightarrow> node \<Rightarrow> bool" where
  "info_ok t info rt = (case info of None \<Rightarrow> True | Some (path, ts) \<Rightarrow> no_below t path rt)"

lemma no_below_shrunk: "shrunk t a b \<Longrightarrow> no_below t path a \<Longrightarrow> no_below t path b"
  unfolding shrunk_def no_below_def by blast

lemma info_ok_shrunk: "shrunk t a b \<Longrightarrow> info_ok t info a \<Longrightarrow> info_ok t info b"
  by (auto simp: info_ok_def no_below_shrunk split: option.splits)

lemma shrunk_wf: "shrunk t a b \<Longrightarrow> wf_children b"
  by (simp add: shrunk_def)

lemma no_below_node:
  assumes "wf_children rt" "node_at (rev path) rt = Some n"
  shows "no_below t path rt \<longleftrightarrow> \<not> tenant_below t n"
proof -
  have "tenant_at t (rev path @ [k]) rt \<longleftrightarrow> tenant_at t [k] n" for k
    using assms(2) by (auto simp: tenant_at_def node_at_snoc split: option.splits)
  then show ?thesis using tenant_below_at [OF node_at_wf [OF assms]] by (simp add: no_below_def)
qed

lemma leaf_info_ok:
  assumes "wf_children rt" "info_ok t info rt"
  shows "info_ok t (leaf_info t path rt info) rt"
proof (cases "info = None \<and> (\<exists>n. node_at (rev path) rt = Some n \<and> is_tenant_leaf n t)")
  case True
  then obtain n where n: "node_at (rev path) rt = Some n" "is_tenant_leaf n t" by blast
  have "\<not> tenant_below t n" using n(2) by (auto simp: is_tenant_leaf_def tenant_below_def list_ex_iff)
  then have "no_below t path rt" using no_below_node [OF assms(1) n(1)] by simp
  then show ?thesis using True n by (auto simp: leaf_info_def info_ok_def split: option.splits)
next
  case False
  then show ?thesis using assms(2) by (auto simp: leaf_info_def info_ok_def split: option.splits)
qed

lemma cleanup_shrunk:
  "wf_children rt \<Longrightarrow> info_ok t info rt \<Longrightarrow> cleanup_empty_ancestors t path rt info = (rt', info') \<Longrightarrow>
     shrunk t rt rt' \<and> info_ok t info' rt'"
proof (induction path arbitrary: rt info)
  case Nil
  then show ?case using leaf_info_ok [OF Nil(1, 2), of "[]"] shrunk_refl [OF Nil(1), of t] by (auto split: if_splits)
next
  case (Cons k path)
  note start = shrunk_refl [OF Cons.prems(1), of t] Cons.prems(2) leaf_info_ok [OF Cons.prems(1, 2), of "k # path"]
  show ?case
  proof (cases "node_at (rev (k # path)) rt")
    case None
    with Cons.prems(3) start show ?thesis by simp
  next
    case (Some n)
    show ?thesis
    proof (cases "is_empty n")
      case False
      with Some Cons.prems(3) start show ?thesis by (auto simp del: rev.simps)
    next
      case True
      obtain m where m: "node_at (rev path) rt = Some m" "map_of (children m) k = Some n"
        using Some by (auto simp: node_at_snoc split: option.splits)
      let ?rt = "update_at (rev path) (remove_child k) rt"
      have s: "shrunk t rt ?rt"
        by (rule update_at_shrunk [OF Cons.prems(1) m(1)], rule remove_child_shrunk [OF node_at_wf [OF Cons.prems(1) m(1)] m(2) True])
      have i: "info_ok t (leaf_info t path ?rt info) ?rt"
        by (rule leaf_info_ok [OF shrunk_wf [OF s] info_ok_shrunk [OF s Cons.prems(2)]])
      have "cleanup_empty_ancestors t path ?rt (leaf_info t path ?rt info) = (rt', info')"
        using Cons.prems(3) Some True by (simp add: Let_def del: rev.simps)
      from Cons.IH [OF shrunk_wf [OF s] i this] show ?thesis using shrunk_trans [OF s] by blast
    qed
  qed
qed

lemma remove_cleanup_shrunk:
  assumes "wf_children rt" "no_below t path rt" "remove_tenant_and_cleanup t path rt = (rt', n, info)"
  shows "shrunk t rt rt' \<and> info_ok t info rt'"
proof (cases "node_at (rev path) rt")
  case None
  with assms(3) shrunk_refl [OF assms(1)] show ?thesis by (simp add: remove_tenant_and_cleanup_def info_ok_def)
next
  case (Some m)
  show ?thesis
  proof (cases "has_tenant t m")
    case False
    with Some assms(3) shrunk_refl [OF assms(1)] show ?thesis by (simp add: remove_tenant_and_cleanup_def info_ok_def)
  next
    case True
    let ?rt = "update_at (rev path) (remove_tenant t) rt"
    have "\<not> tenant_below t m" using no_below_node [OF assms(1) Some] assms(2) by simp
    then have s: "shrunk t rt ?rt"
      by (intro update_at_shrunk [OF assms(1) Some] remove_tenant_shrunk [OF node_at_wf [OF assms(1) Some]])
    have "cleanup_empty_ancestors t path ?rt None = (rt', info)"
      using assms(3) Some True by (auto simp: remove_tenant_and_cleanup_def split: prod.splits)
    then have "shrunk t ?rt rt' \<and> info_ok t info rt'"
      using cleanup_shrunk [OF shrunk_wf [OF s], of t None] by (simp add: info_ok_def)
    then show ?thesis using shrunk_trans [OF s] by blast
  qed
qed

lemma evict_loop_shrunk:
  "wf_children rt \<Longrightarrow> (\<forall>q \<in> set leaf_data. no_below t q rt) \<Longrightarrow> (\<forall>e \<in> set heap. snd e < length leaf_data) \<Longrightarrow>
     shrunk t rt (fst (evict_loop policy t to_evict evicted heap leaf_data rt))"
proof (induction policy t to_evict evicted heap leaf_data rt rule: evict_loop.induct)
  case (1 policy t to_evict evicted heap leaf_data rt)
  note eqn = evict_loop.simps [of policy t to_evict evicted heap leaf_data rt]
  show ?case
  proof (cases "evicted < to_evict \<and> heap \<noteq> []")
    case False
    then have "evict_loop policy t to_evict evicted heap leaf_data rt = (rt, evicted)" unfolding eqn by auto
    with shrunk_refl [OF 1(4)] show ?thesis by simp
  next
    case True
    define e where "e = heap_min heap"
    define h where "h = remove1 e heap"
    obtain rt' n info where r: "remove_tenant_and_cleanup t (leaf_data ! snd e) rt = (rt', n, info)" by (metis prod_cases3)
    have "e \<in> set heap" unfolding e_def using True by (simp add: heap_min_mem)
    then have "no_below t (leaf_data ! snd e) rt" using 1(5, 6) by (metis nth_mem)
    note s = remove_cleanup_shrunk [OF 1(4) this r]
    have w: "wf_children rt'" using s by (simp add: shrunk_def)
    have nb: "\<forall>q \<in> set leaf_data. no_below t q rt'" using s 1(5) no_below_shrunk by blast
    have hh: "\<forall>e \<in> set h. snd e < length leaf_data" using 1(6) unfolding h_def by (metis notin_set_remove1)
    show ?thesis
    proof (cases "n > 0")
      case False
      then have "evict_loop policy t to_evict evicted heap leaf_data rt = evict_loop policy t to_evict evicted h leaf_data rt'"
        unfolding eqn using True r by (simp add: Let_def e_def [symmetric] h_def [symmetric])
      moreover have "shrunk t rt' (fst (evict_loop policy t to_evict evicted h leaf_data rt'))"
        using 1(3) [OF True e_def h_def r [symmetric] refl False w nb hh] .
      ultimately show ?thesis using shrunk_trans s by metis
    next
      case pos: True
      show ?thesis
      proof (cases info)
        case None
        then have "evict_loop policy t to_evict evicted heap leaf_data rt = evict_loop policy t to_evict (evicted + n) h leaf_data rt'"
          unfolding eqn using True r pos by (simp add: Let_def e_def [symmetric] h_def [symmetric])
        moreover have "shrunk t rt' (fst (evict_loop policy t to_evict (evicted + n) h leaf_data rt'))"
          using 1(1) [OF True e_def h_def r [symmetric] refl pos None w nb hh] .
        ultimately show ?thesis using shrunk_trans s by metis
      next
        case (Some i)
        obtain q ts where i: "i = (q, ts)" by (cases i)
        let ?h = "h @ [(compute_eviction_priority policy (the (node_at (rev q) rt')) ts, length leaf_data)]"
        have "evict_loop policy t to_evict evicted heap leaf_data rt = evict_loop policy t to_evict (evicted + n) ?h (leaf_data @ [q]) rt'"
          unfolding eqn using True r pos Some i by (simp add: Let_def e_def [symmetric] h_def [symmetric])
        moreover have "shrunk t rt' (fst (evict_loop policy t to_evict (evicted + n) ?h (leaf_data @ [q]) rt'))"
        proof (rule 1(2) [OF True e_def h_def r [symmetric] refl pos Some i [symmetric] w])
          show "\<forall>q \<in> set (leaf_data @ [q]). no_below t q rt'" using nb s Some i by (simp add: info_ok_def)
          show "\<forall>e \<in> set ?h. snd e < length (leaf_data @ [q])" using hh by auto
        qed
        ultimately show ?thesis using shrunk_trans s by metis
      qed
    qed
  qed
qed

lemma collect_leaves_spec:
  "wf_children n \<Longrightarrow> (q, ts) \<in> set (collect_tenant_leaves ir t path n) \<Longrightarrow>
     \<exists>sfx m. q = rev sfx @ path \<and> node_at sfx n = Some m \<and> \<not> tenant_below t m"
  and collect_children_spec: "wf_list cs \<Longrightarrow> (q, ts) \<in> set (collect_children t' path' cs) \<Longrightarrow>
     \<exists>x sfx m. x \<in> set cs \<and> q = rev sfx @ fst x # path' \<and> node_at sfx (snd x) = Some m \<and> \<not> tenant_below t' m"
proof (induction ir t path n and t' path' cs rule: collect_tenant_leaves_collect_children.induct)
  case (1 ir t path tk cs tn lt hc cr pr)
  let ?n = "Node tk cs tn lt hc cr pr"
  have w: "distinct (map fst cs)" "wf_list cs" using 1(2) by (simp_all add: wf_children_def)
  show ?case
  proof (cases "(q, ts) \<in> set (collect_children t path cs)")
    case True
    from 1(1) [OF w(2) this] obtain x sfx m where x: "x \<in> set cs" "q = rev sfx @ fst x # path"
      "node_at sfx (snd x) = Some m" "\<not> tenant_below t m" by blast
    have "map_of cs (fst x) = Some (snd x)" using w(1) x(1) by simp
    then have "node_at (fst x # sfx) ?n = Some m" using x(3) by simp
    with x show ?thesis by - (rule exI [of _ "fst x # sfx"], rule exI [of _ m], simp)
  next
    case False
    let ?some = "list_ex (\<lambda>(k, c). has_tenant t c) cs"
    from False have e: "(q, ts) \<in> set (if \<not> ir \<and> \<not> ?some then (case map_of tn t of Some ts \<Rightarrow> [(path, ts)] | None \<Rightarrow> []) else [])"
      using 1(3) unfolding collect_tenant_leaves.simps set_append by blast
    have c: "\<not> ir \<and> \<not> ?some"
    proof (rule ccontr)
      assume n: "\<not> (\<not> ir \<and> \<not> ?some)"
      from e show False unfolding if_not_P [OF n] by simp
    qed
    then have "\<not> tenant_below t ?n" by (auto simp: tenant_below_def list_ex_iff)
    moreover have "q = rev [] @ path"
    proof (cases "map_of tn t")
      case None
      from e show ?thesis unfolding if_P [OF c] None option.case by simp
    next
      case (Some v)
      from e show ?thesis unfolding if_P [OF c] Some option.case by simp
    qed
    ultimately have "\<not> tenant_below t ?n" "q = rev [] @ path" .
    then show ?thesis by - (rule exI [of _ "[]"], rule exI [of _ ?n], simp)
  qed
next
  case (3 t path k c cs)
  have w: "wf_children c" "wf_list cs" using 3(3) by (simp_all add: wf_node_iff)
  show ?case
  proof (cases "(q, ts) \<in> set (collect_tenant_leaves False t (k # path) c)")
    case True
    from 3(1) [OF w(1) this] obtain sfx m where "q = rev sfx @ k # path" "node_at sfx c = Some m" "\<not> tenant_below t m" by blast
    then show ?thesis by - (rule exI [of _ "(k, c)"], rule exI [of _ sfx], rule exI [of _ m], simp)
  next
    case False
    then have "(q, ts) \<in> set (collect_children t path cs)" using 3(4) by simp
    from 3(2) [OF w(2) this] obtain x sfx m where "x \<in> set cs" "q = rev sfx @ fst x # path"
      "node_at sfx (snd x) = Some m" "\<not> tenant_below t m" by blast
    then show ?thesis by - (rule exI [of _ x], rule exI [of _ sfx], rule exI [of _ m], simp)
  qed
qed simp

lemma evict_tenant_shrunk:
  assumes "wf_children (root tr)"
  shows "shrunk t (root tr) (root (evict_tenant t max_tokens tr))"
proof (cases "count_of t (tenant_token_count tr) \<le> max_tokens")
  case True
  then show ?thesis using shrunk_refl [OF assms] by (simp add: evict_tenant_def)
next
  case False
  let ?leaves = "collect_tenant_leaves True t [] (root tr)"
  define heap where "heap = map (\<lambda>(idx, (path, ts)).
    (compute_eviction_priority (eviction_policy tr) (the (node_at (rev path) (root tr))) ts, idx)) (zip [0..<length ?leaves] ?leaves)"
  have nb: "\<forall>q \<in> set (map fst ?leaves). no_below t q (root tr)"
  proof
    fix q
    assume "q \<in> set (map fst ?leaves)"
    then obtain ts where "(q, ts) \<in> set ?leaves" by auto
    from collect_leaves_spec [OF assms this] obtain sfx m where
      "q = rev sfx" "node_at sfx (root tr) = Some m" "\<not> tenant_below t m" by auto
    then show "no_below t q (root tr)" using no_below_node [OF assms, of q m t] by simp
  qed
  have hp: "\<forall>e \<in> set heap. snd e < length (map fst ?leaves)"
    unfolding heap_def by (auto simp: set_zip)
  have "root (evict_tenant t max_tokens tr) = fst (evict_loop (eviction_policy tr) t
      (count_of t (tenant_token_count tr) - max_tokens) 0 heap (map fst ?leaves) (root tr))"
    using False unfolding evict_tenant_def heap_def Let_def by (simp split: prod.split)
  then show ?thesis using evict_loop_shrunk [OF assms nb hp] by simp
qed

section \<open>Runs\<close>

datatype tree_op =
    Insert "token_id list" tenant_id
  | Match "token_id list"
  | Evict tenant_id nat
  | EvictBySize nat
  | Clear

fun tree_step :: "token_tree \<times> u64 \<Rightarrow> tree_op \<Rightarrow> token_tree \<times> u64" where
  "tree_step s (Insert tokens t) = insert_tokens tokens t s"
| "tree_step s (Match tokens) = snd (match_prefix_with_counts tokens s)"
| "tree_step s (Evict t n) = (evict_tenant t n (fst s), snd s)"
| "tree_step s (EvictBySize n) = (evict_tenant_by_size n (fst s), snd s)"
| "tree_step s Clear = (clear (fst s), snd s)"

definition tree_ok :: "token_tree \<times> u64 \<Rightarrow> bool" where
  "tree_ok s \<longleftrightarrow> wf_children (root (fst s))"

text \<open>The prefixes that the tree records for the tenants.\<close>

definition recorded :: "token_tree \<times> u64 \<Rightarrow> (token_id list \<times> tenant_id) set" where
  "recorded s = kids (root (fst s))"

lemma aligned_prefixes_align: "aligned_prefixes (take (align_to_page (length ts)) ts) = aligned_prefixes ts"
proof -
  have "prefix p ts \<Longrightarrow> PAGE_SIZE dvd length p \<Longrightarrow> prefix p (take (align_to_page (length ts)) ts)" for p
    using align_to_page_props(4) [of "length p" "length ts"] prefix_length_le [of p ts]
    by (metis append_eq_conv_conj prefix_def take_is_prefix prefix_length_prefix length_take min.absorb2 align_to_page_props(1))
  then show ?thesis
    unfolding aligned_prefixes_def using take_is_prefix prefix_order.trans by blast
qed

lemma no_aligned_prefixes: "align_to_page (length ts) = 0 \<Longrightarrow> aligned_prefixes ts = {}"
  using aligned_prefixes_align [of ts] by simp

lemma aligned_take: "PAGE_SIZE dvd length (take (align_to_page (length ts)) ts)"
  using align_to_page_props(1, 2) [of "length ts"] by (simp add: min_absorb2)

lemma insert_tokens_spec:
  assumes "tree_ok s"
  shows "tree_ok (insert_tokens tokens t s)" "recorded (insert_tokens tokens t s) = recorded s \<union> aligned_prefixes tokens \<times> {t}"
proof -
  obtain tr ts where s: "s = (tr, ts)" by (cases s)
  let ?ts = "take (align_to_page (length tokens)) tokens"
  let ?rt = "set_tenants (or_insert t 0 (tenants (root tr))) (root tr)"
  have "tree_ok (insert_tokens tokens t s) \<and> recorded (insert_tokens tokens t s) = recorded s \<union> aligned_prefixes tokens \<times> {t}"
  proof (cases "align_to_page (length tokens) = 0")
    case True
    then have "insert_tokens tokens t s = s" by (simp add: insert_tokens_def s Let_def)
    then show ?thesis using assms no_aligned_prefixes [OF True] by simp
  next
    case False
    obtain rt' added ts' where r: "insert_loop t (eviction_policy tr = Lfu) ?ts ?rt ts = (rt', added, ts')" by (metis prod_cases3)
    have "wf_children ?rt" using assms by (simp add: tree_ok_def s wf_children_def)
    from insert_loop_spec [OF this aligned_take r] have i: "inserted t ?ts ?rt rt'" .
    have k: "kids ?rt = kids (root tr)" by (simp add: kids_def)
    have "root (fst (insert_tokens tokens t s)) = rt'" using False r by (simp add: insert_tokens_def s Let_def)
    then show ?thesis using i k aligned_prefixes_align [of tokens] by (simp add: tree_ok_def recorded_def inserted_def s)
  qed
  then show "tree_ok (insert_tokens tokens t s)" "recorded (insert_tokens tokens t s) = recorded s \<union> aligned_prefixes tokens \<times> {t}"
    by simp_all
qed

definition best_match :: "(token_id list \<times> tenant_id) set \<Rightarrow> token_id list \<Rightarrow> prefix_match_result \<Rightarrow> bool" where
  "best_match R tokens r \<longleftrightarrow> input_token_count r = length tokens \<and> matched_token_count r \<le> length tokens
     \<and> (matched_token_count r > 0 \<longrightarrow> (take (matched_token_count r) tokens, match_tenant r) \<in> R)
     \<and> (\<forall>p t. (p, t) \<in> R \<longrightarrow> prefix p tokens \<longrightarrow> length p \<le> matched_token_count r)"

lemma recorded_aligned:
  assumes "wf_children n" "(p, s) \<in> kids n" 
  shows "p \<noteq> [] \<and> PAGE_SIZE dvd length p"
proof -
  have "wf_node m \<Longrightarrow> (p, s) \<in> covers m \<Longrightarrow> p \<noteq> [] \<and> PAGE_SIZE dvd length p"
    and b: "wf_list cs \<Longrightarrow> (p, s) \<in> covers_list cs \<Longrightarrow> p \<noteq> [] \<and> PAGE_SIZE dvd length p" for m cs p
  proof (induction m and cs arbitrary: p and p rule: covers_covers_list.induct)
    case (1 tk cs tn lt hc cr pr)
    then consider "p \<in> aligned_prefixes tk" | p' where "p = tk @ p'" "(p', s) \<in> covers_list cs" by auto
    then show ?case
    proof cases
      case 1
      then show ?thesis by (simp add: aligned_prefixes_def)
    next
      case 2
      with 1(1) [of p'] 1(2) show ?thesis by simp
    qed
  next
    case (3 k c cs)
    then show ?case by auto
  qed simp
  show ?thesis using b [of "children n" p] assms by (simp add: kids_def wf_children_def)
qed

lemma match_spec:
  assumes "tree_ok s" "match_prefix_with_counts tokens s = (r, s')"
  shows "tree_ok s'" "recorded s' = recorded s" "best_match (recorded s) tokens r"
proof -
  obtain tr ts where s: "s = (tr, ts)" by (cases s)
  let ?ts = "take (align_to_page (length tokens)) tokens"
  have w: "wf_children (root tr)" using assms(1) by (simp add: tree_ok_def s)
  have al: "p \<in> aligned_prefixes tokens" if "(p, u) \<in> recorded s" "prefix p tokens" for p u
    using recorded_aligned [OF w, of p u] that by (simp add: recorded_def s aligned_prefixes_def)
  have "tree_ok s' \<and> recorded s' = recorded s \<and> best_match (recorded s) tokens r"
  proof (cases "align_to_page (length tokens) = 0")
    case True
    then have "s' = s" "matched_token_count r = 0" "input_token_count r = length tokens"
      using assms(2) by (auto simp: match_prefix_with_counts_def s Let_def)
    then show ?thesis using assms(1) al no_aligned_prefixes [OF True] by (auto simp: best_match_def)
  next
    case False
    obtain rt m l ts' where q: "match_loop (eviction_policy tr = Lfu) ?ts (root tr) ts 0 None = (rt, m, l, ts')"
      by (metis prod_cases4)
    note sp = match_loop_spec [OF w aligned_take q]
    have r: "s' = (tr\<lparr>root := rt\<rparr>, ts')" "matched_token_count r = m" "input_token_count r = length tokens"
      "match_tenant r = tenant_or_empty l"
      using assms(2) False q by (auto simp: match_prefix_with_counts_def s Let_def)
    have le: "m \<le> align_to_page (length tokens)" "align_to_page (length tokens) \<le> length tokens"
      using sp align_to_page_props(1) [of "length tokens"] by (simp_all add: longest_def)
    have tk: "take m ?ts = take m tokens" using le(1) by (simp add: min_absorb1)
    have "length p \<le> m" if "(p, u) \<in> recorded s" "prefix p tokens" for p u
    proof -
      have "p \<in> aligned_prefixes ?ts" using al [OF that] by (simp only: aligned_prefixes_align)
      then show ?thesis using sp that(1) by (auto simp: longest_def recorded_def s aligned_prefixes_def)
    qed
    moreover have "m > 0 \<Longrightarrow> (take m tokens, tenant_or_empty l) \<in> recorded s"
      using sp tk by (auto simp: longest_def recorded_def s tenant_or_empty_def)
    ultimately show ?thesis
      using sp r le by (simp add: tree_ok_def recorded_def s kept_def best_match_def)
  qed
  then show "tree_ok s'" "recorded s' = recorded s" "best_match (recorded s) tokens r" by simp_all
qed

lemma evict_ok:
  assumes "wf_children (root tr)"
  shows "wf_children (root (evict_tenant t n tr))"
  using evict_tenant_shrunk [OF assms] by (simp add: shrunk_def)

lemma evict_by_size_ok: "wf_children (root tr) \<Longrightarrow> wf_children (root (evict_tenant_by_size n tr))"
proof -
  have "wf_children (root tr) \<Longrightarrow> wf_children (root (foldl (\<lambda>tr t. evict_tenant t n tr) tr xs))" for xs
    by (induction xs arbitrary: tr) (auto intro: evict_ok)
  then show "wf_children (root tr) \<Longrightarrow> wf_children (root (evict_tenant_by_size n tr))" by (simp add: evict_tenant_by_size_def)
qed

interpretation radix_tree: invariant_system tree_step tree_ok
proof
  fix s e
  assume ok: "tree_ok s"
  show "tree_ok (tree_step s e)"
  proof (cases e)
    case (Match tokens)
    then show ?thesis using match_spec(1) [OF ok, of tokens] by (cases "match_prefix_with_counts tokens s") simp
  qed (use ok insert_tokens_spec(1) [OF ok] evict_ok evict_by_size_ok in \<open>simp_all add: tree_ok_def clear_def wf_children_def\<close>)
qed

lemma tree_new_ok: "tree_ok (with_policy policy, ts)"
  by (simp add: tree_ok_def with_policy_def with_config_def node_new_root_def wf_children_def)

section \<open>Properties\<close>

definition tree_run :: "eviction_policy \<Rightarrow> u64 \<Rightarrow> tree_op list \<Rightarrow> token_tree \<times> u64" where
  "tree_run policy ts ops = foldl tree_step (with_policy policy, ts) ops"

lemma tree_run_ok: "tree_ok (tree_run policy ts ops)"
  unfolding tree_run_def by (rule radix_tree.inv_run [OF tree_new_ok])

text \<open>
  C30: After any sequence of insertions, lookups, evictions and resets a lookup finds the longest
  page-aligned prefix of the request that any tenant has recorded, returns a tenant that has
  recorded it, and changes none of the recorded prefixes.
\<close>

theorem prefix_match_longest:
  "case match_prefix_with_counts tokens (tree_run policy ts ops) of
     (r, s') \<Rightarrow> best_match (recorded (tree_run policy ts ops)) tokens r \<and> recorded s' = recorded (tree_run policy ts ops)"
  using match_spec [OF tree_run_ok, of tokens policy ts ops] by (auto split: prod.split)

text \<open>
  C31: An insertion records exactly the page-aligned prefixes of the sequence for the tenant, in
  addition to what was recorded before, and a lookup of the same sequence then matches all of
  its pages.
\<close>

theorem insert_then_match:
  "case insert_tokens tokens t (tree_run policy ts ops) of s \<Rightarrow>
     recorded s = recorded (tree_run policy ts ops) \<union> aligned_prefixes tokens \<times> {t}
     \<and> matched_token_count (fst (match_prefix_with_counts tokens s)) = align_to_page (length tokens)"
proof -
  let ?s = "insert_tokens tokens t (tree_run policy ts ops)" and ?n = "align_to_page (length tokens)"
  note i = insert_tokens_spec [OF tree_run_ok, of tokens t policy ts ops]
  obtain r s' where m: "match_prefix_with_counts tokens ?s = (r, s')" by (cases "match_prefix_with_counts tokens ?s")
  note b = match_spec(3) [OF i(1) m]
  have n: "?n \<le> length tokens" "PAGE_SIZE dvd ?n" by (rule align_to_page_props)+
  have "?n \<le> matched_token_count r"
  proof (cases "?n = 0")
    case False
    then have "take ?n tokens \<in> aligned_prefixes tokens"
      using n by (auto simp: aligned_prefixes_def take_is_prefix min_absorb2)
    then have "(take ?n tokens, t) \<in> recorded ?s" using i(2) by simp
    then have "length (take ?n tokens) \<le> matched_token_count r" using b take_is_prefix unfolding best_match_def by blast
    then show ?thesis using n(1) by simp
  qed simp
  moreover have "matched_token_count r \<le> ?n"
  proof (cases "matched_token_count r = 0")
    case False
    then have "(take (matched_token_count r) tokens, match_tenant r) \<in> recorded ?s" "matched_token_count r \<le> length tokens"
      using b by (simp_all add: best_match_def)
    then have "PAGE_SIZE dvd matched_token_count r"
      using recorded_aligned i(1) unfolding recorded_def tree_ok_def by (metis length_take min.absorb2)
    then show ?thesis using align_to_page_props(4) \<open>matched_token_count r \<le> length tokens\<close> by blast
  qed simp
  ultimately show ?thesis using i(2) m by simp
qed

text \<open>
  C32: Evicting a tenant, under each of the six policies, takes away prefixes of that tenant
  only: the prefixes of the other tenants are the same before and after, nothing is added, and
  later lookups are exact again, since the tree stays well formed.
\<close>

theorem eviction_spares_others:
  "case tree_step (tree_run policy ts ops) (Evict t n) of s \<Rightarrow>
     {x \<in> recorded s. snd x \<noteq> t} = {x \<in> recorded (tree_run policy ts ops). snd x \<noteq> t}
     \<and> recorded s \<subseteq> recorded (tree_run policy ts ops) \<and> tree_ok s"
proof -
  have w: "wf_children (root (fst (tree_run policy ts ops)))" using tree_run_ok by (simp add: tree_ok_def)
  note e = evict_tenant_shrunk [OF w, of t n]
  have "{x \<in> kids (root (evict_tenant t n (fst (tree_run policy ts ops)))). snd x \<noteq> t}
      = {x \<in> kids (root (fst (tree_run policy ts ops))). snd x \<noteq> t}"
    using e unfolding shrunk_def by force
  then show ?thesis using e by (simp add: recorded_def tree_ok_def shrunk_def)
qed

text \<open>
  C33: Inserting a sequence a second time counts all of its tokens again, although it records
  nothing new: the token count of the tenant is twice the number of tokens that it has in the
  tree.
\<close>

theorem reinsertion_counts_twice:
  "case insert_tokens tokens t (insert_tokens tokens t (with_policy policy, ts)) of s \<Rightarrow>
     tenant_token_size t (fst s) = 2 * align_to_page (length tokens)
     \<and> recorded s = aligned_prefixes tokens \<times> {t}"
proof -
  let ?s0 = "(with_policy policy, ts)" and ?n = "align_to_page (length tokens)"
  let ?ts = "take ?n tokens" and ?lfu = "policy = Lfu"
  have rec: "recorded (insert_tokens tokens t (insert_tokens tokens t ?s0)) = aligned_prefixes tokens \<times> {t}"
    using insert_tokens_spec [OF tree_new_ok [of policy ts], of tokens t]
      insert_tokens_spec(2) [of "insert_tokens tokens t ?s0" tokens t]
    by (simp add: recorded_def with_policy_def with_config_def node_new_root_def kids_def)
  have "tenant_token_size t (fst (insert_tokens tokens t (insert_tokens tokens t ?s0))) = 2 * ?n"
  proof (cases "?n = 0")
    case True
    then show ?thesis by (simp add: insert_tokens_def with_policy_def with_config_def tenant_token_size_def count_of_def)
  next
    case False
    have n: "?n \<le> length tokens" "PAGE_SIZE dvd ?n" by (rule align_to_page_props)+
    have len: "length ?ts = ?n" using n(1) by simp
    have ps: "\<not> ?n < PAGE_SIZE" using n(2) False by (auto dest: dvd_imp_le)
    let ?c = "touch_tenant t ?lfu (ts + 1) (node_new ?ts ts)"
    let ?r0 = "set_tenants [(t, 0)] node_new_root"
    have i1: "insert_loop t ?lfu ?ts ?r0 ts = (set_child (make_page_key ?ts) ?c ?r0, ?n, ts + 2)"
      using ps len by (simp add: insert_loop.simps [of t ?lfu ?ts] Let_def node_new_root_def set_tenants_def)
    let ?s1 = "insert_tokens tokens t ?s0"
    have s1: "?s1 = (\<lparr>root = set_child (make_page_key ?ts) ?c ?r0, tenant_token_count = [(t, ?n)], eviction_policy = policy, page_size = PAGE_SIZE\<rparr>, ts + 2)"
      using False i1 by (simp add: insert_tokens_def with_policy_def with_config_def Let_def or_insert_def node_new_root_def count_of_def)
    have cl: "common_len xs xs = length xs" for xs by (induction xs) simp_all
    let ?r1 = "set_child (make_page_key ?ts) ?c ?r0"
    have or: "set_tenants (or_insert t 0 (tenants ?r1)) ?r1 = ?r1"
      by (simp add: or_insert_def set_tenants_def set_child_def set_children_def)
    have "fst (snd (insert_loop t ?lfu ?ts ?r1 (ts + 2))) = ?n"
    proof -
      have e: "insert_loop t ?lfu (drop ?n ?ts) x y = (x, 0, y)" for x y
        by (simp add: insert_loop.simps [of t ?lfu] PAGE_SIZE_def)
      have "align_to_page (common_len ?ts ?ts) = ?n" using align_to_page_props(5) [OF n(2)] by (simp only: cl len)
      moreover have "map_of (children ?r1) (make_page_key ?ts) = Some ?c" by (simp add: update_conv')
      ultimately show ?thesis
        using ps False e by (simp only: insert_loop.simps [of t ?lfu ?ts] len Let_def node_selectors option.case if_False) simp
    qed
    then obtain rt' ts' where i2: "insert_loop t ?lfu ?ts ?r1 (ts + 2) = (rt', ?n, ts')" by (metis prod.collapse)
    show ?thesis
      using False i2 or unfolding s1
      by (simp add: insert_tokens_def Let_def or_insert_def count_of_def tenant_token_size_def)
  qed
  then show ?thesis using rec by simp
qed

definition page :: "token_id \<Rightarrow> token_id list" where
  "page x = replicate 16 x"

definition shared_leaf :: "token_tree \<times> u64" where
  "shared_leaf = insert_tokens (page 1 @ page 2) ''b'' (insert_tokens (page 1 @ page 2) ''a''
     (insert_tokens (page 1) ''a'' (token_tree_new, 0)))"

lemma node_at_update_at:
  "node_at q n = Some m \<Longrightarrow> node_at q (update_at q f n) = Some (f m)"
proof (induction q arbitrary: n)
  case (Cons k q)
  then obtain c where c: "map_of (children n) k = Some c" "node_at q c = Some m" by (auto split: option.splits)
  with Cons.IH [OF c(2)] show ?case by (simp add: set_child_def set_children_def update_conv')
qed simp

text \<open>A change below a node keeps its tokens and tenants.\<close>

lemma update_at_above:
  "strict_prefix q path \<Longrightarrow> node_at q n = Some m \<Longrightarrow>
     \<exists>m'. node_at q (update_at path f n) = Some m' \<and> tenants m' = tenants m \<and> node_tokens m' = node_tokens m"
proof (induction path arbitrary: q n)
  case (Cons k path)
  show ?case
  proof (cases q)
    case Nil
    then show ?thesis using Cons.prems(2) by (auto simp: set_child_def set_children_def split: option.splits)
  next
    case (Cons k' q')
    with Cons.prems have q: "k' = k" "strict_prefix q' path" by auto
    obtain c where c: "map_of (children n) k = Some c" "node_at q' c = Some m"
      using Cons.prems(2) Cons q(1) by (auto split: option.splits)
    from Cons.IH [OF q(2) c(2)] c(1) Cons q(1) show ?thesis
      by (simp add: set_child_def set_children_def update_conv')
  qed
qed simp

lemma shared_leaf_cleanup:
  assumes "node_at (rev path) rt = Some n" "has_tenant u n" "u \<noteq> t"
  shows "cleanup_empty_ancestors t path (update_at (rev path) (remove_tenant t) rt) None =
    (update_at (rev path) (remove_tenant t) rt, None)"
proof -
  let ?rt = "update_at (rev path) (remove_tenant t) rt"
  have n: "node_at (rev path) ?rt = Some (remove_tenant t n)" by (rule node_at_update_at [OF assms(1)])
  have "has_tenant u (remove_tenant t n)" "\<not> has_tenant t (remove_tenant t n)"
    using assms(2,3) by (simp_all add: has_tenant_def remove_tenant_def set_tenants_def delete_conv')
  then have "\<not> is_empty (remove_tenant t n)" "\<not> is_tenant_leaf (remove_tenant t n) t"
    by (auto simp: is_empty_def has_tenant_def is_tenant_leaf_def)
  with n show ?thesis by (cases path) (simp_all add: leaf_info_def del: rev.simps)
qed

lemma evict_single_leaf:
  assumes "node_at (rev path) rt = Some n" "has_tenant t n" "has_tenant u n" "u \<noteq> t"
    and "node_tokens n \<noteq> []" "0 < to_evict"
  shows "evict_loop policy t to_evict 0 [(p, 0)] [path] rt =
    (update_at (rev path) (remove_tenant t) rt, length (node_tokens n))"
proof -
  have r: "remove_tenant_and_cleanup t path rt =
      (update_at (rev path) (remove_tenant t) rt, length (node_tokens n), None)"
    using assms(1-4) by (simp add: remove_tenant_and_cleanup_def shared_leaf_cleanup)
  have m: "heap_min [(p, 0)] = (p, 0)" by (simp add: heap_min_def)
  show ?thesis
    using assms(5,6) by (subst evict_loop.simps) (simp add: m r, subst evict_loop.simps, simp)
qed

text \<open>
  C34: Eviction stops at a leaf that two tenants share. If a tenant has one leaf in the tree, whose node has
  another tenant too, then evicting the tenant takes that leaf from it and nothing else, however
  far the tenant is above the limit: the size of the tenant falls by the tokens of the leaf only, and
  every node above the leaf keeps the tenant. The parent, which has become a leaf of the tenant, is not made
  a candidate, because the cleanup looks at the parent of an emptied node only. The comment on
  \<open>evict_tenant\<close> says that it evicts entries to reduce the tenant to \<open>max_tokens\<close>.
\<close>

theorem eviction_stops_at_shared_leaf:
  assumes "collect_tenant_leaves True t [] (root tr) = [(path, ts)]"
    and "node_at (rev path) (root tr) = Some n" and "has_tenant t n" and "has_tenant u n" and "u \<noteq> t"
    and "node_tokens n \<noteq> []" and "max_tokens < tenant_token_size t tr"
  shows "root (evict_tenant t max_tokens tr) = update_at (rev path) (remove_tenant t) (root tr)
    \<and> tenant_token_size t (evict_tenant t max_tokens tr) = tenant_token_size t tr - length (node_tokens n)
    \<and> (\<forall>q m. strict_prefix q (rev path) \<and> node_at q (root tr) = Some m \<and> has_tenant t m \<longrightarrow>
        (\<exists>m'. node_at q (root (evict_tenant t max_tokens tr)) = Some m' \<and> has_tenant t m'
          \<and> node_tokens m' = node_tokens m))"
proof -
  obtain c where c: "map_of (tenant_token_count tr) t = Some c" "max_tokens < c"
    using assms(7) by (auto simp: tenant_token_size_def count_of_def split: option.splits)
  have ev: "evict_tenant t max_tokens tr = tr\<lparr>root := update_at (rev path) (remove_tenant t) (root tr),
      tenant_token_count := AList.update t (c - length (node_tokens n)) (tenant_token_count tr)\<rparr>"
    using assms(1,2) c evict_single_leaf [OF assms(2-6)]
    by (simp add: evict_tenant_def count_of_def Let_def)
  have "\<exists>m'. node_at q (root (evict_tenant t max_tokens tr)) = Some m' \<and> has_tenant t m' \<and> node_tokens m' = node_tokens m"
    if "strict_prefix q (rev path)" "node_at q (root tr) = Some m" "has_tenant t m" for q m
    using update_at_above [OF that(1,2), of "remove_tenant t"] that(3) by (auto simp: ev has_tenant_def)
  then show ?thesis using c by (simp add: ev tenant_token_size_def count_of_def update_conv')
qed

text \<open>
  Tenant \<open>a\<close> holds two pages and tenant \<open>b\<close> the same two; the eviction of all of \<open>a\<close> leaves its
  first page.
\<close>

lemma shared_leaf_state:
  "collect_tenant_leaves True ''a'' [] (root (fst shared_leaf)) = [([page 2, page 1], 4)]"
  "0 < tenant_token_size ''a'' (fst shared_leaf)"
  by code_simp+

lemma shared_leaf_nodes:
  "case node_at [page 1, page 2] (root (fst shared_leaf)) of
     Some n \<Rightarrow> has_tenant ''a'' n \<and> has_tenant ''b'' n \<and> node_tokens n \<noteq> [] | None \<Rightarrow> False"
  "case node_at [page 1] (root (fst shared_leaf)) of Some m \<Rightarrow> has_tenant ''a'' m | None \<Rightarrow> False"
  by code_simp+

theorem eviction_stops_at_shared_leaf_witness:
  "\<exists>m. node_at [page 1] (root (evict_tenant ''a'' 0 (fst shared_leaf))) = Some m \<and> has_tenant ''a'' m"
proof -
  obtain n where n: "node_at (rev [page 2, page 1]) (root (fst shared_leaf)) = Some n"
    "has_tenant ''a'' n" "has_tenant ''b'' n" "node_tokens n \<noteq> []"
    using shared_leaf_nodes(1) by (auto split: option.splits)
  obtain m where m: "node_at [page 1] (root (fst shared_leaf)) = Some m" "has_tenant ''a'' m"
    using shared_leaf_nodes(2) by (auto split: option.splits)
  have "strict_prefix [page 1] (rev [page 2, page 1])" by (simp add: strict_prefix_def)
  moreover note eviction_stops_at_shared_leaf [OF shared_leaf_state(1) n(1-3) _ n(4) shared_leaf_state(2)]
  ultimately show ?thesis using m by blast
qed

end
