(* ===== verification/BucketPolicy.thy ===== *)
theory BucketPolicy
  imports SelectionPolicies "HOL-Library.AList"
begin

text \<open>
  The bucket policy (\<open>model_gateway/src/policies/bucket.rs\<close>), which sends requests of similar
  length to the same prefill worker: the buckets of each model with their length ranges, the
  sliding window of recent requests, the periodic adjustment of the ranges, and the choice of a
  worker. Sizes are 64-bit words and wrap as in an optimised build. Identifiers, clock readings
  and random draws are arguments; a bucket behind its lock is a value.
\<close>

section \<open>Buckets\<close>

record boundary =
  b_url :: string
  b_range :: "usize \<times> usize"

definition boundary_new :: "string \<Rightarrow> usize \<times> usize \<Rightarrow> boundary" where
  "boundary_new u r = \<lparr>b_url = u, b_range = r\<rparr>"

record sequencer_request =
  sr_id :: string
  char_cnt :: usize
  sr_timestamp :: nat
  prefill_worker_url :: string

record bucket =
  l_max :: usize
  bucket_cnt :: usize
  prefill_worker_urls :: "string list"
  load_total :: usize
  period :: usize
  bucket_load :: usize
  boundary :: "boundary list"
  request_list :: "sequencer_request list"
  t_req_loads :: "(string \<times> usize) list"
  chars_per_url :: "(string \<times> usize) list"

definition bucket_new :: "usize \<Rightarrow> bucket" where
  "bucket_new p = \<lparr>l_max = 4096, bucket_cnt = 0, prefill_worker_urls = [], load_total = 0, period = p,
     bucket_load = 0, boundary = [], request_list = [], t_req_loads = [], chars_per_url = []\<rparr>"

definition initial_boundary :: "nat \<Rightarrow> usize \<Rightarrow> usize \<Rightarrow> nat \<Rightarrow> string \<Rightarrow> boundary" where
  "initial_boundary worker_cnt gap lmax i u =
     boundary_new u (of_nat i * gap, if i = worker_cnt - 1 then lmax else (of_nat i + 1) * gap - 1)"

definition init_urls :: "string list \<Rightarrow> bucket \<Rightarrow> bucket" where
  "init_urls urls b =
     (let worker_cnt = length urls;
          b = b\<lparr>bucket_cnt := of_nat worker_cnt, prefill_worker_urls := urls,
                chars_per_url := foldl (\<lambda>m u. AList.update u 0 m) [] urls\<rparr>
      in if worker_cnt = 0 then b\<lparr>boundary := []\<rparr>
         else
           let gap = l_max b div of_nat worker_cnt;
               b = b\<lparr>l_max := - 1\<rparr>
           in b\<lparr>boundary := map (\<lambda>(i, u). initial_boundary worker_cnt gap (l_max b) i u)
                   (zip [0..<worker_cnt] urls)\<rparr>)"

definition count_for :: "string \<Rightarrow> (string \<times> usize) list \<Rightarrow> usize" where
  "count_for u m = (case map_of m u of Some n \<Rightarrow> n | None \<Rightarrow> 0)"

definition request_expired :: "nat \<Rightarrow> duration \<Rightarrow> sequencer_request \<Rightarrow> bool" where
  "request_expired now window r \<longleftrightarrow> (if sr_timestamp r \<le> now then window < now - sr_timestamp r else True)"

text \<open>The loop that drops the expired requests, with the load it removes.\<close>

fun expire_loop :: "nat \<Rightarrow> duration \<Rightarrow> sequencer_request list \<Rightarrow> (string \<times> usize) list \<Rightarrow> (string \<times> usize) list \<Rightarrow> usize
    \<Rightarrow> sequencer_request list \<times> (string \<times> usize) list \<times> (string \<times> usize) list \<times> usize" where
  "expire_loop now window [] loads chars removed = ([], loads, chars, removed)"
| "expire_loop now window (r # rs) loads chars removed =
     (if \<not> request_expired now window r then (r # rs, loads, chars, removed)
      else expire_loop now window rs (AList.delete (sr_id r) loads)
             (case map_of chars (prefill_worker_url r) of
                Some n \<Rightarrow> AList.update (prefill_worker_url r) (saturating_sub n (char_cnt r)) chars
              | None \<Rightarrow> chars)
             (removed + char_cnt r))"

definition post_process_request :: "nat \<Rightarrow> string \<Rightarrow> usize \<Rightarrow> string \<Rightarrow> bucket \<Rightarrow> bucket" where
  "post_process_request now new_id cnt u b =
     (let chars = AList.update u (count_for u (chars_per_url b) + cnt) (chars_per_url b)
      in case expire_loop now (from_millis (period b)) (request_list b) (t_req_loads b) chars 0 of
           (reqs, loads, chars, removed) \<Rightarrow>
             b\<lparr>load_total := saturating_add (saturating_sub (load_total b) removed) cnt,
               t_req_loads := AList.update new_id cnt loads,
               request_list := reqs @ [\<lparr>sr_id = new_id, char_cnt = cnt, sr_timestamp = now, prefill_worker_url = u\<rparr>],
               chars_per_url := chars\<rparr>)"

text \<open>The binary search of \<open>find_boundary\<close>.\<close>

function find_loop :: "boundary list \<Rightarrow> usize \<Rightarrow> nat \<Rightarrow> nat \<Rightarrow> string option" where
  "find_loop bs c left right =
     (if left < right then
        let mid = left + (right - left) div 2;
            range = b_range (bs ! mid)
        in if c < fst range then find_loop bs c left mid
           else if c > snd range then find_loop bs c (mid + 1) right
           else Some (b_url (bs ! mid))
      else None)"
  by pat_completeness auto

termination
  by (relation "measure (\<lambda>(bs, c, left, right). right - left)") auto

declare find_loop.simps [simp del]

definition find_boundary :: "bucket \<Rightarrow> usize \<Rightarrow> string option" where
  "find_boundary b c = find_loop (boundary b) c 0 (length (boundary b))"

definition update_workers_cnt :: "bucket \<Rightarrow> bucket" where
  "update_workers_cnt b =
     (let urls = prefill_worker_urls b;
          current_urls = map fst (chars_per_url b);
          added = foldl (\<lambda>m u. AList.update u 0 m) (chars_per_url b)
                    (filter (\<lambda>u. u \<notin> set current_urls) (remdups urls));
          kept = foldl (\<lambda>m u. if map_of m u = Some 0 then AList.delete u m else m) added
                    (filter (\<lambda>u. u \<notin> set urls) current_urls)
      in b\<lparr>bucket_cnt := of_nat (length urls), chars_per_url := kept\<rparr>)"

text \<open>
  One pass of the inner loop of \<open>adjust_boundary\<close>: the load at which the target is reached, if
  any, and the loads that are left.
\<close>

fun scan_loads :: "usize \<Rightarrow> usize \<Rightarrow> usize list \<Rightarrow> usize option \<times> usize list" where
  "scan_loads target acc [] = (None, [])"
| "scan_loads target acc (l # ls) = (if acc + l \<ge> target then (Some l, ls) else scan_loads target (acc + l) ls)"

fun new_boundaries :: "usize \<Rightarrow> usize \<Rightarrow> usize list \<Rightarrow> string list \<Rightarrow> boundary list" where
  "new_boundaries target upper loads [] = []"
| "new_boundaries target upper loads (u # us) =
     (if loads = [] \<and> us = [] then [boundary_new u (upper, - 1)]
      else (case scan_loads target 0 loads of
          (Some l, rest) \<Rightarrow>
            if us = [] then [boundary_new u (upper, - 1)]
            else let real_load = upper + target in
              if l \<le> upper then boundary_new u (upper, real_load) # new_boundaries target (real_load + 1) rest us
              else boundary_new u (upper, l) # new_boundaries target (l + 1) rest us
        | (None, rest) \<Rightarrow>
            if us = [] then [boundary_new u (upper, - 1)]
            else boundary_new u (upper, upper + target) # new_boundaries target (upper + target + 1) rest us))"

definition adjust_boundary :: "bucket \<Rightarrow> bucket" where
  "adjust_boundary b =
     (if t_req_loads b = [] then b
      else
        let b = update_workers_cnt b in
        if bucket_cnt b = 0 then b
        else
          let new_load = load_total b div bucket_cnt b;
              old_load = bucket_load b
          in if new_load \<le> 2 * old_load \<and> old_load \<le> 2 * new_load \<and> old_load \<noteq> 0 then b
             else b\<lparr>bucket_load := new_load,
                    boundary := new_boundaries new_load 0 (sort (map snd (t_req_loads b))) (prefill_worker_urls b)\<rparr>)"

section \<open>The policy\<close>

record bucket_config =
  balance_abs_threshold :: usize
  balance_rel_threshold :: rat
  bucket_adjust_interval_secs :: usize

definition default_bucket_config :: bucket_config where
  "default_bucket_config = \<lparr>balance_abs_threshold = 32, balance_rel_threshold = 10001 / 10000,
     bucket_adjust_interval_secs = 5\<rparr>"

record bucket_policy =
  bp_config :: bucket_config
  buckets :: "(string \<times> bucket) list"

definition bp_with_config :: "bucket_config \<Rightarrow> bucket_policy" where
  "bp_with_config c = \<lparr>bp_config = c, buckets = []\<rparr>"

definition bp_new :: bucket_policy where
  "bp_new = bp_with_config default_bucket_config"

definition bucket_or_new :: "string \<Rightarrow> bucket_policy \<Rightarrow> bucket" where
  "bucket_or_new key p = (case map_of (buckets p) key of
       Some b \<Rightarrow> b | None \<Rightarrow> bucket_new (bucket_adjust_interval_secs (bp_config p) * 1000))"

definition put_bucket :: "string \<Rightarrow> bucket \<Rightarrow> bucket_policy \<Rightarrow> bucket_policy" where
  "put_bucket key b p = p\<lparr>buckets := AList.update key b (buckets p)\<rparr>"

definition init_prefill_worker_urls :: "worker_heap \<Rightarrow> nat list \<Rightarrow> bucket_policy \<Rightarrow> bucket_policy" where
  "init_prefill_worker_urls h workers p =
     foldl (\<lambda>p key. put_bucket key
              (init_urls (map (url h) (filter (\<lambda>w. normalize_model_key (model_id h w) = key) workers))
                 (bucket_or_new key p)) p)
       p (remdups (map (\<lambda>w. normalize_model_key (model_id h w)) workers))"

definition add_prefill_url :: "worker_heap \<Rightarrow> nat \<Rightarrow> bucket_policy \<Rightarrow> bucket_policy" where
  "add_prefill_url h w p =
     (let key = normalize_model_key (model_id h w);
          b = bucket_or_new key p
      in if url h w \<in> set (prefill_worker_urls b) then put_bucket key b p
         else
           let urls = prefill_worker_urls b @ [url h w];
               chars = (if map_of (chars_per_url b) (url h w) = None
                        then AList.update (url h w) 0 (chars_per_url b) else chars_per_url b)
           in put_bucket key (init_urls urls (b\<lparr>prefill_worker_urls := urls, chars_per_url := chars\<rparr>)) p)"

definition remove_prefill_url :: "worker_heap \<Rightarrow> nat \<Rightarrow> bucket_policy \<Rightarrow> bucket_policy" where
  "remove_prefill_url h w p =
     (let key = normalize_model_key (model_id h w) in
      case map_of (buckets p) key of
        None \<Rightarrow> p
      | Some b \<Rightarrow>
          let urls = filter (\<lambda>u. u \<noteq> url h w) (prefill_worker_urls b);
              b = b\<lparr>prefill_worker_urls := urls, chars_per_url := AList.delete (url h w) (chars_per_url b),
                    bucket_cnt := of_nat (length urls)\<rparr>
          in put_bucket key (init_urls urls b) p)"

text \<open>One round of the adjustment thread.\<close>

definition adjust_all :: "bucket_policy \<Rightarrow> bucket_policy" where
  "adjust_all p = p\<lparr>buckets := map (\<lambda>(key, b). (key, adjust_boundary b)) (buckets p)\<rparr>"

definition max_of :: "usize list \<Rightarrow> usize" where
  "max_of xs = foldl max 0 xs"

definition min_of :: "usize list \<Rightarrow> usize" where
  "min_of xs = (case min_by_key (\<lambda>x. x) xs of Some x \<Rightarrow> x | None \<Rightarrow> 0)"

definition is_imbalanced :: "(rat \<Rightarrow> rat) \<Rightarrow> bucket_config \<Rightarrow> usize list \<Rightarrow> bool" where
  "is_imbalanced rnd c loads =
     (let max_load = max_of loads;
          min_load = min_of loads;
          abs_diff = saturating_sub max_load min_load;
          rel_threshold = rnd (balance_rel_threshold c * rnd (of_nat (unat min_load)))
      in balance_abs_threshold c < abs_diff \<and> rel_threshold < rnd (of_nat (unat max_load)))"

text \<open>The URL that a bucket gives for a request; \<open>fallback\<close> is the URL of a random healthy worker.\<close>

definition choose_url :: "(rat \<Rightarrow> rat) \<Rightarrow> bucket_config \<Rightarrow> bucket \<Rightarrow> usize \<Rightarrow> string \<Rightarrow> string" where
  "choose_url rnd c b cnt fallback =
     (if is_imbalanced rnd c (map snd (chars_per_url b)) then
        (case min_by_key snd (chars_per_url b) of Some (u, n) \<Rightarrow> u | None \<Rightarrow> fallback)
      else (case find_boundary b cnt of
          Some u \<Rightarrow> if u \<noteq> [] then u else fallback
        | None \<Rightarrow> fallback))"

text \<open>
  \<open>select_worker\<close>: the rounding, the draw, the clock and the identifier of the request, and the
  number of characters of its text.
\<close>

definition bucket_select_worker ::
  "(rat \<Rightarrow> rat) \<times> nat \<times> nat \<times> string \<times> usize option \<Rightarrow> (nat \<Rightarrow> cb_clock) \<Rightarrow> nat list \<Rightarrow> bucket_policy \<times> worker_heap \<Rightarrow>
   nat option \<times> bucket_policy \<times> worker_heap" where
  "bucket_select_worker inp clk workers s = (case (inp, s) of ((rnd, draw, now, new_id, chars), (p, h)) \<Rightarrow>
     (case get_healthy_worker_indices clk workers h of (healthy_indices, h) \<Rightarrow>
        if healthy_indices = [] then (None, p, h)
        else
          let cnt = (case chars of None \<Rightarrow> 0 | Some n \<Rightarrow> n);
              key = normalize_model_key (model_id h (workers ! (healthy_indices ! 0)));
              fallback = url h (workers ! (healthy_indices ! random_range draw (length healthy_indices)))
          in case map_of (buckets p) key of
               Some b \<Rightarrow>
                 let u = choose_url rnd (bp_config p) b cnt fallback
                 in (find_worker_index_by_url h workers u,
                     put_bucket key (post_process_request now new_id cnt u b) p, h)
             | None \<Rightarrow> (find_worker_index_by_url h workers fallback, p, h)))"

section \<open>Ranges that tile the lengths\<close>

text \<open>The ranges are adjacent, start at a number and end at the greatest one.\<close>

fun tiled :: "nat \<Rightarrow> boundary list \<Rightarrow> bool" where
  "tiled n [] = False"
| "tiled n (b # bs) \<longleftrightarrow> unat (fst (b_range b)) = n \<and> n \<le> unat (snd (b_range b)) \<and>
     (if bs = [] then snd (b_range b) = - 1 else tiled (Suc (unat (snd (b_range b)))) bs)"

definition in_range :: "usize \<Rightarrow> boundary \<Rightarrow> bool" where
  "in_range c b \<longleftrightarrow> fst (b_range b) \<le> c \<and> c \<le> snd (b_range b)"

lemma tiled_nth:
  assumes "tiled n bs" "i < length bs"
  shows "n \<le> unat (fst (b_range (bs ! i)))" "fst (b_range (bs ! i)) \<le> snd (b_range (bs ! i))"
  using assms
proof (induction bs arbitrary: n i)
  case (Cons b bs)
  { case 1 with Cons.IH(1) [of "Suc (unat (snd (b_range b)))" "i - 1"] show ?case
      by (cases i) (auto split: if_splits) }
  { case 2 with Cons.IH(2) [of "Suc (unat (snd (b_range b)))" "i - 1"] show ?case
      by (cases i) (auto split: if_splits simp: word_le_nat_alt) }
qed simp_all

lemma tiled_ordered:
  assumes "tiled n bs" "i < j" "j < length bs"
  shows "snd (b_range (bs ! i)) < fst (b_range (bs ! j))"
  using assms
proof (induction bs arbitrary: n i j)
  case (Cons b bs)
  obtain j' where j: "j = Suc j'" using Cons.prems(2) by (cases j) auto
  have t: "tiled (Suc (unat (snd (b_range b)))) bs" using Cons.prems(1, 3) j by (auto split: if_splits)
  show ?case
  proof (cases i)
    case 0
    with tiled_nth(1) [OF t, of j'] j Cons.prems(3) show ?thesis by (simp add: word_less_nat_alt)
  next
    case (Suc i')
    with Cons.IH [OF t, of i' j'] j Cons.prems show ?thesis by simp
  qed
qed simp

lemma tiled_covers:
  assumes "tiled n bs" "n \<le> unat c"
  shows "\<exists>i < length bs. in_range c (bs ! i)"
  using assms
proof (induction bs arbitrary: n)
  case (Cons b bs)
  show ?case
  proof (cases "c \<le> snd (b_range b)")
    case True
    with Cons.prems have "in_range c ((b # bs) ! 0)" by (simp add: in_range_def word_le_nat_alt)
    then show ?thesis by blast
  next
    case False
    then have "bs \<noteq> []" using Cons.prems(1) by auto
    with Cons.prems(1) have "tiled (Suc (unat (snd (b_range b)))) bs" by simp
    from Cons.IH [OF this] False obtain i where "i < length bs" "in_range c (bs ! i)"
      by (auto simp: word_le_nat_alt)
    then have "Suc i < length (b # bs)" "in_range c ((b # bs) ! Suc i)" by simp_all
    then show ?thesis by blast
  qed
qed simp

lemma find_loop_finds:
  assumes "tiled n bs" "left \<le> i" "i < right" "right \<le> length bs" "in_range c (bs ! i)"
  shows "find_loop bs c left right = Some (b_url (bs ! i))"
  using assms
proof (induction bs c left right rule: find_loop.induct)
  case (1 bs c left right)
  define mid where "mid = left + (right - left) div 2"
  have m: "left \<le> mid" "mid < right" using 1(4, 5) unfolding mid_def by auto
  have lr: "left < right" using 1(4, 5) by simp
  note step = find_loop.simps [of bs c left right] and d = mid_def [symmetric]
  consider "i < mid" | "i = mid" | "mid < i" by linarith
  then show ?case
  proof cases
    case 1
    have "c < fst (b_range (bs ! mid))"
      using tiled_ordered [OF \<open>tiled n bs\<close> 1] m \<open>right \<le> length bs\<close> \<open>in_range c (bs ! i)\<close> by (auto simp: in_range_def)
    with "1.IH"(1) [OF lr mid_def refl this \<open>tiled n bs\<close> \<open>left \<le> i\<close> 1] m \<open>right \<le> length bs\<close> \<open>in_range c (bs ! i)\<close> lr
    show ?thesis unfolding step by (simp add: d Let_def)
  next
    case 2
    with \<open>in_range c (bs ! i)\<close> lr show ?thesis unfolding step by (auto simp: d Let_def in_range_def)
  next
    case 3
    have g: "c > snd (b_range (bs ! mid))"
      using tiled_ordered [OF \<open>tiled n bs\<close> 3] \<open>i < right\<close> \<open>right \<le> length bs\<close> \<open>in_range c (bs ! i)\<close> by (auto simp: in_range_def)
    moreover have "\<not> c < fst (b_range (bs ! mid))"
      using g tiled_nth(2) [OF \<open>tiled n bs\<close>, of mid] m \<open>right \<le> length bs\<close> by simp
    moreover from "1.IH"(2) [OF lr mid_def refl this g \<open>tiled n bs\<close> _ \<open>i < right\<close> \<open>right \<le> length bs\<close> \<open>in_range c (bs ! i)\<close>] 3
    have "find_loop bs c (mid + 1) right = Some (b_url (bs ! i))" by simp
    ultimately show ?thesis using lr unfolding step by (simp add: d Let_def)
  qed
qed

lemma in_range_unique:
  assumes "tiled n bs" "i < length bs" "j < length bs" "in_range c (bs ! i)" "in_range c (bs ! j)"
  shows "i = j"
proof (rule ccontr)
  assume "i \<noteq> j"
  then consider "i < j" | "j < i" by linarith
  then show False
    using tiled_ordered [OF assms(1), of i j] tiled_ordered [OF assms(1), of j i] assms(2-)
    by cases (auto simp: in_range_def)
qed

lemma find_boundary_at:
  assumes "tiled 0 (boundary b)" "i < length (boundary b)" "in_range c (boundary b ! i)"
  shows "find_boundary b c = Some (b_url (boundary b ! i))"
  unfolding find_boundary_def using find_loop_finds [OF assms(1) _ assms(2) _ assms(3)] by simp

section \<open>Initial and adjusted ranges\<close>

lemma unat_mult_small: "i * unat (g :: usize) < 2 ^ 64 \<Longrightarrow> unat (of_nat i * g) = i * unat g"
  using unat_of_nat_small [of "i * unat g"] by simp

lemma initial_tiled:
  assumes "length us = n - i" "i < n" "0 < gap" "n * unat gap < 2 ^ 64"
  shows "tiled (i * unat gap) (map (\<lambda>(i, u). initial_boundary n gap (- 1) i u) (zip [i..<n] us))"
  using assms
proof (induction us arbitrary: i)
  case (Cons u us)
  have g: "0 < unat gap" using Cons.prems(3) by (simp add: word_less_nat_alt)
  have b: "k * unat gap < 2 ^ 64" if "k \<le> n" for k
    using mult_le_mono1 [OF that, of "unat gap"] Cons.prems(4) by linarith
  have lo: "unat (of_nat i * gap) = i * unat gap" using b [of i] Cons.prems(2) by (simp add: unat_mult_small)
  have z: "zip [i..<n] (u # us) = (i, u) # zip [Suc i..<n] us" using Cons.prems(2) by (simp add: upt_conv_Cons)
  show ?case
  proof (cases "Suc i = n")
    case True
    have "i * unat gap \<le> 2 ^ 64 - 1" using b [of i] Cons.prems(2) by simp
    moreover have "us = []" "n - 1 = i" using True Cons.prems(1) by auto
    ultimately show ?thesis
      using lo unfolding z by (simp add: initial_boundary_def boundary_new_def unat_max_word)
  next
    case False
    have "unat (of_nat (Suc i) * gap) = Suc i * unat gap" using b [of "Suc i"] Cons.prems(2) by (simp only: unat_mult_small)
    then have e: "unat ((of_nat i + 1) * gap) = Suc i * unat gap" by (simp add: add.commute)
    then have "1 \<le> (of_nat i + 1) * gap" using g by (simp add: word_le_nat_alt)
    then have hi: "unat ((of_nat i + 1) * gap - 1) = Suc i * unat gap - 1" using e by (simp add: unat_sub)
    have "us \<noteq> []" "[Suc i..<n] \<noteq> []" using False Cons.prems(1, 2) by auto
    then have ne: "zip [Suc i..<n] us \<noteq> []" by simp
    have "Suc (Suc i * unat gap - 1) = Suc i * unat gap" using g by simp
    moreover have "i \<noteq> n - 1" "i * unat gap \<le> Suc i * unat gap - 1" "length us = n - Suc i"
      using False Cons.prems(1, 2) g by auto
    ultimately show ?thesis using Cons.IH [of "Suc i"] Cons.prems(2-) False ne lo hi
      by (simp add: z initial_boundary_def boundary_new_def del: of_nat_Suc)
  qed
qed simp

lemma init_urls_tiled:
  assumes "urls \<noteq> []" "length urls \<le> unat (l_max b)"
  shows "tiled 0 (boundary (init_urls urls b))"
proof -
  let ?n = "length urls"
  have n: "0 < ?n" "?n < 2 ^ 64" using assms unsigned_less [of "l_max b", where ?'a = nat] by (auto simp del: unsigned_less)
  let ?gap = "l_max b div of_nat ?n"
  have g: "unat ?gap = unat (l_max b) div ?n" using n(2) by (simp add: unat_div unat_of_nat_small)
  have "?n * unat ?gap \<le> unat (l_max b)" unfolding g by simp
  moreover have "unat (l_max b) < 2 ^ 64" using unsigned_less [of "l_max b", where ?'a = nat] by simp
  ultimately have "?n * unat ?gap < 2 ^ 64" by linarith
  moreover have "0 < ?gap" unfolding word_less_nat_alt g using assms(2) n(1) by (simp add: div_greater_zero_iff)
  ultimately show ?thesis
    using initial_tiled [of urls ?n 0 ?gap] n(1) by (simp add: init_urls_def Let_def)
qed

lemma init_urls_names: "map b_url (boundary (init_urls urls b)) = urls"
  by (auto simp: init_urls_def Let_def initial_boundary_def boundary_new_def intro!: nth_equalityI)

lemma scan_loads_subset:
  "scan_loads target acc ls = (r, rest) \<Longrightarrow> set rest \<subseteq> set ls \<and> (\<forall>l. r = Some l \<longrightarrow> l \<in> set ls)"
  by (induction ls arbitrary: acc) (fastforce split: if_splits)+

lemma new_boundaries_names: "map b_url (new_boundaries target upper loads us) = us"
proof (induction us arbitrary: upper loads)
  case (Cons u us)
  then show ?case by (simp add: boundary_new_def Let_def split: prod.split option.split)
qed simp

lemma new_boundaries_Nil_iff [simp]: "new_boundaries target upper loads us = [] \<longleftrightarrow> us = []"
  using arg_cong [OF new_boundaries_names [of target upper loads us], of length] by auto

lemma new_boundaries_tiled:
  assumes "us \<noteq> []" "\<forall>l \<in> set loads. unat l \<le> M"
    "unat upper + length us * Suc (unat target) < 2 ^ 64" "M + length us * Suc (unat target) < 2 ^ 64"
  shows "tiled (unat upper) (new_boundaries target upper loads us)"
  using assms
proof (induction us arbitrary: upper loads)
  case (Cons u us)
  obtain r rest where s: "scan_loads target 0 loads = (r, rest)" by (cases "scan_loads target 0 loads")
  have rest: "\<forall>l \<in> set rest. unat l \<le> M" and r: "\<forall>l. r = Some l \<longrightarrow> unat l \<le> M"
    using scan_loads_subset [OF s] Cons.prems(2) by auto
  have "unat upper < 2 ^ 64" using unsigned_less [of upper, where ?'a = nat] by simp
  then have top: "unat upper \<le> unat (- 1 :: usize)" by (simp add: unat_max_word)
  show ?case
  proof (cases "us = []")
    case True
    with top s show ?thesis by (simp add: boundary_new_def split: option.split)
  next
    case False
    have e: "length (u # us) * Suc (unat target) = Suc (unat target) + length us * Suc (unat target)" by simp
    have k: "Suc (unat target) \<le> length us * Suc (unat target)" using False by (cases us) simp_all
    have real: "unat (upper + target) = unat upper + unat target"
      using Cons.prems(3) unfolding e by (simp add: unat_word_ariths)
    moreover have real1: "unat (upper + target + 1) = Suc (unat upper + unat target)"
      using Cons.prems(3) real unfolding e by (simp add: unat_word_ariths(1) [of _ 1])
    moreover have "tiled (unat (upper + target + 1)) (new_boundaries target (upper + target + 1) rest us)"
      using Cons.prems(3, 4) unfolding e by (intro Cons.IH [OF False rest]) (unfold real1, linarith+)
    ultimately have short: "tiled (unat upper) (boundary_new u (upper, upper + target) # new_boundaries target (upper + target + 1) rest us)"
      using False by (simp add: boundary_new_def)
    have long: "tiled (unat upper) (boundary_new u (upper, l) # new_boundaries target (l + 1) rest us)"
      if l: "r = Some l" "\<not> l \<le> upper" for l
    proof -
      have "unat l \<le> M" using r l by blast
      then have l1: "unat (l + 1) = Suc (unat l)" using Cons.prems(4) unfolding e by (simp add: unat_word_ariths)
      moreover have "tiled (unat (l + 1)) (new_boundaries target (l + 1) rest us)"
        using Cons.prems(4) \<open>unat l \<le> M\<close> unfolding e by (intro Cons.IH [OF False rest]) (unfold l1, linarith+)
      ultimately show ?thesis using False l(2) by (simp add: boundary_new_def word_le_nat_alt)
    qed
    show ?thesis using False s short long by (cases r) (simp_all add: Let_def)
  qed
qed simp

section \<open>Requests in the window\<close>

definition window_load :: "string \<Rightarrow> sequencer_request list \<Rightarrow> nat" where
  "window_load u rs = sum_list (map (\<lambda>r. unat (char_cnt r)) (filter (\<lambda>r. prefill_worker_url r = u) rs))"

definition window_total :: "sequencer_request list \<Rightarrow> nat" where
  "window_total rs = sum_list (map (\<lambda>r. unat (char_cnt r)) rs)"

lemma window_Cons [simp]:
  "window_load u (r # rs) = (if prefill_worker_url r = u then unat (char_cnt r) else 0) + window_load u rs"
  "window_total (r # rs) = unat (char_cnt r) + window_total rs"
  "window_load u [] = 0" "window_total [] = 0"
  by (simp_all add: window_load_def window_total_def)

lemma window_append [simp]:
  "window_load u (rs @ rs') = window_load u rs + window_load u rs'"
  "window_total (rs @ rs') = window_total rs + window_total rs'"
  by (simp_all add: window_load_def window_total_def)

lemma window_load_le: "window_load u rs \<le> window_total rs"
  by (induction rs) auto

lemma count_for_update [simp]: "count_for u (AList.update k v m) = (if u = k then v else count_for u m)"
  by (simp add: count_for_def update_conv')

lemma count_for_delete [simp]: "count_for u (AList.delete k m) = (if u = k then 0 else count_for u m)"
  by (simp add: count_for_def delete_conv')

lemma count_for_Nil [simp]: "count_for u [] = 0"
  by (simp add: count_for_def)

lemma loads_delete_subset: "set (AList.delete k m) \<subseteq> set m"
  by (auto simp: AList.delete_eq)

lemma expire_loop_counts:
  assumes "expire_loop now w rs loads chars removed = (rs', loads', chars', removed')"
    "\<forall>u. unat (count_for u chars) = window_load u rs + extra u"
    "unat removed + window_total rs < 2 ^ 64"
  shows "(\<forall>u. unat (count_for u chars') = window_load u rs' + extra u)
    \<and> unat removed' + window_total rs' = unat removed + window_total rs
    \<and> set loads' \<subseteq> set loads"
  using assms
proof (induction rs arbitrary: loads chars removed)
  case (Cons r rs)
  show ?case
  proof (cases "request_expired now w r")
    case False
    then show ?thesis using Cons.prems by auto
  next
    case True
    define m where "m = (case map_of chars (prefill_worker_url r) of
      Some n \<Rightarrow> AList.update (prefill_worker_url r) (saturating_sub n (char_cnt r)) chars | None \<Rightarrow> chars)"
    have e: "expire_loop now w rs (AList.delete (sr_id r) loads) m (removed + char_cnt r) = (rs', loads', chars', removed')"
      using Cons.prems(1) True unfolding m_def by simp
    have c: "unat (count_for u m) = window_load u rs + extra u" for u
    proof -
      have a: "unat (count_for u chars) = window_load u (r # rs) + extra u" using Cons.prems(2) by blast
      show ?thesis
      proof (cases "map_of chars (prefill_worker_url r)")
        case None
        then have "count_for (prefill_worker_url r) chars = 0" by (simp add: count_for_def)
        then have "unat (char_cnt r) = 0" using Cons.prems(2) [rule_format, of "prefill_worker_url r"] by simp
        with a None show ?thesis by (simp add: m_def split: if_splits)
      next
        case (Some n)
        then have n: "count_for (prefill_worker_url r) chars = n" by (simp add: count_for_def)
        show ?thesis
        proof (cases "u = prefill_worker_url r")
          case True
          with a n Some show ?thesis by (simp add: m_def sat_simps)
        next
          case False
          with a Some show ?thesis by (simp add: m_def)
        qed
      qed
    qed
    have rm: "unat (removed + char_cnt r) = unat removed + unat (char_cnt r)"
      using Cons.prems(3) by (simp add: unat_word_ariths)
    have "unat (removed + char_cnt r) + window_total rs < 2 ^ 64" using Cons.prems(3) rm by simp
    from Cons.IH [OF e _ this] c rm show ?thesis using loads_delete_subset [of "sr_id r" loads] by auto
  qed
qed simp

lemma post_process_fields:
  "prefill_worker_urls (post_process_request now i c u b) = prefill_worker_urls b"
  "boundary (post_process_request now i c u b) = boundary b"
  "bucket_load (post_process_request now i c u b) = bucket_load b"
  "l_max (post_process_request now i c u b) = l_max b"
  by (simp_all add: post_process_request_def Let_def split: prod.split)

text \<open>
  The state of a bucket after requests of \<open>tot\<close> characters: the counts are those of the requests in
  the window, and the recorded loads are bounded.
\<close>

definition window_ok :: "nat \<Rightarrow> bucket \<Rightarrow> bool" where
  "window_ok tot b \<longleftrightarrow> (\<forall>u. unat (count_for u (chars_per_url b)) = window_load u (request_list b))
     \<and> unat (load_total b) = window_total (request_list b) \<and> window_total (request_list b) \<le> tot
     \<and> (\<forall>x \<in> set (t_req_loads b). unat (snd x) \<le> tot)"

lemma set_alist_update_subset: "set (AList.update k v m) \<subseteq> insert (k, v) (set m)"
  by (induction m) auto

lemma post_process_window:
  assumes "window_ok tot b" "tot + unat c < 2 ^ 64"
  shows "window_ok (tot + unat c) (post_process_request now i c u b)"
proof -
  let ?chars = "AList.update u (count_for u (chars_per_url b) + c) (chars_per_url b)"
  obtain reqs loads chars removed where
    e: "expire_loop now (from_millis (period b)) (request_list b) (t_req_loads b) ?chars 0 = (reqs, loads, chars, removed)"
    by (cases "expire_loop now (from_millis (period b)) (request_list b) (t_req_loads b) ?chars 0")
  have w: "unat (count_for v (chars_per_url b)) = window_load v (request_list b)" for v
    using assms(1) by (simp add: window_ok_def)
  have t: "unat (load_total b) = window_total (request_list b)" "window_total (request_list b) \<le> tot"
    using assms(1) by (simp_all add: window_ok_def)
  have "unat (count_for u (chars_per_url b)) + unat c < 2 ^ 64"
    using w [of u] window_load_le [of u "request_list b"] t(2) assms(2) by linarith
  then have "unat (count_for u (chars_per_url b) + c) = unat (count_for u (chars_per_url b)) + unat c"
    by (simp add: unat_word_ariths)
  then have "\<forall>v. unat (count_for v ?chars) = window_load v (request_list b) + (if v = u then unat c else 0)"
    using w by simp
  moreover have "unat (0 :: usize) + window_total (request_list b) < 2 ^ 64" using t(2) assms(2) by simp
  ultimately have x: "\<forall>v. unat (count_for v chars) = window_load v reqs + (if v = u then unat c else 0)"
    "unat removed + window_total reqs = window_total (request_list b)" "set loads \<subseteq> set (t_req_loads b)"
    using expire_loop_counts [OF e, of "\<lambda>v. if v = u then unat c else 0"] by simp_all
  have "unat (saturating_add (saturating_sub (load_total b) removed) c) = window_total reqs + unat c"
    using x(2) t assms(2) by (simp add: sat_simps)
  moreover have "\<forall>y \<in> set (AList.update i c loads). unat (snd y) \<le> tot + unat c"
  proof
    fix y assume "y \<in> set (AList.update i c loads)"
    then have "y = (i, c) \<or> y \<in> set (t_req_loads b)" using set_alist_update_subset [of i c loads] x(3) by blast
    then show "unat (snd y) \<le> tot + unat c" using assms(1) unfolding window_ok_def by fastforce
  qed
  ultimately show ?thesis
    using x(1, 2) t(2) e by (auto simp: window_ok_def post_process_request_def Let_def)
qed

lemma count_for_zeros: "(\<forall>u \<in> set us. count_for u m = 0) \<Longrightarrow> count_for v (foldl (\<lambda>m u. AList.update u 0 m) m us) = count_for v m"
  by (induction us arbitrary: m) simp_all

lemma count_for_drop_zeros:
  "count_for v (foldl (\<lambda>m u. if map_of m u = Some 0 then AList.delete u m else m) m us) = count_for v m"
proof (induction us arbitrary: m)
  case (Cons u us)
  have "count_for v (if map_of m u = Some 0 then AList.delete u m else m) = count_for v m"
    by (auto simp: count_for_def delete_conv')
  with Cons show ?case by simp
qed simp

lemma update_workers_cnt_counts: "count_for v (chars_per_url (update_workers_cnt b)) = count_for v (chars_per_url b)"
proof -
  have "count_for u (chars_per_url b) = 0" if "u \<notin> set (map fst (chars_per_url b))" for u
    using that map_of_eq_None_iff [of "chars_per_url b" u] by (simp add: count_for_def)
  then show ?thesis
    unfolding update_workers_cnt_def Let_def by (simp add: count_for_drop_zeros count_for_zeros)
qed

lemma update_workers_cnt_fields [simp]:
  "prefill_worker_urls (update_workers_cnt b) = prefill_worker_urls b" "boundary (update_workers_cnt b) = boundary b"
  "load_total (update_workers_cnt b) = load_total b" "request_list (update_workers_cnt b) = request_list b"
  "t_req_loads (update_workers_cnt b) = t_req_loads b" "bucket_cnt (update_workers_cnt b) = of_nat (length (prefill_worker_urls b))"
  "l_max (update_workers_cnt b) = l_max b"
  by (simp_all add: update_workers_cnt_def Let_def)

lemma adjust_boundary_fields:
  "prefill_worker_urls (adjust_boundary b) = prefill_worker_urls b" "l_max (adjust_boundary b) = l_max b"
  "window_ok tot (adjust_boundary b) = window_ok tot b"
  by (simp_all add: adjust_boundary_def Let_def window_ok_def update_workers_cnt_counts)

lemma adjust_boundary_tiled:
  assumes "window_ok tot b" "tot < 2 ^ 62" "0 < length (prefill_worker_urls b)" "length (prefill_worker_urls b) \<le> 4096"
    "tiled 0 (boundary b)" "map b_url (boundary b) = prefill_worker_urls b"
  shows "tiled 0 (boundary (adjust_boundary b))" "map b_url (boundary (adjust_boundary b)) = prefill_worker_urls b"
proof -
  let ?n = "length (prefill_worker_urls b)" and ?loads = "sort (map snd (t_req_loads b))"
  let ?t = "load_total b div of_nat ?n"
  have n: "unat (of_nat ?n :: usize) = ?n" using assms(4) by (intro unat_of_nat_small) simp
  have "unat ?t = unat (load_total b) div ?n" by (simp add: unat_div n)
  then have "?n * unat ?t \<le> tot" using assms(1) by (simp add: window_ok_def) (metis div_times_less_eq_dividend le_trans mult.commute)
  then have k: "?n * Suc (unat ?t) \<le> tot + 4096" using assms(4) by simp
  have "\<forall>l \<in> set ?loads. unat l \<le> tot" using assms(1) by (auto simp: window_ok_def)
  moreover have "prefill_worker_urls b \<noteq> []" using assms(3) by auto
  ultimately have "tiled (unat (0 :: usize)) (new_boundaries ?t 0 ?loads (prefill_worker_urls b))"
    using k assms(2) by (intro new_boundaries_tiled [where M = tot]) simp_all
  then show "tiled 0 (boundary (adjust_boundary b))" using assms(5) by (simp add: adjust_boundary_def Let_def)
  show "map b_url (boundary (adjust_boundary b)) = prefill_worker_urls b"
    using assms(6) by (simp add: adjust_boundary_def Let_def new_boundaries_names)
qed

section \<open>Runs\<close>

datatype bucket_op = Request nat string usize string | Adjust

fun bucket_op_step :: "bucket \<Rightarrow> bucket_op \<Rightarrow> bucket" where
  "bucket_op_step b (Request now i c u) = post_process_request now i c u b"
| "bucket_op_step b Adjust = adjust_boundary b"

fun op_size :: "bucket_op \<Rightarrow> nat" where
  "op_size (Request now i c u) = unat c"
| "op_size Adjust = 0"

definition bucket_run :: "usize \<Rightarrow> string list \<Rightarrow> bucket_op list \<Rightarrow> bucket" where
  "bucket_run p urls ops = foldl bucket_op_step (init_urls urls (bucket_new p)) ops"

lemma l_max_run: "l_max (foldl bucket_op_step b ops) = l_max b"
proof (induction ops arbitrary: b)
  case (Cons x xs)
  have "l_max (bucket_op_step b x) = l_max b" by (cases x) (simp_all add: post_process_fields adjust_boundary_fields)
  with Cons show ?case by simp
qed simp

lemma init_urls_window: "window_ok 0 (init_urls urls (bucket_new p))"
proof -
  have "count_for v (foldl (\<lambda>m u. AList.update u 0 m) [] urls) = 0" for v
    using count_for_zeros [of urls "[]" v] by (simp add: count_for_def)
  then show ?thesis by (simp add: window_ok_def init_urls_def Let_def bucket_new_def)
qed

lemma run_window:
  assumes "window_ok tot b" "tot + sum_list (map op_size ops) < 2 ^ 64"
  shows "window_ok (tot + sum_list (map op_size ops)) (foldl bucket_op_step b ops)"
  using assms
proof (induction ops arbitrary: b tot)
  case (Cons x xs)
  have "window_ok (tot + op_size x) (bucket_op_step b x)"
    using Cons.prems post_process_window [of tot b] by (cases x) (simp_all add: adjust_boundary_fields)
  from Cons.IH [OF this] Cons.prems(2) show ?case by (simp add: add.assoc)
qed simp

definition ranges_ok :: "string list \<Rightarrow> bucket \<Rightarrow> bool" where
  "ranges_ok urls b \<longleftrightarrow> tiled 0 (boundary b) \<and> map b_url (boundary b) = urls \<and> prefill_worker_urls b = urls"

lemma run_ranges:
  assumes "window_ok tot b" "tot + sum_list (map op_size ops) < 2 ^ 62" "0 < length urls" "length urls \<le> 4096" "ranges_ok urls b"
  shows "ranges_ok urls (foldl bucket_op_step b ops)"
  using assms
proof (induction ops arbitrary: b tot)
  case (Cons x xs)
  have w: "window_ok (tot + op_size x) (bucket_op_step b x)"
    using Cons.prems(1, 2) post_process_window [of tot b] by (cases x) (simp_all add: adjust_boundary_fields)
  have "ranges_ok urls (bucket_op_step b x)"
  proof (cases x)
    case Adjust
    then show ?thesis
      using adjust_boundary_tiled [OF Cons.prems(1)] Cons.prems(2-5) by (simp add: ranges_ok_def adjust_boundary_fields)
  qed (use Cons.prems(5) in \<open>simp add: ranges_ok_def post_process_fields\<close>)
  with Cons.IH [OF w] Cons.prems(2-4) show ?case by (simp add: add.assoc)
qed simp

lemma init_ranges:
  assumes "urls \<noteq> []" "length urls \<le> 4096"
  shows "ranges_ok urls (init_urls urls (bucket_new p))"
  using init_urls_tiled [of urls "bucket_new p"] init_urls_names [of urls "bucket_new p"] assms
  by (simp add: ranges_ok_def bucket_new_def) (simp add: init_urls_def Let_def)

section \<open>Properties\<close>

text \<open>
  C35: A bucket that was set up once for 1 to 4096 workers sends every request length to exactly one
  of them, after any sequence of requests and adjustments of the ranges: there is one range that
  contains the length, and the binary search returns the worker of that range. The requests may
  have 2 to the power 62 characters together, so that no bound wraps around.
\<close>

theorem bucket_lookup_total:
  assumes "urls \<noteq> []" "length urls \<le> 4096" "sum_list (map op_size ops) < 2 ^ 62"
  shows "\<exists>!i. i < length urls \<and> in_range c (boundary (bucket_run p urls ops) ! i)
    \<and> find_boundary (bucket_run p urls ops) c = Some (urls ! i)"
proof -
  let ?b = "bucket_run p urls ops"
  have r: "ranges_ok urls ?b"
    unfolding bucket_run_def using run_ranges [OF init_urls_window, of ops urls urls p] init_ranges assms by simp
  then have l: "length (boundary ?b) = length urls" and t: "tiled 0 (boundary ?b)"
    unfolding ranges_ok_def by (metis length_map, blast)
  obtain i where i: "i < length urls" "in_range c (boundary ?b ! i)" using tiled_covers [OF t, of c] l by auto
  have "b_url (boundary ?b ! i) = urls ! i" using r i(1) l unfolding ranges_ok_def by (metis nth_map)
  then have "find_boundary ?b c = Some (urls ! i)" using find_boundary_at [OF t _ i(2)] i(1) l by simp
  with i in_range_unique [OF t] l show ?thesis by auto
qed

theorem bucket_lookup_total_witness:
  "\<exists>!i. i < length [''a'', ''b''] \<and> in_range 7 (boundary (bucket_run 1000 [''a'', ''b''] [Request 0 ''r'' 5 ''a'', Adjust]) ! i)
    \<and> find_boundary (bucket_run 1000 [''a'', ''b''] [Request 0 ''r'' 5 ''a'', Adjust]) 7 = Some ([''a'', ''b''] ! i)"
  by (rule bucket_lookup_total) simp_all

text \<open>
  The load of a worker that the bucket compares is exact: it is the number of characters of the
  requests of the window that were sent to the worker, and the total load is that of all requests
  of the window, after any sequence of requests and adjustments without overflow of the sum.
\<close>

theorem window_loads_exact:
  assumes "sum_list (map op_size ops) < 2 ^ 64"
  shows "unat (count_for u (chars_per_url (bucket_run p urls ops))) = window_load u (request_list (bucket_run p urls ops))
    \<and> unat (load_total (bucket_run p urls ops)) = window_total (request_list (bucket_run p urls ops))"
  using run_window [OF init_urls_window, of ops urls p] assms by (simp add: bucket_run_def window_ok_def)

theorem window_loads_exact_witness:
  "unat (load_total (bucket_run 1000 [''a''] [Request 0 ''r'' 5 ''a''])) =
     window_total (request_list (bucket_run 1000 [''a''] [Request 0 ''r'' 5 ''a'']))"
  using window_loads_exact [of "[Request 0 ''r'' 5 ''a'']" "''a''" 1000 "[''a'']"] by simp

fun is_request :: "bucket_op \<Rightarrow> bool" where
  "is_request (Request now i c u) = True"
| "is_request Adjust = False"

lemma requests_keep_ranges:
  "list_all is_request ops \<Longrightarrow> boundary (foldl bucket_op_step b ops) = boundary b"
proof (induction ops arbitrary: b)
  case (Cons x xs)
  then have "boundary (bucket_op_step b x) = boundary b" by (cases x) (simp_all add: post_process_fields)
  with Cons show ?case by simp
qed simp

lemma second_setup_range:
  assumes "urls \<noteq> []" "urls' \<noteq> []" "length urls' \<le> 4096" "unat c < 2 ^ 51"
  shows "find_boundary (init_urls urls' (bucket_run p urls ops)) c = Some (hd urls')"
proof -
  let ?r = "bucket_run p urls ops" and ?n = "length urls'"
  let ?b = "init_urls urls' ?r"
  have m: "l_max ?r = - 1" using assms(1) by (simp add: bucket_run_def l_max_run init_urls_def Let_def)
  have t: "tiled 0 (boundary ?b)" using assms(2, 3) m by (intro init_urls_tiled) (simp_all add: unat_max_word)
  have n: "unat (of_nat ?n :: usize) = ?n" using assms(3) by (intro unat_of_nat_small) simp
  have "(2 ^ 64 - 1) div 4096 \<le> (2 ^ 64 - 1) div ?n" using assms(2, 3) by (intro div_le_mono2) simp_all
  then have g: "2 ^ 51 + 1 \<le> unat ((- 1 :: usize) div of_nat ?n)" by (simp add: unat_div n unat_max_word)
  obtain u us where us: "urls' = u # us" using assms(2) by (cases urls') auto
  have z: "zip [0..<?n] urls' = (0, u) # zip [1..<?n] us" unfolding us by (subst upt_conv_Cons) (simp_all del: upt_Suc)
  have "c \<le> (- 1 :: usize) div of_nat ?n - 1"
    using g assms(4) by (simp add: word_le_nat_alt unat_sub)
  then have c: "in_range c (boundary ?b ! 0)"
    using assms(2) m by (simp add: init_urls_def Let_def z initial_boundary_def boundary_new_def in_range_def)
  have l: "0 < length (boundary ?b)" using t by (cases "boundary ?b") auto
  have "b_url (boundary ?b ! 0) = hd urls'"
    using init_urls_names [of urls' ?r] l by (metis hd_conv_nth length_map list.map_disc_iff nth_map length_0_conv less_irrefl)
  then show ?thesis using find_boundary_at [OF t l c] by simp
qed

text \<open>
  C36: A bucket that is set up again, as it is whenever another prefill worker is registered, gives every
  request that is routed by its length to the first worker until the ranges are adjusted: the first set-up
  replaces the greatest length by the greatest number, so that the ranges of the second one divide all
  numbers. The requests are shorter than \<open>2\<^sup>5\<^sup>1\<close> characters, the second set-up has at most 4096 workers, the
  first of them with a URL that is not empty, any requests and adjustments may come before it and any requests
  after it; and the loads are not imbalanced, in which case the policy takes the least loaded
  worker instead.
\<close>

theorem second_setup_uses_first_worker:
  assumes "urls \<noteq> []" and "urls' \<noteq> []" and "hd urls' \<noteq> []" and "length urls' \<le> 4096" and "unat c < 2 ^ 51"
    and "list_all is_request later"
    and "b = foldl bucket_op_step (init_urls urls' (bucket_run p urls ops)) later"
    and "\<not> is_imbalanced rnd cfg (map snd (chars_per_url b))"
  shows "choose_url rnd cfg b c fallback = hd urls'"
proof -
  have "boundary b = boundary (init_urls urls' (bucket_run p urls ops))"
    unfolding assms(7) by (rule requests_keep_ranges [OF assms(6)])
  then have "find_boundary b c = Some (hd urls')"
    using second_setup_range [OF assms(1,2,4,5)] by (simp only: find_boundary_def)
  with assms(3,8) show ?thesis by (simp add: choose_url_def)
qed

definition twice_set_up :: bucket where
  "twice_set_up = init_urls [''a'', ''b''] (bucket_run 1000 [''a''] [])"

theorem second_setup_uses_first_worker_witness:
  "choose_url (\<lambda>x. x) default_bucket_config twice_set_up 100000 ''f'' = ''a''"
proof -
  have "\<not> balance_abs_threshold default_bucket_config <
      saturating_sub (max_of (map snd (chars_per_url twice_set_up))) (min_of (map snd (chars_per_url twice_set_up)))"
    by code_simp
  then have "\<not> is_imbalanced (\<lambda>x. x) default_bucket_config (map snd (chars_per_url twice_set_up))"
    unfolding is_imbalanced_def Let_def by blast
  moreover have "twice_set_up = foldl bucket_op_step (init_urls [''a'', ''b''] (bucket_run 1000 [''a''] [])) []"
    by (simp add: twice_set_up_def)
  ultimately show ?thesis
    using second_setup_uses_first_worker [of "[''a'']" "[''a'', ''b'']" 100000 "[]" twice_set_up 1000 "[]"
      "\<lambda>x. x" default_bucket_config "''f''"] by simp
qed

definition mixed_heap :: worker_heap where
  "mixed_heap =
     \<lparr>objs = (\<lambda>i. demo_worker (if i = 0 then ''http://a'' else ''http://b'') Wildcard i),
      runtimes = (\<lambda>i. new_runtime (if i = 0 then NotReady else Ready)),
      breakers = (\<lambda>_. new_circuit_breaker 0)\<rparr>"

lemma mixed_heap_urls:
  assumes "objs h = objs mixed_heap"
  shows "url h 0 = ''http://a''" "url h (Suc 0) = ''http://b''" "normalize_model_key (model_id h w) = ''unknown''"
  using assms by (simp_all add: mixed_heap_def url_def demo_worker_def demo_spec_def model_id_def normalize_model_key_def UNKNOWN_MODEL_ID_def)

lemma mixed_heap_health: "\<not> is_healthy mixed_heap 0" "is_healthy mixed_heap 1" "\<not> breaker_open mixed_heap 1"
  by (simp_all add: is_healthy_def status_def runtime_of_def mixed_heap_def demo_worker_def new_runtime_def from_u8_def
      try_from_u8_def breaker_open_def breaker_of_def new_circuit_breaker_def with_config_and_label_def)

definition mixed_bucket :: bucket where
  "mixed_bucket = init_urls [''http://a'', ''http://b''] (bucket_new 5000)"

lemma mixed_bucket_choice: "choose_url rnd default_bucket_config mixed_bucket 10 fallback = ''http://a''"
proof -
  have "find_boundary mixed_bucket 10 = Some ''http://a''" by code_simp
  moreover have "\<not> balance_abs_threshold default_bucket_config <
      saturating_sub (max_of (map snd (chars_per_url mixed_bucket))) (min_of (map snd (chars_per_url mixed_bucket)))"
    by code_simp
  ultimately show ?thesis by (simp add: choose_url_def is_imbalanced_def Let_def)
qed

lemma mixed_policy:
  "init_prefill_worker_urls mixed_heap [0, Suc 0] bp_new = \<lparr>bp_config = default_bucket_config, buckets = [(''unknown'', mixed_bucket)]\<rparr>"
  by (simp add: init_prefill_worker_urls_def mixed_heap_urls bp_new_def bp_with_config_def put_bucket_def bucket_or_new_def
      mixed_bucket_def) (simp add: default_bucket_config_def)

text \<open>
  C37: The bucket policy can choose a worker that is not healthy although another one is: the healthy
  workers are only used to find the model and for the random fallback, and the worker of the
  range is returned whatever its state.
\<close>

theorem bucket_chooses_unhealthy:
  "fst (bucket_select_worker (rnd, draw, now, i, Some 10) clk [0, 1] (init_prefill_worker_urls mixed_heap [0, 1] bp_new, mixed_heap)) = Some 0
   \<and> \<not> is_healthy mixed_heap 0 \<and> is_healthy mixed_heap 1"
proof -
  obtain js h where g: "get_healthy_worker_indices clk [0, 1] mixed_heap = (js, h)"
    by (cases "get_healthy_worker_indices clk [0, 1] mixed_heap")
  have "1 \<in> set js" using healthy_indices(5) [OF g, of 1] mixed_heap_health by simp
  then have "js \<noteq> []" by auto
  moreover note u = mixed_heap_urls [OF healthy_indices(1) [OF g]]
  ultimately show ?thesis
    using g mixed_heap_health
    by (simp add: bucket_select_worker_def mixed_policy mixed_bucket_choice find_worker_index_by_url_def Let_def)
qed

end
