(* ===== verification/McpApproval.thy ===== *)
theory McpApproval
  imports Prelude "HOL-Library.AList"
begin

text \<open>
  Approval of tool calls (\<open>crates/mcp/src/approval\<close>): the policy engine, the audit log and the
  approval manager, and the call of the orchestrator that asks for an approval. A compiled regular
  expression is the predicate that it matches. The one-shot channels are numbered; what is sent on
  them and which receivers still exist is part of the state, and a send fails exactly when the
  receiver was dropped. Clock readings are arguments. The engine writes to the log of the manager,
  as the orchestrator sets them up; entries are without their identifier and time.
\<close>

section \<open>Annotations and policies\<close>

record tool_annotations =
  read_only :: bool
  destructive :: bool
  idempotent :: bool
  open_world :: bool

definition annotations_default :: tool_annotations where
  "annotations_default = \<lparr>read_only = False, destructive = False, idempotent = False, open_world = False\<rparr>"

text \<open>The hints of the protocol, in the order of the fields.\<close>

record rmcp_annotations =
  read_only_hint :: "bool option"
  destructive_hint :: "bool option"
  idempotent_hint :: "bool option"
  open_world_hint :: "bool option"

definition hint_or :: "bool \<Rightarrow> bool option \<Rightarrow> bool" where
  "hint_or d x = (case x of Some b \<Rightarrow> b | None \<Rightarrow> d)"

definition from_rmcp :: "rmcp_annotations \<Rightarrow> tool_annotations" where
  "from_rmcp r = \<lparr>read_only = hint_or False (read_only_hint r), destructive = hint_or True (destructive_hint r),
     idempotent = hint_or False (idempotent_hint r), open_world = hint_or True (open_world_hint r)\<rparr>"

definition from_rmcp_option :: "rmcp_annotations option \<Rightarrow> tool_annotations" where
  "from_rmcp_option r = (case r of Some r \<Rightarrow> from_rmcp r | None \<Rightarrow> annotations_default)"

definition should_require_approval :: "tool_annotations \<Rightarrow> bool" where
  "should_require_approval h \<longleftrightarrow> destructive h \<and> \<not> read_only h"

datatype annotation_type = Destructive | ReadOnly | Idempotent | OpenWorld

fun annotation_matches :: "annotation_type \<Rightarrow> tool_annotations \<Rightarrow> bool" where
  "annotation_matches Destructive h = destructive h"
| "annotation_matches ReadOnly h = read_only h"
| "annotation_matches Idempotent h = idempotent h"
| "annotation_matches OpenWorld h = open_world h"

datatype policy_decision = Allow | Deny | DenyWithReason string

fun is_allowed :: "policy_decision \<Rightarrow> bool" where
  "is_allowed Allow = True"
| "is_allowed _ = False"

fun denial_reason :: "policy_decision \<Rightarrow> string option" where
  "denial_reason (DenyWithReason r) = Some r"
| "denial_reason Deny = Some ''Policy denied''"
| "denial_reason Allow = None"

datatype trust_level = Trusted | Standard | Untrusted | Sandboxed

record server_policy =
  sp_default :: policy_decision
  sp_trust_level :: trust_level

definition server_policy_default :: server_policy where
  "server_policy_default = \<lparr>sp_default = Allow, sp_trust_level = Standard\<rparr>"

datatype rule_pattern = ServerPattern "string \<Rightarrow> bool" | ToolPattern "string \<Rightarrow> bool" | QualifiedPattern "string \<Rightarrow> bool" | AnyPattern

fun pattern_matches :: "rule_pattern \<Rightarrow> string \<Rightarrow> string \<Rightarrow> bool" where
  "pattern_matches (ServerPattern re) server tool = re server"
| "pattern_matches (ToolPattern re) server tool = re tool"
| "pattern_matches (QualifiedPattern re) server tool = re (server @ '':'' @ tool)"
| "pattern_matches AnyPattern server tool = True"

datatype rule_condition = Always | HasAnnotation annotation_type | LacksAnnotation annotation_type

fun condition_evaluate :: "rule_condition \<Rightarrow> tool_annotations \<Rightarrow> bool" where
  "condition_evaluate Always h = True"
| "condition_evaluate (HasAnnotation a) h = annotation_matches a h"
| "condition_evaluate (LacksAnnotation a) h = (\<not> annotation_matches a h)"

record policy_rule =
  rule_name :: string
  rule_pattern :: rule_pattern
  rule_condition :: rule_condition
  rule_decision :: policy_decision

definition rule_evaluate :: "policy_rule \<Rightarrow> string \<Rightarrow> string \<Rightarrow> tool_annotations \<Rightarrow> policy_decision option" where
  "rule_evaluate r server tool h =
     (if pattern_matches (rule_pattern r) server tool \<and> condition_evaluate (rule_condition r) h
      then Some (rule_decision r) else None)"

section \<open>Audit log\<close>

datatype decision_source = UserInteractive | PolicyEngineSource | ExplicitToolPolicy | ServerPolicySource | RuleMatch
  | AnnotationDefault | GlobalDefault | TimeoutSource

datatype decision_result = Approved | Denied string | PendingResult | TimedOut

fun is_approved :: "decision_result \<Rightarrow> bool" where
  "is_approved Approved = True"
| "is_approved _ = False"

fun is_final :: "decision_result \<Rightarrow> bool" where
  "is_final PendingResult = False"
| "is_final _ = True"

record audit_entry =
  ae_tenant_id :: string
  ae_request_id :: string
  ae_server_key :: string
  ae_tool_name :: string
  ae_result :: decision_result
  ae_source :: decision_source

record audit_log =
  entries :: "audit_entry list"
  max_entries :: nat

definition with_capacity :: "nat \<Rightarrow> audit_log" where
  "with_capacity n = \<lparr>entries = [], max_entries = n\<rparr>"

definition audit_new :: audit_log where
  "audit_new = with_capacity 10000"

definition audit_record :: "audit_entry \<Rightarrow> audit_log \<Rightarrow> audit_log" where
  "audit_record e l = l\<lparr>entries := (if length (entries l) \<ge> max_entries l then tl (entries l) else entries l) @ [e]\<rparr>"

definition record_decision :: "string \<times> string \<Rightarrow> string \<Rightarrow> string \<Rightarrow> decision_result \<Rightarrow> decision_source \<Rightarrow> audit_log \<Rightarrow> audit_log" where
  "record_decision qualified tenant request result source =
     audit_record \<lparr>ae_tenant_id = tenant, ae_request_id = request, ae_server_key = fst qualified,
       ae_tool_name = snd qualified, ae_result = result, ae_source = source\<rparr>"

definition recent :: "nat \<Rightarrow> audit_log \<Rightarrow> audit_entry list" where
  "recent limit l = take limit (rev (entries l))"

definition for_tenant :: "string \<Rightarrow> nat \<Rightarrow> audit_log \<Rightarrow> audit_entry list" where
  "for_tenant tenant limit l = take limit (filter (\<lambda>e. ae_tenant_id e = tenant) (rev (entries l)))"

definition for_request :: "string \<Rightarrow> nat option \<Rightarrow> audit_log \<Rightarrow> audit_entry list" where
  "for_request request limit l =
     (case limit of Some n \<Rightarrow> take n | None \<Rightarrow> (\<lambda>x. x)) (filter (\<lambda>e. ae_request_id e = request) (rev (entries l)))"

definition audit_clear :: "audit_log \<Rightarrow> audit_log" where
  "audit_clear l = l\<lparr>entries := []\<rparr>"

section \<open>Policy engine\<close>

record policy_engine =
  default_policy :: policy_decision
  server_policies :: "string \<rightharpoonup> server_policy"
  tool_policies :: "string \<times> string \<rightharpoonup> policy_decision"
  rules :: "policy_rule list"

definition engine_new :: policy_engine where
  "engine_new = \<lparr>default_policy = Allow, server_policies = Map.empty, tool_policies = Map.empty, rules = []\<rparr>"

definition with_default_policy :: "policy_decision \<Rightarrow> policy_engine \<Rightarrow> policy_engine" where
  "with_default_policy d e = e\<lparr>default_policy := d\<rparr>"

definition with_server_policy :: "string \<Rightarrow> server_policy \<Rightarrow> policy_engine \<Rightarrow> policy_engine" where
  "with_server_policy k p e = e\<lparr>server_policies := (server_policies e)(k \<mapsto> p)\<rparr>"

definition with_tool_policy :: "string \<times> string \<Rightarrow> policy_decision \<Rightarrow> policy_engine \<Rightarrow> policy_engine" where
  "with_tool_policy q d e = e\<lparr>tool_policies := (tool_policies e)(q \<mapsto> d)\<rparr>"

definition with_rule :: "policy_rule \<Rightarrow> policy_engine \<Rightarrow> policy_engine" where
  "with_rule r e = e\<lparr>rules := rules e @ [r]\<rparr>"

definition engine_default :: policy_engine where
  "engine_default = with_rule \<lparr>rule_name = ''allow_read_only'', rule_pattern = AnyPattern,
     rule_condition = HasAnnotation ReadOnly, rule_decision = Allow\<rparr> engine_new"

fun evaluate_with_trust :: "trust_level \<Rightarrow> tool_annotations \<Rightarrow> policy_decision \<Rightarrow> policy_decision" where
  "evaluate_with_trust Trusted h d = Allow"
| "evaluate_with_trust Standard h d = d"
| "evaluate_with_trust Untrusted h d =
     (if destructive h \<and> \<not> read_only h then DenyWithReason ''Untrusted server: destructive operation denied'' else d)"
| "evaluate_with_trust Sandboxed h d =
     (if open_world h then DenyWithReason ''Sandboxed server: external access denied''
      else if read_only h then Allow
      else DenyWithReason ''Sandboxed server: write operations denied'')"

definition annotation_based_decision :: "policy_engine \<Rightarrow> tool_annotations \<Rightarrow> policy_decision" where
  "annotation_based_decision e h =
     (if read_only h then Allow
      else if destructive h then DenyWithReason ''Destructive operation requires explicit policy''
      else default_policy e)"

fun first_rule :: "policy_rule list \<Rightarrow> string \<Rightarrow> string \<Rightarrow> tool_annotations \<Rightarrow> policy_decision option" where
  "first_rule [] server tool h = None"
| "first_rule (r # rs) server tool h = (case rule_evaluate r server tool h of Some d \<Rightarrow> Some d | None \<Rightarrow> first_rule rs server tool h)"

fun decision_as_result :: "policy_decision \<Rightarrow> decision_result" where
  "decision_as_result Allow = Approved"
| "decision_as_result Deny = Denied ''Policy denied''"
| "decision_as_result (DenyWithReason r) = Denied r"

definition log_decision :: "string \<times> string \<Rightarrow> string \<Rightarrow> string \<Rightarrow> policy_decision \<Rightarrow> decision_source \<Rightarrow> audit_log \<Rightarrow> audit_log" where
  "log_decision qualified tenant request d source = record_decision qualified tenant request (decision_as_result d) source"

definition engine_evaluate :: "policy_engine \<Rightarrow> string \<Rightarrow> string \<Rightarrow> tool_annotations \<Rightarrow> string \<Rightarrow> string \<Rightarrow> audit_log \<Rightarrow> policy_decision \<times> audit_log" where
  "engine_evaluate e server tool h tenant request l =
     (let qualified = (server, tool);
          later = (case first_rule (rules e) server tool h of
              Some d \<Rightarrow> (d, log_decision qualified tenant request d RuleMatch l)
            | None \<Rightarrow> let d = annotation_based_decision e h in (d, log_decision qualified tenant request d AnnotationDefault l))
      in case tool_policies e qualified of
           Some d \<Rightarrow> (d, log_decision qualified tenant request d ExplicitToolPolicy l)
         | None \<Rightarrow>
             (case server_policies e server of
                Some sp \<Rightarrow>
                  let d = evaluate_with_trust (sp_trust_level sp) h (sp_default sp) in
                  if sp_trust_level sp = Trusted \<or> d \<noteq> Allow
                  then (d, log_decision qualified tenant request d ServerPolicySource l)
                  else later
              | None \<Rightarrow> later))"

record policy_config =
  pc_default :: policy_decision
  pc_servers :: "(string \<times> server_policy) list"
  pc_tools :: "(string \<times> policy_decision) list"

definition split_once_colon :: "string \<Rightarrow> (string \<times> string) option" where
  "split_once_colon s = (case dropWhile (\<lambda>c. c \<noteq> CHR '':'') s of [] \<Rightarrow> None | c # rest \<Rightarrow> Some (takeWhile (\<lambda>c. c \<noteq> CHR '':'') s, rest))"

definition from_yaml_config :: "policy_config \<Rightarrow> policy_engine" where
  "from_yaml_config c =
     foldl (\<lambda>e (k, d). case split_once_colon k of Some q \<Rightarrow> with_tool_policy q d e | None \<Rightarrow> e)
       \<lparr>default_policy = pc_default c, server_policies = map_of (pc_servers c), tool_policies = Map.empty, rules = []\<rparr>
       (pc_tools c)"

section \<open>Approval manager\<close>

record approval_key =
  request_id :: string
  server_key :: string
  elicitation_id :: string

datatype approval_decision = ApprovedByUser | DeniedByUser string

record pending_approval =
  pa_tool_name :: string
  pa_hints :: tool_annotations
  pa_message :: string
  created_at :: nat
  response_tx :: nat

datatype approval_mode = Interactive | PolicyOnly

record approval_params =
  ap_request_id :: string
  ap_server_key :: string
  ap_elicitation_id :: string
  ap_tool_name :: string
  ap_hints :: tool_annotations
  ap_message :: string
  ap_tenant :: string

record approval_request =
  ar_server_key :: string
  ar_tool_name :: string
  ar_message :: string
  ar_elicitation_id :: string

datatype approval_outcome = Decided policy_decision | Pending approval_key nat approval_request

datatype approval_error = NotFound string | AlreadyPending string | ChannelClosed | ApprovalTimedOut string | PolicyError string

definition key_to_string :: "approval_key \<Rightarrow> string" where
  "key_to_string k = request_id k @ '':'' @ server_key k @ '':'' @ elicitation_id k"

text \<open>The manager with the one-shot channels: the next one, the live receivers and what was sent.\<close>

record approval_manager =
  engine :: policy_engine
  pending :: "(approval_key \<times> pending_approval) list"
  audit :: audit_log
  approval_timeout :: duration
  next_channel :: nat
  receivers :: "nat list"
  sent :: "(nat \<times> approval_decision) list"

definition manager_new :: "policy_engine \<Rightarrow> audit_log \<Rightarrow> approval_manager" where
  "manager_new e l = \<lparr>engine = e, pending = [], audit = l, approval_timeout = from_secs 300,
     next_channel = 0, receivers = [], sent = []\<rparr>"

definition manager_with_timeout :: "duration \<Rightarrow> approval_manager \<Rightarrow> approval_manager" where
  "manager_with_timeout d m = m\<lparr>approval_timeout := d\<rparr>"

definition evict_expired :: "nat \<Rightarrow> approval_manager \<Rightarrow> approval_manager" where
  "evict_expired now m = m\<lparr>pending := filter (\<lambda>(k, p). now - created_at p < approval_timeout m) (pending m)\<rparr>"

definition key_of :: "approval_params \<Rightarrow> approval_key" where
  "key_of q = \<lparr>request_id = ap_request_id q, server_key = ap_server_key q, elicitation_id = ap_elicitation_id q\<rparr>"

definition request_interactive :: "nat \<Rightarrow> approval_params \<Rightarrow> approval_manager \<Rightarrow> (approval_error + approval_outcome) \<times> approval_manager" where
  "request_interactive now q m =
     (let key = key_of q in
      if map_of (pending m) key \<noteq> None then (Inl (AlreadyPending (key_to_string key)), m)
      else
        let c = next_channel m;
            p = \<lparr>pa_tool_name = ap_tool_name q, pa_hints = ap_hints q, pa_message = ap_message q, created_at = now, response_tx = c\<rparr>
        in (Inr (Pending key c \<lparr>ar_server_key = ap_server_key q, ar_tool_name = ap_tool_name q,
                   ar_message = ap_message q, ar_elicitation_id = ap_elicitation_id q\<rparr>),
            m\<lparr>next_channel := c + 1, receivers := receivers m @ [c],
              audit := record_decision (ap_server_key q, ap_tool_name q) (ap_tenant q) (ap_request_id q) PendingResult UserInteractive (audit m),
              pending := AList.update key p (pending m)\<rparr>))"

definition handle_approval :: "nat \<Rightarrow> nat \<Rightarrow> approval_mode \<Rightarrow> approval_params \<Rightarrow> approval_manager \<Rightarrow> (approval_error + approval_outcome) \<times> approval_manager" where
  "handle_approval now now' mode q m =
     (let m = evict_expired now m in
      case mode of
        Interactive \<Rightarrow> request_interactive now' q m
      | PolicyOnly \<Rightarrow>
          (case engine_evaluate (engine m) (ap_server_key q) (ap_tool_name q) (ap_hints q) (ap_tenant q) (ap_request_id q) (audit m) of
             (d, l) \<Rightarrow> (Inr (Decided d), m\<lparr>audit := l\<rparr>)))"

text \<open>A send on a channel: it fails when the receiver was dropped.\<close>

definition send_decision :: "nat \<Rightarrow> approval_decision \<Rightarrow> approval_manager \<Rightarrow> bool \<times> approval_manager" where
  "send_decision c d m = (if c \<in> set (receivers m) then (True, m\<lparr>sent := sent m @ [(c, d)]\<rparr>) else (False, m))"

definition user_decision :: "bool \<Rightarrow> string option \<Rightarrow> approval_decision" where
  "user_decision approved reason = (if approved then ApprovedByUser
     else DeniedByUser (case reason of Some r \<Rightarrow> r | None \<Rightarrow> ''User denied''))"

fun user_result :: "approval_decision \<Rightarrow> decision_result" where
  "user_result ApprovedByUser = Approved"
| "user_result (DeniedByUser r) = Denied r"

definition resolve_key :: "approval_key \<Rightarrow> bool \<Rightarrow> string option \<Rightarrow> string \<Rightarrow> approval_manager \<Rightarrow> (approval_error + unit) \<times> approval_manager" where
  "resolve_key key approved reason tenant m =
     (case map_of (pending m) key of
        None \<Rightarrow> (Inl (NotFound (key_to_string key)), m)
      | Some p \<Rightarrow>
          let d = user_decision approved reason;
              m = m\<lparr>pending := AList.delete key (pending m),
                    audit := record_decision (server_key key, pa_tool_name p) tenant (request_id key) (user_result d) UserInteractive (audit m)\<rparr>
          in case send_decision (response_tx p) d m of
               (ok, m) \<Rightarrow> (if ok then Inr () else Inl ChannelClosed, m))"

definition has_pending :: "approval_key \<Rightarrow> approval_manager \<Rightarrow> bool" where
  "has_pending k m \<longleftrightarrow> map_of (pending m) k \<noteq> None"

definition pending_count :: "approval_manager \<Rightarrow> nat" where
  "pending_count m = length (pending m)"

definition cancel_key :: "approval_manager \<Rightarrow> approval_key \<Rightarrow> approval_manager" where
  "cancel_key m key = (case map_of (pending m) key of
       None \<Rightarrow> m
     | Some p \<Rightarrow> snd (send_decision (response_tx p) (DeniedByUser ''System shutdown'') (m\<lparr>pending := AList.delete key (pending m)\<rparr>)))"

definition cancel_all_pending :: "approval_manager \<Rightarrow> approval_manager" where
  "cancel_all_pending m = foldl cancel_key m (map fst (pending m))"

section \<open>The call of the orchestrator\<close>

datatype mcp_error = ApprovalFailed approval_error | ToolDenied string

datatype 'r execution_result = ExecutionSuccess 'r | PendingApproval approval_request

definition drop_receiver :: "nat \<Rightarrow> approval_manager \<Rightarrow> approval_manager" where
  "drop_receiver c m = m\<lparr>receivers := removeAll c (receivers m)\<rparr>"

text \<open>
  \<open>execute_tool_with_approval_raw_internal\<close>: \<open>exec\<close> is the result of running the tool, and \<open>answer\<close> what
  a wait on the channel gives. An early return drops the receiver.
\<close>

definition execute_with_approval ::
    "(unit \<Rightarrow> mcp_error + 'r) \<Rightarrow> approval_decision option \<Rightarrow> nat \<Rightarrow> nat \<Rightarrow> approval_mode \<Rightarrow> approval_params \<Rightarrow> approval_manager
     \<Rightarrow> (mcp_error + 'r execution_result) \<times> approval_manager" where
  "execute_with_approval exec answer now now' mode q m =
     (let run = map_sum id ExecutionSuccess (exec ()) in
      case handle_approval now now' mode q m of
        (Inl e, m) \<Rightarrow> (Inl (ApprovalFailed e), m)
      | (Inr (Decided d), m) \<Rightarrow> if \<not> is_allowed d then (Inl (ToolDenied (ap_tool_name q)), m) else (run, m)
      | (Inr (Pending key c req), m) \<Rightarrow>
          if mode = Interactive then (Inr (PendingApproval req), drop_receiver c m)
          else (case answer of
              Some ApprovedByUser \<Rightarrow> (run, drop_receiver c m)
            | Some (DeniedByUser r) \<Rightarrow> (Inl (ToolDenied r), drop_receiver c m)
            | None \<Rightarrow> (Inl (ToolDenied ''Channel closed''), drop_receiver c m)))"

text \<open>A tool as a server lists it, and its entry in the inventory with the fields that approvals use.\<close>

record server_tool =
  st_name :: string
  st_annotations :: "rmcp_annotations option"

record tool_entry =
  te_qualified_name :: "string \<times> string"
  te_tool :: server_tool
  te_annotations :: tool_annotations

definition tool_entry_new :: "string \<times> string \<Rightarrow> server_tool \<Rightarrow> tool_entry" where
  "tool_entry_new q t = \<lparr>te_qualified_name = q, te_tool = t, te_annotations = annotations_default\<rparr>"

definition from_server_tool :: "string \<Rightarrow> server_tool \<Rightarrow> tool_entry" where
  "from_server_tool server t = tool_entry_new (server, st_name t) t"

section \<open>Runs of the manager\<close>

datatype approval_op =
    Handle nat nat approval_mode approval_params
  | Resolve approval_key bool "string option" string
  | Evict nat
  | CancelAll
  | DropReceiver nat

fun approval_step :: "approval_manager \<Rightarrow> approval_op \<Rightarrow> approval_manager" where
  "approval_step m (Handle now now' mode q) = snd (handle_approval now now' mode q m)"
| "approval_step m (Resolve k approved reason tenant) = snd (resolve_key k approved reason tenant m)"
| "approval_step m (Evict now) = evict_expired now m"
| "approval_step m CancelAll = cancel_all_pending m"
| "approval_step m (DropReceiver c) = drop_receiver c m"

text \<open>Each channel belongs to at most one pending approval, and nothing was sent on it yet.\<close>

definition channels_ok :: "approval_manager \<Rightarrow> bool" where
  "channels_ok m \<longleftrightarrow> distinct (map fst (pending m)) \<and> distinct (map (response_tx \<circ> snd) (pending m))
     \<and> (\<forall>x \<in> set (pending m). response_tx (snd x) < next_channel m \<and> response_tx (snd x) \<notin> fst ` set (sent m))
     \<and> (\<forall>x \<in> set (sent m). fst x < next_channel m) \<and> distinct (map fst (sent m))"

lemma channels_ok_sub:
  assumes "channels_ok m" "pending m' = filter P (pending m)" "next_channel m' = next_channel m" "sent m' = sent m"
  shows "channels_ok m'"
  using assms by (auto simp: channels_ok_def distinct_map_filter)

lemma send_ok:
  assumes "channels_ok m" "map_of (pending m) k = Some p"
  shows "channels_ok (snd (send_decision (response_tx p) d (m\<lparr>pending := AList.delete k (pending m), audit := l\<rparr>)))"
proof -
  have e: "AList.delete k (pending m) = filter (\<lambda>x. fst x \<noteq> k) (pending m)" by (auto simp: AList.delete_eq intro!: filter_cong)
  have p: "(k, p) \<in> set (pending m)" using assms(2) by (rule map_of_SomeD)
  have "response_tx (snd x) \<noteq> response_tx p" if x: "x \<in> set (pending m)" "fst x \<noteq> k" for x
  proof
    assume "response_tx (snd x) = response_tx p"
    moreover have "inj_on (response_tx \<circ> snd) (set (pending m))" using assms(1) by (simp add: channels_ok_def distinct_map)
    ultimately have "x = (k, p)" using inj_onD [of "response_tx \<circ> snd" "set (pending m)" x "(k, p)"] x(1) p by simp
    with x(2) show False by simp
  qed
  moreover have "response_tx p \<notin> fst ` set (sent m)" "response_tx p < next_channel m"
    using assms(1) p unfolding channels_ok_def by force+
  ultimately show ?thesis
    using assms(1) by (auto simp: send_decision_def channels_ok_def e distinct_map_filter)
qed

lemma update_absent: "k \<notin> fst ` set al \<Longrightarrow> AList.update k v al = al @ [(k, v)]"
  by (induction al) auto

lemma request_interactive_ok:
  assumes "channels_ok m"
  shows "channels_ok (snd (request_interactive now q m))"
proof (cases "map_of (pending m) (key_of q)")
  case None
  let ?p = "\<lparr>pa_tool_name = ap_tool_name q, pa_hints = ap_hints q, pa_message = ap_message q, created_at = now,
    response_tx = next_channel m\<rparr>"
  have k: "key_of q \<notin> fst ` set (pending m)" using None by (simp add: map_of_eq_None_iff)
  then have u: "AList.update (key_of q) ?p (pending m) = pending m @ [(key_of q, ?p)]" by (rule update_absent)
  show ?thesis
    using assms None k by (auto simp: request_interactive_def Let_def channels_ok_def u less_Suc_eq)
qed (simp add: request_interactive_def Let_def assms)

lemma evict_expired_ok: "channels_ok m \<Longrightarrow> channels_ok (evict_expired now m)"
  by (erule channels_ok_sub) (simp_all add: evict_expired_def)

lemma cancel_key_ok:
  assumes "channels_ok m"
  shows "channels_ok (cancel_key m k)"
  using assms send_ok [OF assms, of k _ "DeniedByUser ''System shutdown''" "audit m"]
  by (cases "map_of (pending m) k") (simp_all add: cancel_key_def)

lemma cancel_all_ok:
  assumes "channels_ok m"
  shows "channels_ok (cancel_all_pending m)"
proof -
  have "channels_ok (foldl cancel_key m ks)" for ks
    using assms by (induction ks arbitrary: m) (simp_all add: cancel_key_ok)
  then show ?thesis by (simp add: cancel_all_pending_def)
qed

lemma approval_step_ok:
  assumes "channels_ok m"
  shows "channels_ok (approval_step m op)"
proof (cases op)
  case (Handle now now' mode q)
  show ?thesis
  proof (cases mode)
    case PolicyOnly
    have "channels_ok (evict_expired now m\<lparr>audit := l\<rparr>)" for l
      using evict_expired_ok [OF assms, of now] by (simp add: channels_ok_def)
    then show ?thesis by (simp add: Handle PolicyOnly handle_approval_def Let_def split: prod.split)
  qed (simp add: Handle handle_approval_def request_interactive_ok evict_expired_ok assms)
next
  case (Resolve k approved reason tenant)
  then show ?thesis
    using assms send_ok [OF assms, of k]
    by (cases "map_of (pending m) k") (simp_all add: resolve_key_def Let_def split: prod.split, metis snd_conv)
next
  case (DropReceiver c)
  then show ?thesis using assms by (simp add: drop_receiver_def channels_ok_def)
qed (simp_all add: assms evict_expired_ok cancel_all_ok)

interpretation approvals: invariant_system approval_step channels_ok
  by unfold_locales (rule approval_step_ok)

definition approval_run :: "policy_engine \<Rightarrow> audit_log \<Rightarrow> approval_op list \<Rightarrow> approval_manager" where
  "approval_run e l ops = foldl approval_step (manager_new e l) ops"

lemma approval_run_ok: "channels_ok (approval_run e l ops)"
  unfolding approval_run_def by (rule approvals.inv_run) (simp add: channels_ok_def manager_new_def)

lemma cancel_denies:
  "set (sent (cancel_all_pending m)) \<subseteq> set (sent m) \<union> UNIV \<times> {DeniedByUser ''System shutdown''}"
proof -
  have s: "set (sent (cancel_key m k)) \<subseteq> set (sent m) \<union> UNIV \<times> {DeniedByUser ''System shutdown''}" for m k
    by (auto simp: cancel_key_def send_decision_def split: option.splits if_splits)
  have "set (sent (foldl cancel_key m ks)) \<subseteq> set (sent m) \<union> UNIV \<times> {DeniedByUser ''System shutdown''}" for ks
  proof (induction ks arbitrary: m)
    case (Cons k ks)
    from Cons [of "cancel_key m k"] s [of m k] show ?case by auto
  qed simp
  then show ?thesis by (simp add: cancel_all_pending_def)
qed

lemma approvals_come_from_users:
  assumes "(c, ApprovedByUser) \<in> set (sent (approval_step m op))" "(c, ApprovedByUser) \<notin> set (sent m)"
  shows "\<exists>k reason tenant p. op = Resolve k True reason tenant \<and> map_of (pending m) k = Some p \<and> response_tx p = c"
proof (cases op)
  case (Handle now now' mode q)
  have "sent (snd (handle_approval now now' mode q m)) = sent m"
    by (simp add: handle_approval_def request_interactive_def evict_expired_def Let_def split: approval_mode.split prod.split)
  then show ?thesis using assms Handle by simp
next
  case (Resolve k approved reason tenant)
  then show ?thesis
    using assms
    by (auto simp: resolve_key_def Let_def send_decision_def user_decision_def split: option.splits if_splits)
next
  case CancelAll
  then show ?thesis using assms cancel_denies [of m] by auto
qed (use assms in \<open>simp_all add: evict_expired_def drop_receiver_def\<close>)

section \<open>Properties\<close>

text \<open>
  C39: Each request for approval is answered at most once, after any sequence of requests, answers,
  evictions, cancellations and dropped receivers; and an approval is sent only in the step in which
  the user approves the pending request whose channel it is.
\<close>

theorem approval_answered_once:
  "distinct (map fst (sent (approval_run e l ops)))
   \<and> ((c, ApprovedByUser) \<in> set (sent (approval_step (approval_run e l ops) op)) - set (sent (approval_run e l ops))
      \<longrightarrow> (\<exists>k reason tenant p. op = Resolve k True reason tenant
            \<and> map_of (pending (approval_run e l ops)) k = Some p \<and> response_tx p = c))"
  using approval_run_ok [of e l ops] approvals_come_from_users [of c "approval_run e l ops" op]
  by (auto simp: channels_ok_def)

definition demo_params :: approval_params where
  "demo_params = \<lparr>ap_request_id = ''r'', ap_server_key = ''s'', ap_elicitation_id = ''e'', ap_tool_name = ''t'',
     ap_hints = annotations_default, ap_message = ''m'', ap_tenant = ''x''\<rparr>"

definition demo_op :: approval_op where
  "demo_op = Resolve (key_of demo_params) True None ''x''"

lemma demo_sent:
  "(0, ApprovedByUser) \<in> set (sent (approval_step (approval_run engine_new audit_new [Handle 0 0 Interactive demo_params]) demo_op))
     - set (sent (approval_run engine_new audit_new [Handle 0 0 Interactive demo_params]))"
  by (simp add: approval_run_def demo_op_def handle_approval_def evict_expired_def manager_new_def request_interactive_def
      Let_def resolve_key_def send_decision_def user_decision_def)

theorem approval_answered_once_witness:
  "\<exists>k reason tenant p. demo_op = Resolve k True reason tenant
     \<and> map_of (pending (approval_run engine_new audit_new [Handle 0 0 Interactive demo_params])) k = Some p \<and> response_tx p = 0"
  using approval_answered_once [of engine_new audit_new "[Handle 0 0 Interactive demo_params]" 0 demo_op] demo_sent by blast

text \<open>
  C38: The trust level of a server is enforced whatever the rules and the default policy say. An explicit policy
  of the tool decides alone. Without one, a tool of a trusted server is allowed; a tool of an untrusted server that
  is destructive and not read-only is denied; an allowed tool of a sandboxed server is read-only and has no
  access to the outside; and a server at the standard or the untrusted level whose default is to deny
  allows nothing.
\<close>

theorem trust_levels_enforced:
  assumes "d = fst (engine_evaluate e server tool h tenant request l)"
  shows "case tool_policies e (server, tool) of
      Some p \<Rightarrow> d = p
    | None \<Rightarrow> (case server_policies e server of
          None \<Rightarrow> True
        | Some sp \<Rightarrow> (case sp_trust_level sp of
              Trusted \<Rightarrow> is_allowed d
            | Standard \<Rightarrow> is_allowed d \<longrightarrow> is_allowed (sp_default sp)
            | Untrusted \<Rightarrow> is_allowed d \<longrightarrow> is_allowed (sp_default sp) \<and> \<not> should_require_approval h
            | Sandboxed \<Rightarrow> is_allowed d \<longrightarrow> read_only h \<and> \<not> open_world h))"
proof -
  have a: "is_allowed x \<longleftrightarrow> x = Allow" for x by (cases x) simp_all
  show ?thesis
  proof (cases "server_policies e server")
    case (Some sp)
    then show ?thesis unfolding assms
      by (cases "sp_trust_level sp")
         (auto simp: a engine_evaluate_def should_require_approval_def Let_def split: option.splits if_splits)
  qed (simp add: assms engine_evaluate_def Let_def split: option.split)
qed

text \<open>An untrusted server whose rules would allow everything.\<close>

theorem trust_levels_enforced_witness:
  "\<not> is_allowed (fst (engine_evaluate
     (with_server_policy ''s'' \<lparr>sp_default = Allow, sp_trust_level = Untrusted\<rparr>
       (with_rule \<lparr>rule_name = ''all'', rule_pattern = AnyPattern, rule_condition = Always, rule_decision = Allow\<rparr> engine_new))
     ''s'' ''t'' (annotations_default\<lparr>destructive := True\<rparr>) ''x'' ''r'' audit_new))"
  using trust_levels_enforced [OF refl, of "with_server_policy ''s'' \<lparr>sp_default = Allow, sp_trust_level = Untrusted\<rparr>
       (with_rule \<lparr>rule_name = ''all'', rule_pattern = AnyPattern, rule_condition = Always, rule_decision = Allow\<rparr> engine_new)"
     "''s''" "''t''" "annotations_default\<lparr>destructive := True\<rparr>" "''x''" "''r''" audit_new]
  by (simp add: with_server_policy_def with_rule_def engine_new_def should_require_approval_def annotations_default_def)

text \<open>
  A tool that is destructive and not read-only is allowed exactly when a policy of the tool says
  so, or, without such a policy, when its server is trusted, or when the first rule that applies
  allows it and the policy of its server, if any, is the standard one and allows. The default
  policy never allows such a tool.
\<close>

theorem destructive_needs_grant:
  assumes "should_require_approval h"
  shows "is_allowed (fst (engine_evaluate e server tool h tenant request l)) \<longleftrightarrow>
    (case tool_policies e (server, tool) of
       Some d \<Rightarrow> d = Allow
     | None \<Rightarrow>
         (case server_policies e server of
            Some sp \<Rightarrow> sp_trust_level sp = Trusted
              \<or> (sp_trust_level sp = Standard \<and> sp_default sp = Allow \<and> first_rule (rules e) server tool h = Some Allow)
          | None \<Rightarrow> first_rule (rules e) server tool h = Some Allow))"
proof -
  have a: "is_allowed d \<longleftrightarrow> d = Allow" for d by (cases d) simp_all
  have h: "destructive h" "\<not> read_only h" using assms by (simp_all add: should_require_approval_def)
  have b: "annotation_based_decision e h \<noteq> Allow" using h by (simp add: annotation_based_decision_def)
  show ?thesis
  proof (cases "server_policies e server")
    case None
    with a b show ?thesis by (auto simp: engine_evaluate_def Let_def split: option.splits)
  next
    case (Some sp)
    with a b h show ?thesis
      by (cases "sp_trust_level sp") (auto simp: engine_evaluate_def Let_def split: option.splits)
  qed
qed

theorem destructive_needs_grant_witness:
  "\<not> is_allowed (fst (engine_evaluate engine_default ''s'' ''t'' (annotations_default\<lparr>destructive := True\<rparr>) ''x'' ''r'' audit_new))"
  using destructive_needs_grant [of "annotations_default\<lparr>destructive := True\<rparr>" engine_default "''s''" "''t''" "''x''" "''r''" audit_new]
  by (simp add: should_require_approval_def annotations_default_def engine_default_def engine_new_def with_rule_def rule_evaluate_def)

text \<open>
  Every evaluation of the policies is audited: the newest entry of the log names the tool, the
  tenant and the request, and its result is the decision.
\<close>

theorem evaluation_audited:
  "case engine_evaluate e server tool h tenant request l of (d, l') \<Rightarrow>
     \<exists>source rest. entries l' = rest @ [\<lparr>ae_tenant_id = tenant, ae_request_id = request, ae_server_key = server,
       ae_tool_name = tool, ae_result = decision_as_result d, ae_source = source\<rparr>]"
  by (auto simp: engine_evaluate_def Let_def log_decision_def record_decision_def audit_record_def split: option.split)

text \<open>
  C40: The answer of the user to an approval that the orchestrator requested is always lost: the
  orchestrator drops the receiver when it returns the pending request, so that the answer is
  recorded in the audit log and the request is no longer pending, but the call fails with a closed
  channel and nothing is delivered.
\<close>

theorem interactive_answer_lost:
  assumes "execute_with_approval exec answer now now' Interactive q m = (Inr (PendingApproval req), m')"
  shows "case resolve_key (key_of q) approved reason tenant m' of (r, m'') \<Rightarrow>
    r = Inl ChannelClosed \<and> sent m'' = sent m \<and> \<not> has_pending (key_of q) m''
    \<and> ae_result (last (entries (audit m''))) = user_result (user_decision approved reason)"
proof -
  have "map_of (pending (evict_expired now m)) (key_of q) = None"
    using assms by (auto simp: execute_with_approval_def handle_approval_def request_interactive_def Let_def split: if_splits)
  then have m': "m' = drop_receiver (next_channel m) (snd (request_interactive now' q (evict_expired now m)))"
    using assms by (auto simp: execute_with_approval_def handle_approval_def request_interactive_def Let_def evict_expired_def)
  show ?thesis
    using \<open>map_of (pending (evict_expired now m)) (key_of q) = None\<close> unfolding m'
    by (simp add: resolve_key_def request_interactive_def drop_receiver_def Let_def send_decision_def has_pending_def
        update_conv' delete_conv' evict_expired_def record_decision_def audit_record_def)
qed

theorem interactive_answer_lost_witness:
  "fst (resolve_key (key_of demo_params) True None ''x''
     (snd (execute_with_approval (\<lambda>_. Inr ()) None 0 0 Interactive demo_params (manager_new engine_new audit_new)))) = Inl ChannelClosed"
proof -
  let ?r = "execute_with_approval (\<lambda>_. Inr ()) None 0 0 Interactive demo_params (manager_new engine_new audit_new)"
  obtain req where "fst ?r = Inr (PendingApproval req)"
    by (simp add: execute_with_approval_def handle_approval_def request_interactive_def Let_def evict_expired_def manager_new_def)
  then have "?r = (Inr (PendingApproval req), snd ?r)" by (metis prod.collapse)
  from interactive_answer_lost [OF this, of True None "''x''"] show ?thesis by (auto split: prod.splits)
qed

text \<open>
  The hints of a tool that its server declares have no effect: its entry in the inventory has the
  default annotations, so that without policies every tool is allowed, a declared destructive one
  included, which the engine denies when it is given the declared hints.
\<close>

theorem declared_hints_ignored:
  "is_allowed (fst (engine_evaluate engine_new server (st_name t) (te_annotations (from_server_tool server t)) tenant request l))
   \<and> \<not> is_allowed (fst (engine_evaluate engine_new server (st_name t)
        (from_rmcp \<lparr>read_only_hint = None, destructive_hint = Some True, idempotent_hint = None, open_world_hint = None\<rparr>) tenant request l))"
  by (simp add: engine_evaluate_def Let_def engine_new_def from_server_tool_def tool_entry_new_def annotations_default_def
      annotation_based_decision_def from_rmcp_def hint_or_def)

end
