(* ===== verification/Spec2Isabelle.thy ===== *)
theory Spec2Isabelle
  imports BreakerInterleaving ConcurrencyLimiter HealthManager MeshCrdt ReasoningParser StopDecoder MeshChunking WorkflowRetry KvEventIndex TokenTree BucketPolicy McpApproval
begin

text \<open>
  A verification library for the Shepherd Model Gateway, a Rust server that routes inference
  requests to a fleet of workers. It models the core of \<open>model_gateway/src\<close> that decides
  whether a request is admitted, which worker serves it, how often it is retried, and which
  workers are in the rotation; the replicated map of \<open>crates/mesh\<close> through which gateways
  share worker states and rate-limit counters, and its transfer of large values in chunks; the
  text pipeline behind a streamed answer (incremental decoding, stop sequences and reasoning
  tags); the indexes of cached prefixes (\<open>crates/kv_index\<close>); the approval of
  tool calls (\<open>crates/mcp/src/approval\<close>); and the definitions, the scheduler and the retries of the
  workflow engine.

  \<^bold>\<open>The parts and how they interact.\<close> A request first passes the concurrency limiter
  (\<open>middleware/concurrency.rs\<close>), which draws a token from a token bucket
  (\<open>middleware/token_bucket.rs\<close>) or waits in a queue. The router then asks the worker registry
  (\<open>worker/registry.rs\<close>) for the workers of the model, and a policy (\<open>policies/\<close>) for one of
  them; consistent and prefix hashing use the ring (\<open>worker/hash_ring.rs\<close>) that the registry
  keeps for the model. The call runs inside the retry loop (\<open>routers/common/retry.rs\<close>); its
  outcome is reported to the circuit breaker of the worker (\<open>worker/circuit_breaker.rs\<close>), and a
  load guard counts it while it runs (\<open>worker/worker.rs\<close>). In the background the health manager
  (\<open>worker/manager.rs\<close>) probes the workers, moves their status and asks for the removal of
  those that failed. Generated tokens are decoded incrementally and cut at stop sequences
  (\<open>crates/tokenizer/src\<close>), and reasoning is split off at its tags (\<open>crates/reasoning_parser\<close>).
  Worker registration and removal run as workflows of steps with dependencies
  (\<open>crates/workflow\<close>). Cache-aware routing looks up which worker holds the longest prefix of a
  request, in a tree of the prefixes it routed or in an index fed by the cache events of the
  workers (\<open>crates/kv_index\<close>). Tools that a model calls are executed after the policies, or the user,
  approved them (\<open>crates/mcp\<close>).

  \<^bold>\<open>Theories.\<close>
  \<^item> \<open>Prelude\<close>: machine integers, saturating arithmetic, durations, rounding of floating-point
    numbers, searches in lists, and the locales \<open>invariant_system\<close> and \<open>refinement_system\<close>.
  \<^item> \<open>CircuitBreaker\<close>: the breaker as a record of its atomics, one definition for each method of
    \<open>CircuitBreaker\<close>. It refines a three-state specification; when it rejects, opens and recovers
    is characterised exactly; a half-open breaker admits any number of requests.
  \<^item> \<open>BreakerInterleaving\<close>: the same methods cut into single atomic accesses, with any number of
    callers. At most one caller wins the half-open transition; an uninterrupted call is the
    sequential one; racing calls can reach a state that no order of the calls reaches.
  \<^item> \<open>Resilience\<close>: backoff, the two retry loops, the merge of defaults and overrides
    (\<open>worker/resilience.rs\<close>). The loops are functions with a termination proof; the result is the
    first final response.
  \<^item> \<open>TokenBucket\<close> and \<open>ConcurrencyLimiter\<close>: the bucket with an arbitrary monotone rounding, and
    the middleware, the queue processor, the waiting tasks and the response guards as one state
    machine over the points where the code awaits. The tokens granted are bounded by capacity,
    returned tokens and refill, with the rounding error written out. With refill rate 0 the limiter
    is a semaphore, and each disconnect of a running request loses a token.
  \<^item> \<open>Workers\<close>: workers as objects in a heap with shared runtimes and breakers, load guards, model
    lists. The load counters are the numbers of live guards, through replacements.
  \<^item> \<open>SelectionPolicies\<close>: round robin, random, power of two choices and manual routing, with the
    contracts \<open>status_policy\<close> and \<open>available_policy\<close> that they implement.
  \<^item> \<open>BucketPolicy\<close>: the bucket policy (\<open>policies/bucket.rs\<close>) with its length ranges, window and
    adjustment. Every request length is in exactly one range and the loads of the window are exact;
    after a second set-up the ranges send requests to the first worker only, and unhealthy workers
    can be chosen.
  \<^item> \<open>HashRing\<close>: the ring, consistent hashing and prefix hashing. A lookup is the first healthy
    entry clockwise, for any order in which the unstable sort leaves entries of one position;
    removing a worker moves only its own keys if no two URLs share a position; prefix hashing
    respects its load bound.
  \<^item> \<open>Registry\<close>: the registry with all its indexes, as a step relation over registry and heap. The
    indexes are exact in every reachable state and the events determine the registered workers,
    with the mutations taken one at a time and without a change of the model list of a
    registered worker.
  \<^item> \<open>HealthManager\<close>: the schedule, the status state machine and the loop. The thresholds are
    exact, no worker stays pending, and the number of running probes is bounded.
  \<^item> \<open>MeshCrdt\<close>: the replicated map (\<open>crates/mesh/src/crdt_kv\<close>): Lamport clock, store, operation
    log and OR-map, and the counter merge. Replicas that merged each other's logs agree, as
    long as no log is over its limit of 10,000 keys and no clock is exhausted; the counter merge is a semilattice (locale \<open>merge_semilattice\<close>).
  \<^item> \<open>MeshChunking\<close>: the cutting of large values into chunks and their assembly
    (\<open>crates/mesh/src\<close>). A value of at most 1024 chunks is delivered exactly if there is room for it, from the chunks of one publish only, and
    the memory of unfinished assemblies is bounded.
  \<^item> \<open>RustText\<close>: Rust strings as UTF-8 bytes and as scalars, with boundaries and searches.
  \<^item> \<open>ReasoningParser\<close>: the base parser, its variants, the factory and the pool. A stream is split
    at its tags however these are cut, if they share no chunk with other text; a start tag cut
    behind other text leaks.
  \<^item> \<open>StopDecoder\<close>: the incremental decoder and the stop-sequence decoder. Only whole scalars are
    emitted, the emitted text is the decoded text, and it ends exactly at the first stop.
  \<^item> \<open>WorkflowDag\<close>: workflow definitions and their validation (\<open>definition.rs\<close>, \<open>types.rs\<close>).
    Validation accepts exactly the definitions whose dependencies exist and have no cycle.
  \<^item> \<open>WorkflowEngine\<close>: the scheduler \<open>execute_workflow\<close> of \<open>engine.rs\<close> and the tasks it spawns, one
    step for each region under the lock of the tracker, interleaved in any way. Steps are
    launched after their dependencies and once if scheduled steps also have a delay; a scheduled
    step whose time comes in the middle of a round can be launched twice; a run can be ended as deadlocked while a signal is on its way.
  \<^item> \<open>WorkflowRetry\<close>: the backoffs and \<open>execute_step_with_retry\<close> of \<open>engine.rs\<close>. A step ends with its
    first final attempt, after exactly the delays of its backoff; a returned failure is never
    retried, whatever the failure action.
  \<^item> \<open>KvEventIndex\<close>: the positional index of \<open>event_tree.rs\<close>, fed by the cache events of the
    workers, with its jump search. The workers that hold the blocks of a request are scored by
    the prefix they hold; a worker can be scored for a block that only another one holds.
  \<^item> \<open>TokenTree\<close>: the radix tree of \<open>token_tree.rs\<close> with insertion, lookup and eviction, and the set
    of recorded prefixes as its specification (\<open>recorded\<close>, interpretation \<open>radix_tree\<close>). Lookups find
    the longest recorded prefix, evictions spare other tenants; the token counts are exact only
    without repeated insertions, and evictions stop at leaves that are shared.
  \<^item> \<open>McpApproval\<close>: annotations, policies, audit log and pending approvals of tool calls. Trust levels
    are enforced, requests are answered at most once, and evaluations are audited; the
    answers to requests of the orchestrator are lost, and declared hints have no effect.

  \<^bold>\<open>Conventions.\<close> Machine integers are words of their width, so wrap-around is the wrap-around of
  the code. Durations and instants are numbers of nanoseconds. Clock readings, random draws,
  new identifiers and hash functions (blake3, xxh3) are arguments. Floating-point arithmetic is
  rational arithmetic with a rounding function after each operation; theorems that need more
  than \<open>ieee_rounding\<close> (monotone, exact on 0 and odd) assume \<open>exact_below\<close>, exactness on the
  integers up to a bound, which doubles have below \<open>2 ^ 53\<close>, or bound the rounding error (\<open>rounds_within\<close>). There is no fuel: every loop of the
  modelled code is a recursion on a list, a counter or a proved measure. Hash maps that are
  iterated over are association lists, whose order stands for the iteration order. A region
  under a lock is one step; what the atomics of the breaker allow in between is modelled
  separately, as said above.

  \<^bold>\<open>Not modelled.\<close> Network and file I/O, serialisation, telemetry, and the parts that only
  forward to third-party packages: the HTTP and gRPC routers, storage backends, authentication,
  WebAssembly, image processing, and the sessions, inventory and transformations of MCP. The
  gossip protocol of the mesh, the string tree of cache-aware routing and the policy on top of the
  trees, the tokenizers behind the decoders, the tool parsers, and of the workflow engine the state
  store, the event bus, start-up and shutdown, are not modelled yet.
\<close>

end
